(* ===== verification/Redis_Prelude.thy ===== *)
theory Redis_Prelude
  imports Main "HOL-Library.Word"
begin

text \<open>
  Shared vocabulary of the development: bytes and byte buffers, the C memory primitives the
  sources call (\<^verbatim>\<open>memcpy\<close>, \<^verbatim>\<open>memmove\<close>, \<^verbatim>\<open>zrealloc\<close>), fixed-width integers laid
  out in little-endian order, and the rewrite collections the component proofs use.

  Conventions of the model. A C integer variable is an \<open>int\<close> or a \<open>nat\<close>, with the
  conversions of the source (\<open>uint32\<close>, \<open>int16_t\<close>, ...) written out wherever a value may
  leave the range of its type; a value that is used bitwise is a word. A buffer is a list
  of bytes; writing beyond its end would be undefined behaviour in C, and the invariants
  proved for each component show that it does not happen.
\<close>

named_theorems mem_simps \<open>reading and writing byte buffers\<close>
named_theorems codec_simps \<open>decoding what was encoded\<close>

type_synonym byte = "8 word"
type_synonym bytes = "byte list"

subsection \<open>Ranges of the C integer types\<close>

abbreviation INT16_MIN :: int where "INT16_MIN \<equiv> - 32768"
abbreviation INT16_MAX :: int where "INT16_MAX \<equiv> 32767"
abbreviation INT32_MIN :: int where "INT32_MIN \<equiv> - 2147483648"
abbreviation INT32_MAX :: int where "INT32_MAX \<equiv> 2147483647"
abbreviation LLONG_MIN :: int where "LLONG_MIN \<equiv> - 9223372036854775808"
abbreviation LLONG_MAX :: int where "LLONG_MAX \<equiv> 9223372036854775807"
abbreviation ULLONG_MAX :: int where "ULLONG_MAX \<equiv> 18446744073709551615"

text \<open>Conversion of a mathematical integer to an unsigned type.\<close>

abbreviation uint32 :: "nat \<Rightarrow> nat" where "uint32 n \<equiv> n mod 4294967296"
abbreviation uint64 :: "int \<Rightarrow> int" where "uint64 v \<equiv> v mod 18446744073709551616"

text \<open>The values an \<open>int64_t\<close> variable can have.\<close>

definition in_int64 :: "int \<Rightarrow> bool" where
  "in_int64 v \<longleftrightarrow> LLONG_MIN \<le> v \<and> v \<le> LLONG_MAX"

subsection \<open>Buffers\<close>

definition mem_read :: "nat \<Rightarrow> nat \<Rightarrow> 'a list \<Rightarrow> 'a list" where
  "mem_read off n m = take n (drop off m)"

definition mem_write :: "nat \<Rightarrow> 'a list \<Rightarrow> 'a list \<Rightarrow> 'a list" where
  "mem_write off bs m = take off m @ bs @ drop (off + length bs) m"

text \<open>\<^verbatim>\<open>memmove(m+dst, m+src, n)\<close>: the source is read before the target is written.\<close>

definition memmove :: "nat \<Rightarrow> nat \<Rightarrow> nat \<Rightarrow> 'a list \<Rightarrow> 'a list" where
  "memmove dst src n m = mem_write dst (mem_read src n m) m"

text \<open>
  \<^verbatim>\<open>zrealloc\<close>: the old contents are kept up to the new size; what the fresh bytes hold is
  not specified, so it is a parameter \<open>junk\<close> of the model, giving a byte for each offset.
\<close>

definition zrealloc :: "(nat \<Rightarrow> 'a) \<Rightarrow> 'a list \<Rightarrow> nat \<Rightarrow> 'a list" where
  "zrealloc junk m n = take n m @ map junk [length m..<n]"

lemma length_mem_read [mem_simps]: "length (mem_read off n m) = min n (length m - off)"
  by (simp add: mem_read_def)

lemma length_mem_write [mem_simps]:
  "off + length bs \<le> length m \<Longrightarrow> length (mem_write off bs m) = length m"
  by (simp add: mem_write_def)

lemma length_zrealloc [mem_simps]: "length (zrealloc junk m n) = n"
  by (simp add: zrealloc_def)

lemma mem_read_write_same [mem_simps]:
  "off + length bs \<le> length m \<Longrightarrow> n = length bs \<Longrightarrow> mem_read off n (mem_write off bs m) = bs"
  by (simp add: mem_read_def mem_write_def)

lemma mem_read_write_before [mem_simps]:
  "off + length bs \<le> length m \<Longrightarrow> a + n \<le> off \<Longrightarrow>
    mem_read a n (mem_write off bs m) = mem_read a n m"
  by (simp add: mem_read_def mem_write_def take_drop min_def)

lemma mem_read_write_after [mem_simps]:
  assumes "off + length bs \<le> length m" and "off + length bs \<le> a"
  shows "mem_read a n (mem_write off bs m) = mem_read a n m"
proof -
  have "drop a (mem_write off bs m) = drop a m"
    using assms by (simp add: mem_write_def)
  then show ?thesis by (simp add: mem_read_def)
qed

lemma mem_read_zrealloc [mem_simps]:
  "a + n \<le> length m \<Longrightarrow> a + n \<le> k \<Longrightarrow> mem_read a n (zrealloc junk m k) = mem_read a n m"
  by (simp add: mem_read_def zrealloc_def take_drop min_def)

lemma mem_read_mem_read [mem_simps]:
  "a + n \<le> k \<Longrightarrow> mem_read a n (mem_read off k m) = mem_read (off + a) n m"
  by (simp add: mem_read_def take_drop min_def add.commute add.left_commute)

lemma mem_read_append_left [mem_simps]:
  "off + n \<le> length xs \<Longrightarrow> mem_read off n (xs @ ys) = mem_read off n xs"
  by (simp add: mem_read_def)

lemma mem_read_append_right [mem_simps]:
  "length xs \<le> off \<Longrightarrow> mem_read off n (xs @ ys) = mem_read (off - length xs) n ys"
  by (simp add: mem_read_def)

lemma nth_mem_write:
  "off + length bs \<le> length m \<Longrightarrow> i < length m \<Longrightarrow>
    mem_write off bs m ! i = (if off \<le> i \<and> i < off + length bs then bs ! (i - off) else m ! i)"
  by (auto simp: mem_write_def nth_append)

lemma mem_write_append:
  "off + length xs + length ys \<le> length m \<Longrightarrow>
    mem_write off (xs @ ys) m = mem_write off xs (mem_write (off + length xs) ys m)"
  by (rule nth_equalityI) (auto simp: length_mem_write nth_mem_write nth_append)

lemma mem_write_single: "i < length m \<Longrightarrow> mem_write i [x] m = m[i := x]"
  by (simp add: mem_write_def upd_conv_take_nth_drop)

lemma mem_write_double: "i + 1 < length m \<Longrightarrow> mem_write i [x, y] m = m[i + 1 := y, i := x]"
  using mem_write_append [of i "[x]" "[y]" m] by (simp add: mem_write_single)

subsection \<open>Little-endian integers\<close>

fun le_bytes :: "nat \<Rightarrow> int \<Rightarrow> bytes" where
  "le_bytes 0 v = []"
| "le_bytes (Suc n) v = word_of_int v # le_bytes n (v div 256)"

fun le_uint :: "bytes \<Rightarrow> int" where
  "le_uint [] = 0"
| "le_uint (b # bs) = uint b + 256 * le_uint bs"

text \<open>The two's complement reading of an \<open>n\<close>-byte integer.\<close>

definition le_sint :: "bytes \<Rightarrow> int" where
  "le_sint bs = signed_take_bit (8 * length bs - 1) (le_uint bs)"

definition be_bytes :: "nat \<Rightarrow> int \<Rightarrow> bytes" where
  "be_bytes n v = rev (le_bytes n v)"

definition be_uint :: "bytes \<Rightarrow> int" where
  "be_uint bs = le_uint (rev bs)"

lemma length_le_bytes [simp]: "length (le_bytes n v) = n"
  by (induction n arbitrary: v) auto

lemma length_be_bytes [simp]: "length (be_bytes n v) = n"
  by (simp add: be_bytes_def)

lemma uint_byte_of_int: "uint (word_of_int v :: byte) = v mod 256"
  by (simp add: uint_word_of_int)

lemma le_uint_nonneg [simp]: "0 \<le> le_uint bs"
  by (induction bs) auto

lemma le_uint_bound: "le_uint bs < 256 ^ length bs"
proof (induction bs)
  case (Cons b bs)
  have "uint b < 256" using uint_lt2p [of b] by simp
  then show ?case using Cons by simp
qed simp

lemma le_uint_le_bytes [codec_simps]: "le_uint (le_bytes n v) = v mod 256 ^ n"
proof (induction n arbitrary: v)
  case (Suc n)
  have "v mod (256 * 256 ^ n) = 256 * (v div 256 mod 256 ^ n) + v mod 256"
    by (rule zmod_zmult2_eq) simp
  then show ?case by (simp add: Suc uint_byte_of_int)
qed simp

lemma le_bytes_le_uint [codec_simps]: "length bs = n \<Longrightarrow> le_bytes n (le_uint bs) = bs"
proof (induction bs arbitrary: n)
  case (Cons b bs)
  have "uint b < 256" using uint_lt2p [of b] by simp
  moreover have "(word_of_int (uint b + 256 * le_uint bs) :: byte) = b"
  proof -
    have "(word_of_int (256 * le_uint bs) :: byte) = 0"
      by (simp only: word_of_int_eq_0_iff) simp
    then show ?thesis by (metis add.right_neutral wi_hom_add word_of_int_uint)
  qed
  ultimately show ?case using Cons by auto
qed simp

lemma le_sint_le_bytes [codec_simps]:
  assumes "0 < n" and "- (2 ^ (8 * n - 1)) \<le> v" and "v < 2 ^ (8 * n - 1)"
  shows "le_sint (le_bytes n v) = v"
proof -
  have "v mod 256 ^ n = take_bit (8 * n) v"
    by (simp add: take_bit_eq_mod power_mult)
  then have "le_sint (le_bytes n v) = signed_take_bit (8 * n - 1) (take_bit (8 * n) v)"
    by (simp add: le_sint_def le_uint_le_bytes)
  also have "\<dots> = signed_take_bit (8 * n - 1) v"
    using assms(1) by (intro bit_eqI) (auto simp: bit_simps min_def)
  also have "\<dots> = v"
    using assms(2,3) by (simp add: signed_take_bit_int_eq_self)
  finally show ?thesis .
qed

lemma le_sint_range:
  "- (2 ^ (8 * length bs - 1)) \<le> le_sint bs" "le_sint bs < 2 ^ (8 * length bs - 1)"
  by (simp_all add: le_sint_def signed_take_bit_int_greater_eq_minus_exp signed_take_bit_int_less_exp)

lemma be_uint_be_bytes [codec_simps]: "be_uint (be_bytes n v) = v mod 256 ^ n"
  by (simp add: be_uint_def be_bytes_def le_uint_le_bytes)

subsection \<open>Strictly sorted lists\<close>

lemma insort_between:
  "\<forall>x\<in>set as. x < v \<Longrightarrow> \<forall>x\<in>set bs. v < x \<Longrightarrow> insort v (as @ bs) = as @ v # bs"
proof (induction as)
  case Nil
  then show ?case by (cases bs) auto
qed auto

lemma remove1_nth:
  "distinct xs \<Longrightarrow> p < length xs \<Longrightarrow> remove1 (xs ! p) xs = take p xs @ drop (Suc p) xs"
proof (induction xs arbitrary: p)
  case (Cons x xs)
  then show ?case by (cases p) auto
qed simp

lemma sorted_wrt_less_distinct: "sorted_wrt (<) (xs :: 'a :: linorder list) \<Longrightarrow> distinct xs"
  by (simp add: strict_sorted_iff)

lemma sorted_wrt_less_insort:
  "sorted_wrt (<) (xs :: 'a :: linorder list) \<Longrightarrow> v \<notin> set xs \<Longrightarrow> sorted_wrt (<) (insort v xs)"
  by (simp add: strict_sorted_iff sorted_insort distinct_insort)

lemma sorted_wrt_less_remove1:
  "sorted_wrt (<) (xs :: 'a :: linorder list) \<Longrightarrow> sorted_wrt (<) (remove1 v xs)"
  by (simp add: strict_sorted_iff sorted_remove1)

subsection \<open>Finite checks and bytes\<close>

lemma all_less_numeral: "(\<forall>i < (numeral k :: nat). P i) \<longleftrightarrow> P (pred_numeral k) \<and> (\<forall>i < pred_numeral k. P i)"
  by (simp add: numeral_eq_Suc All_less_Suc)

lemma unat_byte: "unat (b :: byte) < 256"
  using unsigned_less [of b] by simp

lemma byte_cases:
  assumes "\<forall>i < 256. P (word_of_nat i)"
  shows "P (b :: byte)"
proof -
  have "P (word_of_nat (unat b))" using assms unat_byte by blast
  then show ?thesis by simp
qed

lemma byte_high: "8 \<le> n \<Longrightarrow> \<not> bit (b :: byte) n"
  using bit_imp_le_length [of b n] by auto

end
