(* ===== verification/Intset.thy ===== *)
theory Intset
  imports Redis_Prelude
begin

text \<open>
  \<^verbatim>\<open>intset.c\<close>: a sorted set of integers in one contiguous buffer whose elements all have
  the width given by the header's encoding (2, 4 or 8 bytes, little-endian). Adding a value
  that does not fit widens every element in place, from the last one to the first, in the
  reallocated buffer.

  The buffer is modelled byte by byte. \<open>intset_list\<close> reads it as a list of integers; the
  invariant says that the encoding is one of the three, that the buffer has exactly the size
  of the header, and that the list is strictly increasing. The main lemmas give the list
  after each operation.
\<close>

subsection \<open>The structure and its operations\<close>

record intset =
  is_encoding :: nat
  is_length :: nat
  is_contents :: bytes

abbreviation INTSET_ENC_INT16 :: nat where "INTSET_ENC_INT16 \<equiv> 2"
abbreviation INTSET_ENC_INT32 :: nat where "INTSET_ENC_INT32 \<equiv> 4"
abbreviation INTSET_ENC_INT64 :: nat where "INTSET_ENC_INT64 \<equiv> 8"

definition priv_intsetValueEncoding :: "int \<Rightarrow> nat" where
  "priv_intsetValueEncoding v =
     (if v < INT32_MIN \<or> v > INT32_MAX then INTSET_ENC_INT64
      else if v < INT16_MIN \<or> v > INT16_MAX then INTSET_ENC_INT32
      else INTSET_ENC_INT16)"

definition priv_intsetGetEncoded :: "intset \<Rightarrow> nat \<Rightarrow> nat \<Rightarrow> int" where
  "priv_intsetGetEncoded s pos enc =
     (if enc = INTSET_ENC_INT64 then le_sint (mem_read (pos * 8) 8 (is_contents s))
      else if enc = INTSET_ENC_INT32 then le_sint (mem_read (pos * 4) 4 (is_contents s))
      else le_sint (mem_read (pos * 2) 2 (is_contents s)))"

definition priv_intsetGet :: "intset \<Rightarrow> nat \<Rightarrow> int" where
  "priv_intsetGet s pos = priv_intsetGetEncoded s pos (is_encoding s)"

definition priv_intsetSet :: "intset \<Rightarrow> nat \<Rightarrow> int \<Rightarrow> intset" where
  "priv_intsetSet s pos value =
     (if is_encoding s = INTSET_ENC_INT64
      then s\<lparr>is_contents := mem_write (pos * 8) (le_bytes 8 value) (is_contents s)\<rparr>
      else if is_encoding s = INTSET_ENC_INT32
      then s\<lparr>is_contents := mem_write (pos * 4) (le_bytes 4 value) (is_contents s)\<rparr>
      else s\<lparr>is_contents := mem_write (pos * 2) (le_bytes 2 value) (is_contents s)\<rparr>)"

definition intsetNew :: intset where
  "intsetNew = \<lparr>is_encoding = INTSET_ENC_INT16, is_length = 0, is_contents = []\<rparr>"

text \<open>The size is computed in a \<open>uint32_t\<close>, where it may wrap around.\<close>

definition intsetResize :: "(nat \<Rightarrow> byte) \<Rightarrow> intset \<Rightarrow> nat \<Rightarrow> intset" where
  "intsetResize junk s len =
     (let size = uint32 (len * is_encoding s)
      in s\<lparr>is_contents := zrealloc junk (is_contents s) size\<rparr>)"

text \<open>
  The \<^verbatim>\<open>while(max >= min)\<close> loop: the result is \<open>(min, mid, cur)\<close> when the loop is left.
  Both bounds are below \<open>2 ^ 31\<close> and not negative where the midpoint is computed, so
  the unsigned sum of the source does not wrap.
\<close>

function intsetSearch_loop :: "intset \<Rightarrow> int \<Rightarrow> int \<Rightarrow> int \<Rightarrow> int \<Rightarrow> int \<Rightarrow> int \<times> int \<times> int" where
  "intsetSearch_loop s value lo hi mid cur =
     (if hi \<ge> lo then
        let mid = (lo + hi) div 2;
            cur = priv_intsetGet s (nat mid)
        in if value > cur then intsetSearch_loop s value (mid + 1) hi mid cur
           else if value < cur then intsetSearch_loop s value lo (mid - 1) mid cur
           else (lo, mid, cur)
      else (lo, mid, cur))"
  by pat_completeness auto
termination
  by (relation "measure (\<lambda>(s, value, lo, hi, mid, cur). nat (hi - lo + 1))") auto

declare intsetSearch_loop.simps [simp del]

definition intsetSearch :: "intset \<Rightarrow> int \<Rightarrow> bool \<times> nat" where
  "intsetSearch s value =
     (if is_length s = 0 then (False, 0)
      else if value > priv_intsetGet s (is_length s - 1) then (False, is_length s)
      else if value < priv_intsetGet s 0 then (False, 0)
      else
        let (lo, mid, cur) = intsetSearch_loop s value 0 (int (is_length s) - 1) (- 1) (- 1)
        in if value = cur then (True, nat mid) else (False, nat lo))"

text \<open>\<^verbatim>\<open>while(length--) _intsetSet(is,length+prepend,_intsetGetEncoded(is,length,curenc))\<close>\<close>

fun intsetUpgrade_loop :: "nat \<Rightarrow> nat \<Rightarrow> nat \<Rightarrow> intset \<Rightarrow> intset" where
  "intsetUpgrade_loop 0 prepend curenc s = s"
| "intsetUpgrade_loop (Suc len) prepend curenc s =
     intsetUpgrade_loop len prepend curenc
       (priv_intsetSet s (len + prepend) (priv_intsetGetEncoded s len curenc))"

definition intsetUpgradeAndAdd :: "(nat \<Rightarrow> byte) \<Rightarrow> intset \<Rightarrow> int \<Rightarrow> intset" where
  "intsetUpgradeAndAdd junk s value =
     (let curenc = is_encoding s;
          newenc = priv_intsetValueEncoding value;
          len = is_length s;
          prepend = (if value < 0 then 1 else 0);
          s = s\<lparr>is_encoding := newenc\<rparr>;
          s = intsetResize junk s (is_length s + 1);
          s = intsetUpgrade_loop len prepend curenc s;
          s = (if prepend \<noteq> 0 then priv_intsetSet s 0 value
               else priv_intsetSet s (is_length s) value)
      in s\<lparr>is_length := is_length s + 1\<rparr>)"

definition intsetMoveTail :: "intset \<Rightarrow> nat \<Rightarrow> nat \<Rightarrow> intset" where
  "intsetMoveTail s frm to =
     (let count = is_length s - frm in
      if is_encoding s = INTSET_ENC_INT64
      then s\<lparr>is_contents := memmove (to * 8) (frm * 8) (uint32 (count * 8)) (is_contents s)\<rparr>
      else if is_encoding s = INTSET_ENC_INT32
      then s\<lparr>is_contents := memmove (to * 4) (frm * 4) (uint32 (count * 4)) (is_contents s)\<rparr>
      else s\<lparr>is_contents := memmove (to * 2) (frm * 2) (uint32 (count * 2)) (is_contents s)\<rparr>)"

text \<open>The second component of the result is \<^verbatim>\<open>*success\<close>.\<close>

definition intsetAdd :: "(nat \<Rightarrow> byte) \<Rightarrow> intset \<Rightarrow> int \<Rightarrow> intset \<times> bool" where
  "intsetAdd junk s value =
     (if priv_intsetValueEncoding value > is_encoding s
      then (intsetUpgradeAndAdd junk s value, True)
      else
        let (found, pos) = intsetSearch s value in
        if found then (s, False)
        else
          let s = intsetResize junk s (is_length s + 1);
              s = (if pos < is_length s then intsetMoveTail s pos (pos + 1) else s);
              s = priv_intsetSet s pos value
          in (s\<lparr>is_length := is_length s + 1\<rparr>, True))"

definition intsetRemove :: "(nat \<Rightarrow> byte) \<Rightarrow> intset \<Rightarrow> int \<Rightarrow> intset \<times> bool" where
  "intsetRemove junk s value =
     (let (found, pos) = intsetSearch s value in
      if priv_intsetValueEncoding value \<le> is_encoding s \<and> found then
        let len = is_length s;
            s = (if pos < len - 1 then intsetMoveTail s (pos + 1) pos else s);
            s = intsetResize junk s (len - 1)
        in (s\<lparr>is_length := len - 1\<rparr>, True)
      else (s, False))"


text \<open>\<open>r\<close> is what \<^verbatim>\<open>rand()\<close> returned; the assertion of the source fails on an empty set.\<close>

definition intsetRandom :: "nat \<Rightarrow> intset \<Rightarrow> int option" where
  "intsetRandom r s =
     (if is_length s = 0 then None else Some (priv_intsetGet s (r mod is_length s)))"

definition intsetGet :: "intset \<Rightarrow> nat \<Rightarrow> int option" where
  "intsetGet s pos = (if pos < is_length s then Some (priv_intsetGet s pos) else None)"

definition intsetLen :: "intset \<Rightarrow> nat" where
  "intsetLen s = is_length s"

definition intsetBlobLen :: "intset \<Rightarrow> nat" where
  "intsetBlobLen s = 8 + is_length s * is_encoding s"




subsection \<open>Reading the buffer as a list\<close>

definition intset_list :: "intset \<Rightarrow> int list" where
  "intset_list s = map (priv_intsetGet s) [0..<is_length s]"

definition intset_wf :: "intset \<Rightarrow> bool" where
  "intset_wf s \<longleftrightarrow>
     is_encoding s \<in> {INTSET_ENC_INT16, INTSET_ENC_INT32, INTSET_ENC_INT64} \<and>
     length (is_contents s) = is_length s * is_encoding s \<and>
     sorted_wrt (<) (intset_list s)"

text \<open>
  The invariant adds that the size of the contents is a \<open>uint32_t\<close>, as the size
  computations of \<open>intsetResize\<close> and \<open>intsetMoveTail\<close> require.
\<close>

definition intset_inv :: "intset \<Rightarrow> bool" where
  "intset_inv s \<longleftrightarrow> intset_wf s \<and> is_length s * is_encoding s < 4294967296"

text \<open>After adding \<open>v\<close>, at the wider of the two encodings, the size is still a \<open>uint32_t\<close>.\<close>

definition intset_room :: "intset \<Rightarrow> int \<Rightarrow> bool" where
  "intset_room s v \<longleftrightarrow>
     (is_length s + 1) * max (is_encoding s) (priv_intsetValueEncoding v) < 4294967296"

definition slot :: "nat \<Rightarrow> nat \<Rightarrow> bytes \<Rightarrow> int" where
  "slot w i m = le_sint (mem_read (i * w) w m)"

definition fits :: "nat \<Rightarrow> int \<Rightarrow> bool" where
  "fits w v \<longleftrightarrow> - (2 ^ (8 * w - 1)) \<le> v \<and> v < 2 ^ (8 * w - 1)"

lemma slot_in_range: "(i + 1) * w \<le> length m \<Longrightarrow> fits w (slot w i m)"
  using le_sint_range [of "mem_read (i * w) w m"]
  by (simp add: slot_def fits_def length_mem_read min_def split: if_splits)

lemma slot_write_same:
  "0 < w \<Longrightarrow> fits w v \<Longrightarrow> (i + 1) * w \<le> length m \<Longrightarrow>
    slot w i (mem_write (i * w) (le_bytes w v) m) = v"
  by (simp add: slot_def fits_def mem_simps le_sint_le_bytes)

lemma slot_write_disjoint:
  assumes "off + length bs \<le> length m" and "(i + 1) * w \<le> off \<or> off + length bs \<le> i * w"
  shows "slot w i (mem_write off bs m) = slot w i m"
  using assms by (auto simp: slot_def mem_read_write_before mem_read_write_after)

lemma slot_write_other:
  assumes "(i + 1) * w \<le> length m" and "i \<noteq> j"
  shows "slot w j (mem_write (i * w) (le_bytes w v) m) = slot w j m"
proof -
  have "(j + 1) * w \<le> i * w \<or> i * w + w \<le> j * w"
  proof (cases "j < i")
    case True
    then have "(j + 1) * w \<le> i * w" by (intro mult_le_mono1) simp
    then show ?thesis ..
  next
    case False
    with assms(2) have "(i + 1) * w \<le> j * w" by (intro mult_le_mono1) simp
    then show ?thesis by simp
  qed
  then show ?thesis
    using assms(1) by (intro slot_write_disjoint) auto
qed

lemma slot_zrealloc:
  "(i + 1) * w \<le> length m \<Longrightarrow> (i + 1) * w \<le> k \<Longrightarrow> slot w i (zrealloc junk m k) = slot w i m"
  by (simp add: slot_def mem_read_zrealloc add.commute)

lemma slot_memmove:
  assumes "(frm + n) * w \<le> length m" and "(to + n) * w \<le> length m" and "to \<le> i" and "i < to + n"
  shows "slot w i (memmove (to * w) (frm * w) (n * w) m) = slot w (i - to + frm) m"
proof -
  let ?src = "mem_read (frm * w) (n * w) m"
  have len: "length ?src = n * w"
    using assms(1) by (simp add: length_mem_read algebra_simps)
  have i1: "(i - to + 1) * w \<le> n * w"
    using assms(3,4) by (intro mult_le_mono1) simp
  have "mem_read (i * w) w (mem_write (to * w) ?src m) = mem_read (i * w - to * w) w ?src"
    using assms len i1 by (simp add: mem_write_def mem_read_def algebra_simps diff_mult_distrib)
  also have "\<dots> = mem_read (frm * w + (i - to) * w) w m"
    using i1 by (simp add: mem_read_mem_read diff_mult_distrib algebra_simps)
  finally show ?thesis by (simp add: slot_def memmove_def algebra_simps)
qed

lemma slot_memmove_before:
  assumes "(frm + n) * w \<le> length m" and "(to + n) * w \<le> length m" and "i < to"
  shows "slot w i (memmove (to * w) (frm * w) (n * w) m) = slot w i m"
proof -
  have len: "length (mem_read (frm * w) (n * w) m) = n * w"
    using assms(1) by (simp add: length_mem_read algebra_simps)
  have "(i + 1) * w \<le> to * w"
    using assms(3) by (intro mult_le_mono1) simp
  then show ?thesis
    unfolding memmove_def using assms(2) len
    by (intro slot_write_disjoint) (auto simp: algebra_simps)
qed

subsection \<open>The operations on slots\<close>

lemma priv_intsetGetEncoded_slot:
  "enc \<in> {2, 4, 8} \<Longrightarrow> priv_intsetGetEncoded s pos enc = slot enc pos (is_contents s)"
  by (auto simp: priv_intsetGetEncoded_def slot_def)

lemma priv_intsetGet_slot:
  "is_encoding s \<in> {2, 4, 8} \<Longrightarrow> priv_intsetGet s pos = slot (is_encoding s) pos (is_contents s)"
  by (simp add: priv_intsetGet_def priv_intsetGetEncoded_slot)

lemma priv_intsetSet_slot:
  "is_encoding s \<in> {2, 4, 8} \<Longrightarrow> priv_intsetSet s pos v =
    s\<lparr>is_contents := mem_write (pos * is_encoding s) (le_bytes (is_encoding s) v) (is_contents s)\<rparr>"
  by (auto simp: priv_intsetSet_def)

lemma intsetMoveTail_slot:
  assumes "is_encoding s \<in> {2, 4, 8}" and "(is_length s - frm) * is_encoding s < 4294967296"
  shows "intsetMoveTail s frm to = s\<lparr>is_contents := memmove (to * is_encoding s) (frm * is_encoding s)
    ((is_length s - frm) * is_encoding s) (is_contents s)\<rparr>"
  using assms by (auto simp: intsetMoveTail_def)

lemma intsetResize_slot:
  "len * is_encoding s < 4294967296 \<Longrightarrow>
    intsetResize junk s len = s\<lparr>is_contents := zrealloc junk (is_contents s) (len * is_encoding s)\<rparr>"
  by (simp add: intsetResize_def Let_def)

lemmas intset_slot_simps =
  priv_intsetGetEncoded_slot priv_intsetGet_slot priv_intsetSet_slot intsetMoveTail_slot
  intsetResize_slot

lemma intset_list_slots:
  "is_encoding s \<in> {2, 4, 8} \<Longrightarrow>
    intset_list s = map (\<lambda>i. slot (is_encoding s) i (is_contents s)) [0..<is_length s]"
  by (simp add: intset_list_def priv_intsetGet_slot)

lemma length_intset_list [simp]: "length (intset_list s) = is_length s"
  by (simp add: intset_list_def)

lemma intset_list_nth: "i < is_length s \<Longrightarrow> intset_list s ! i = priv_intsetGet s i"
  by (simp add: intset_list_def)

lemma intset_wf_encoding: "intset_wf s \<Longrightarrow> is_encoding s \<in> {2, 4, 8}"
  by (auto simp: intset_wf_def)

lemma intset_wf_mono:
  assumes "intset_wf s" and "i < j" and "j < is_length s"
  shows "priv_intsetGet s i < priv_intsetGet s j"
  using assms sorted_wrt_nth_less [of "(<)" "intset_list s" i j]
  by (simp add: intset_wf_def intset_list_nth)

lemma intset_wf_mono_le:
  "intset_wf s \<Longrightarrow> i \<le> j \<Longrightarrow> j < is_length s \<Longrightarrow> priv_intsetGet s i \<le> priv_intsetGet s j"
  using intset_wf_mono [of s i j] by (cases "i = j") auto

lemma fits_valueEncoding:
  assumes "in_int64 v" and "e \<in> {2, 4, 8}"
  shows "fits e v \<longleftrightarrow> priv_intsetValueEncoding v \<le> e"
  using assms by (auto simp: fits_def in_int64_def priv_intsetValueEncoding_def)

lemma valueEncoding_cases: "priv_intsetValueEncoding v \<in> {2, 4, 8}"
  by (simp add: priv_intsetValueEncoding_def)

lemma intset_wf_fits:
  assumes "intset_wf s" and "i < is_length s"
  shows "fits (is_encoding s) (priv_intsetGet s i)"
proof -
  have "(i + 1) * is_encoding s \<le> is_length s * is_encoding s"
    using assms(2) by (intro mult_le_mono1) simp
  then show ?thesis
    using assms intset_wf_encoding [OF assms(1)]
    by (simp add: priv_intsetGet_slot slot_in_range intset_wf_def)
qed

lemma intset_list_fits: "intset_wf s \<Longrightarrow> x \<in> set (intset_list s) \<Longrightarrow> fits (is_encoding s) x"
  by (auto simp: in_set_conv_nth intset_list_nth intset_wf_fits)

subsection \<open>Binary search\<close>

text \<open>\<open>search_spec s v found pos\<close>: what the search promises about its two results.\<close>

definition search_spec :: "intset \<Rightarrow> int \<Rightarrow> bool \<Rightarrow> nat \<Rightarrow> bool" where
  "search_spec s v found pos \<longleftrightarrow>
     (if found then pos < is_length s \<and> priv_intsetGet s pos = v
      else pos \<le> is_length s \<and> (\<forall>j<pos. priv_intsetGet s j < v) \<and>
           (\<forall>j. pos \<le> j \<longrightarrow> j < is_length s \<longrightarrow> v < priv_intsetGet s j))"

lemma intsetSearch_loop_correct:
  assumes "intset_wf s" and "0 \<le> lo" and "hi < int (is_length s)" and "lo \<le> hi + 1"
    and "\<forall>j<nat lo. priv_intsetGet s j < v"
    and "\<forall>j. nat (hi + 1) \<le> j \<longrightarrow> j < is_length s \<longrightarrow> v < priv_intsetGet s j"
    and "hi < lo \<longrightarrow> cur \<noteq> v"
    and "intsetSearch_loop s v lo hi mid cur = (lo', mid', cur')"
  shows "search_spec s v (v = cur') (nat (if v = cur' then mid' else lo'))"
  using assms
proof (induction s v lo hi mid cur rule: intsetSearch_loop.induct)
  case (1 s v lo hi mid cur)
  define m where "m = (lo + hi) div 2"
  define c where "c = priv_intsetGet s (nat m)"
  show ?case
  proof (cases "hi \<ge> lo")
    case False
    with "1.prems" show ?thesis
      by (auto simp: intsetSearch_loop.simps [of s v lo hi] search_spec_def)
  next
    case True
    then have m: "lo \<le> m" "m \<le> hi" by (auto simp: m_def)
    have below: "priv_intsetGet s j \<le> c" if "j \<le> nat m" for j
      unfolding c_def using that m "1.prems"(2,3) by (intro intset_wf_mono_le [OF "1.prems"(1)]) auto
    have above: "c \<le> priv_intsetGet s j" if "nat m \<le> j" "j < is_length s" for j
      unfolding c_def using that m "1.prems"(2,3) by (intro intset_wf_mono_le [OF "1.prems"(1)]) auto
    consider (gt) "v > c" | (lt) "v < c" | (eq) "v = c" by linarith
    then show ?thesis
    proof cases
      case gt
      have "j \<le> nat m" if "j < nat (m + 1)" for j using that by linarith
      then have "\<forall>j<nat (m + 1). priv_intsetGet s j < v" using gt below order.strict_trans1 by blast
      with gt show ?thesis
        using "1.prems" True m
        by (intro "1.IH"(1) [OF True m_def c_def gt])
          (auto simp: intsetSearch_loop.simps [of s v lo hi] m_def [symmetric] c_def [symmetric] Let_def)
    next
      case lt
      have "\<forall>j. nat (m - 1 + 1) \<le> j \<longrightarrow> j < is_length s \<longrightarrow> v < priv_intsetGet s j"
        using lt above by force
      with lt show ?thesis
        using "1.prems" True m
        by (intro "1.IH"(2) [OF True m_def c_def])
          (auto simp: intsetSearch_loop.simps [of s v lo hi] m_def [symmetric] c_def [symmetric] Let_def)
    next
      case eq
      then have "mid' = m \<and> cur' = c"
        using "1.prems"(8) [unfolded intsetSearch_loop.simps [of s v lo hi mid cur]] True
        by (simp add: m_def [symmetric] c_def [symmetric] Let_def)
      then show ?thesis using eq m "1.prems"(2,3) by (auto simp: search_spec_def c_def)
    qed
  qed
qed

lemma intsetSearch_correct:
  assumes "intset_wf s" and "intsetSearch s v = (found, pos)"
  shows "search_spec s v found pos"
proof (cases "is_length s = 0 \<or> v > priv_intsetGet s (is_length s - 1) \<or> v < priv_intsetGet s 0")
  case True
  have le: "priv_intsetGet s j \<le> priv_intsetGet s (is_length s - 1)" if "j < is_length s" for j
    using that by (intro intset_wf_mono_le [OF assms(1)]) auto
  have ge: "priv_intsetGet s 0 \<le> priv_intsetGet s j" if "j < is_length s" for j
    using that by (intro intset_wf_mono_le [OF assms(1)]) auto
  show ?thesis
    using True assms(2) le ge by (force simp: intsetSearch_def search_spec_def split: if_splits)
next
  case False
  obtain lo' mid' cur' where
    loop: "intsetSearch_loop s v 0 (int (is_length s) - 1) (- 1) (- 1) = (lo', mid', cur')"
    by (metis prod_cases3)
  have "search_spec s v (v = cur') (nat (if v = cur' then mid' else lo'))"
    using assms(1) False by (intro intsetSearch_loop_correct [OF _ _ _ _ _ _ _ loop]) auto
  then show ?thesis
    using False assms(2) loop by (auto simp: intsetSearch_def split: if_splits)
qed

subsection \<open>Insertion and removal\<close>

text \<open>
  Writing in the new encoding from the last element to the first never touches an element
  that is still to be read in the old one: after the loop, slot \<open>i + prepend\<close> of the new
  encoding holds what slot \<open>i\<close> of the old one held.
\<close>

lemma intsetUpgrade_loop_frame [simp]:
  "is_encoding (intsetUpgrade_loop n p ce s) = is_encoding s"
  "is_length (intsetUpgrade_loop n p ce s) = is_length s"
  by (induction n arbitrary: s) (auto simp: priv_intsetSet_def)

lemma intsetUpgrade_loop_correct:
  assumes "is_encoding s \<in> {2, 4, 8}" and "ce \<in> {2, 4, 8}" and "ce \<le> is_encoding s"
    and "(n + p) * is_encoding s \<le> length (is_contents s)"
    and "\<And>i. i < n \<Longrightarrow> fits (is_encoding s) (slot ce i (is_contents s))"
  defines "r \<equiv> intsetUpgrade_loop n p ce s"
  shows "length (is_contents r) = length (is_contents s) \<and>
    (\<forall>i<n. slot (is_encoding s) (i + p) (is_contents r) = slot ce i (is_contents s)) \<and>
    (\<forall>i. i < p \<or> n + p \<le> i \<longrightarrow>
      slot (is_encoding s) i (is_contents r) = slot (is_encoding s) i (is_contents s))"
  using assms(1-5) unfolding r_def
proof (induction n arbitrary: s)
  case (Suc n)
  let ?w = "is_encoding s" and ?m = "is_contents s"
  let ?v = "slot ce n ?m"
  define m' where "m' = mem_write ((n + p) * ?w) (le_bytes ?w ?v) ?m"
  have set_eq: "priv_intsetSet s (n + p) (priv_intsetGetEncoded s n ce) = s\<lparr>is_contents := m'\<rparr>"
    using Suc.prems(1,2) by (simp add: intset_slot_simps m'_def)
  have room: "(n + p + 1) * ?w \<le> length ?m" using Suc.prems(4) by simp
  then have len: "length m' = length ?m"
    unfolding m'_def by (subst length_mem_write) (auto simp: algebra_simps)
  have keep: "slot ce i m' = slot ce i ?m" if "i < n" for i
  proof -
    have "(i + 1) * ce \<le> (n + p) * ?w"
      using that Suc.prems(3) by (intro mult_le_mono) auto
    then show ?thesis
      unfolding m'_def using room by (intro slot_write_disjoint) (auto simp: algebra_simps)
  qed
  have new: "slot ?w (n + p) m' = ?v"
    unfolding m'_def using Suc.prems(1,5) room by (intro slot_write_same) auto
  have other: "slot ?w i m' = slot ?w i ?m" if "i \<noteq> n + p" for i
    unfolding m'_def using that room by (intro slot_write_other) auto
  have "(n + p) * ?w \<le> length m'" using room len by simp
  then have ih: "length (is_contents (intsetUpgrade_loop n p ce (s\<lparr>is_contents := m'\<rparr>))) = length m' \<and>
    (\<forall>i<n. slot ?w (i + p) (is_contents (intsetUpgrade_loop n p ce (s\<lparr>is_contents := m'\<rparr>))) = slot ce i m') \<and>
    (\<forall>i. i < p \<or> n + p \<le> i \<longrightarrow>
      slot ?w i (is_contents (intsetUpgrade_loop n p ce (s\<lparr>is_contents := m'\<rparr>))) = slot ?w i m')"
    using Suc.IH [of "s\<lparr>is_contents := m'\<rparr>"] Suc.prems keep by simp
  show ?case
    using ih len keep new other by (auto simp: set_eq less_Suc_eq)
qed simp

lemma intset_list_eqI:
  assumes "is_encoding r \<in> {2, 4, 8}" and "is_length r = length ys"
    and "\<And>i. i < length ys \<Longrightarrow> slot (is_encoding r) i (is_contents r) = ys ! i"
  shows "intset_list r = ys"
  using assms by (intro nth_equalityI) (auto simp: intset_list_nth priv_intsetGet_slot)

lemma intsetUpgradeAndAdd_correct:
  fixes junk :: "nat \<Rightarrow> byte"
  assumes "intset_wf s" and "intset_room s v" and "in_int64 v"
    and up: "is_encoding s < priv_intsetValueEncoding v"
  defines "r \<equiv> intsetUpgradeAndAdd junk s v"
  shows "is_encoding r = priv_intsetValueEncoding v \<and> is_length r = is_length s + 1 \<and>
    length (is_contents r) = is_length r * is_encoding r \<and>
    intset_list r = (if v < 0 then v # intset_list s else intset_list s @ [v])"
proof -
  let ?e = "is_encoding s" and ?w = "priv_intsetValueEncoding v" and ?n = "is_length s"
  let ?p = "if v < 0 then 1 else 0 :: nat"
  have e: "?e \<in> {2, 4, 8}" and w: "?w \<in> {2, 4, 8}"
    using intset_wf_encoding [OF assms(1)] valueEncoding_cases by auto
  have room: "(?n + 1) * ?w < 4294967296"
    using assms(2) up by (simp add: intset_room_def max_def)
  define s1 where "s1 = s\<lparr>is_encoding := ?w, is_contents := zrealloc junk (is_contents s) ((?n + 1) * ?w)\<rparr>"
  have s1: "intsetResize junk (s\<lparr>is_encoding := ?w\<rparr>) (?n + 1) = s1"
    using room by (simp add: intsetResize_slot s1_def)
  have len1: "length (is_contents s1) = (?n + 1) * ?w"
    by (simp add: s1_def length_zrealloc)
  have old: "slot ?e i (is_contents s1) = intset_list s ! i" if "i < ?n" for i
  proof -
    have "(i + 1) * ?e \<le> ?n * ?e" using that by (intro mult_le_mono1) simp
    moreover have "(i + 1) * ?e \<le> (?n + 1) * ?w" using that up by (intro mult_le_mono) auto
    ultimately show ?thesis
      using that e assms(1) unfolding s1_def intset_wf_def
      by (simp add: slot_zrealloc intset_list_nth priv_intsetGet_slot)
  qed
  have fits: "fits ?w (slot ?e i (is_contents s1))" if "i < ?n" for i
    using that old intset_wf_fits [OF assms(1) that] up e w
    by (auto simp: fits_def intset_list_nth)
  define s2 where "s2 = intsetUpgrade_loop ?n ?p ?e s1"
  have s2: "length (is_contents s2) = (?n + 1) * ?w"
    "\<And>i. i < ?n \<Longrightarrow> slot ?w (i + ?p) (is_contents s2) = intset_list s ! i"
    "is_encoding s2 = ?w" "is_length s2 = ?n"
    using intsetUpgrade_loop_correct [of s1 ?e ?n ?p] e w up fits old len1
    by (auto simp: s2_def s1_def)
  define k where "k = (if v < 0 then 0 else ?n)"
  define m where "m = mem_write (k * ?w) (le_bytes ?w v) (is_contents s2)"
  have k: "(k + 1) * ?w \<le> length (is_contents s2)" by (auto simp: s2(1) k_def)
  have r: "r = s2\<lparr>is_contents := m, is_length := ?n + 1\<rparr>"
  proof -
    have "r = (let t = priv_intsetSet s2 k v in t\<lparr>is_length := is_length t + 1\<rparr>)"
      using s1 s2(4) by (cases "v < 0") (simp_all add: r_def intsetUpgradeAndAdd_def Let_def k_def s2_def)
    moreover have "priv_intsetSet s2 k v = s2\<lparr>is_contents := m\<rparr>"
      using w s2(3) by (simp add: priv_intsetSet_slot m_def)
    ultimately show ?thesis using s2(4) by simp
  qed
  have lm: "length m = (?n + 1) * ?w"
    using k unfolding m_def by (subst length_mem_write) (auto simp: s2(1) algebra_simps)
  have at_k: "slot ?w k m = v"
    unfolding m_def using k w fits_valueEncoding [OF assms(3) w] by (intro slot_write_same) auto
  have off_k: "slot ?w i m = slot ?w i (is_contents s2)" if "i \<noteq> k" for i
    unfolding m_def using that k by (intro slot_write_other) auto
  have "intset_list r = (if v < 0 then v # intset_list s else intset_list s @ [v])"
  proof (rule intset_list_eqI)
    fix i assume i: "i < length (if v < 0 then v # intset_list s else intset_list s @ [v])"
    show "slot (is_encoding r) i (is_contents r) = (if v < 0 then v # intset_list s else intset_list s @ [v]) ! i"
      using i at_k off_k [of i] s2(2) [of "i - ?p"]
      by (auto simp: r s2(3) k_def nth_Cons nth_append split: nat.splits if_splits)
  qed (use w in \<open>auto simp: r s2(3)\<close>)
  then show ?thesis by (simp add: r lm s2(3))
qed

lemma outside_range:
  assumes "\<not> fits e v" and "fits e x"
  shows "if v < 0 then v < x else x < v"
  using assms by (auto simp: fits_def)

lemma upgrade_is_insort:
  assumes "intset_wf s" and "in_int64 v" and "is_encoding s < priv_intsetValueEncoding v"
  shows "v \<notin> set (intset_list s) \<and>
    (if v < 0 then v # intset_list s else intset_list s @ [v]) = insort v (intset_list s)"
proof -
  have "\<not> fits (is_encoding s) v"
    using assms intset_wf_encoding [OF assms(1)] by (simp add: fits_valueEncoding)
  then have out: "if v < 0 then v < x else x < v" if "x \<in> set (intset_list s)" for x
    using outside_range intset_list_fits [OF assms(1) that] by blast
  show ?thesis
  proof (cases "v < 0")
    case True
    then show ?thesis using out insort_between [of "[]" v "intset_list s"] by force
  next
    case False
    then show ?thesis using out insort_between [of "intset_list s" v "[]"] by force
  qed
qed

lemma not_found_split:
  assumes "search_spec s v False pos"
  shows "v \<notin> set (intset_list s)"
    and "insort v (intset_list s) = take pos (intset_list s) @ v # drop pos (intset_list s)"
proof -
  let ?xs = "intset_list s"
  have pos: "pos \<le> length ?xs" using assms by (simp add: search_spec_def)
  have lo: "x < v" if "x \<in> set (take pos ?xs)" for x
    using that pos assms by (auto simp: in_set_conv_nth search_spec_def intset_list_nth)
  have hi: "v < x" if "x \<in> set (drop pos ?xs)" for x
    using that pos assms by (auto simp: in_set_conv_nth search_spec_def intset_list_nth)
  have "set ?xs = set (take pos ?xs) \<union> set (drop pos ?xs)"
    by (metis append_take_drop_id set_append)
  then show "v \<notin> set ?xs" using lo hi by blast
  show "insort v ?xs = take pos ?xs @ v # drop pos ?xs"
    using insort_between [of "take pos ?xs" v "drop pos ?xs"] lo hi by simp
qed

text \<open>Moving the tail one slot up leaves a gap at \<open>pos\<close>; every other element keeps its value.\<close>

lemma intset_open_gap:
  fixes junk :: "nat \<Rightarrow> byte"
  assumes "intset_wf s" and room: "(is_length s + 1) * is_encoding s < 4294967296"
    and pos: "pos \<le> is_length s"
  defines "s1 \<equiv> intsetResize junk s (is_length s + 1)"
  defines "s2 \<equiv> (if pos < is_length s1 then intsetMoveTail s1 pos (pos + 1) else s1)"
  shows "is_encoding s2 = is_encoding s \<and> is_length s2 = is_length s \<and>
    length (is_contents s2) = (is_length s + 1) * is_encoding s \<and>
    (\<forall>i<pos. slot (is_encoding s) i (is_contents s2) = intset_list s ! i) \<and>
    (\<forall>i. pos < i \<longrightarrow> i \<le> is_length s \<longrightarrow>
      slot (is_encoding s) i (is_contents s2) = intset_list s ! (i - 1))"
proof -
  let ?w = "is_encoding s" and ?n = "is_length s" and ?xs = "intset_list s"
  have w: "?w \<in> {2, 4, 8}" and len0: "length (is_contents s) = ?n * ?w"
    using assms(1) intset_wf_encoding by (auto simp: intset_wf_def)
  have s1: "s1 = s\<lparr>is_contents := zrealloc junk (is_contents s) ((?n + 1) * ?w)\<rparr>"
    unfolding s1_def using room by (rule intsetResize_slot)
  have old: "slot ?w i (is_contents s1) = ?xs ! i" if "i < ?n" for i
  proof -
    have "(i + 1) * ?w \<le> ?n * ?w" using that by (intro mult_le_mono1) simp
    then show ?thesis using that w len0
      by (simp add: s1 slot_zrealloc intset_list_nth priv_intsetGet_slot)
  qed
  have l1: "length (is_contents s1) = (?n + 1) * ?w" by (simp add: s1 length_zrealloc)
  have fit: "(pos + (?n - pos)) * ?w \<le> length (is_contents s1)"
    "(pos + 1 + (?n - pos)) * ?w \<le> length (is_contents s1)"
    unfolding l1 using pos by (auto intro!: mult_le_mono1 simp del: mult_Suc)
  show ?thesis
  proof (cases "pos < ?n")
    case False
    then show ?thesis using pos old l1 by (auto simp: s2_def s1)
  next
    case True
    let ?m = "memmove ((pos + 1) * ?w) (pos * ?w) ((?n - pos) * ?w) (is_contents s1)"
    have "(?n - pos) * ?w \<le> (?n + 1) * ?w" by (intro mult_le_mono1) simp
    then have "(?n - pos) * ?w < 4294967296" using room by linarith
    then have s2': "s2 = s1\<lparr>is_contents := ?m\<rparr>"
      using True w by (simp add: s2_def s1 intsetMoveTail_slot)
    have "length ?m = length (is_contents s1)"
      unfolding memmove_def using fit
      by (intro length_mem_write) (simp add: length_mem_read algebra_simps)
    moreover have "slot ?w i ?m = ?xs ! i" if "i < pos" for i
      using slot_memmove_before [OF fit, of i] that True old by simp
    moreover have "slot ?w i ?m = ?xs ! (i - 1)" if "pos < i" "i \<le> ?n" for i
      using slot_memmove [OF fit, of i] that old [of "i - 1"] by simp
    ultimately show ?thesis using l1 by (simp add: s2' s1)
  qed
qed

lemma intset_fill_gap:
  assumes w: "is_encoding t \<in> {2, 4, 8}" and fits: "fits (is_encoding t) v"
    and pos: "pos \<le> length xs" and lt: "length (is_contents t) = (length xs + 1) * is_encoding t"
    and before: "\<And>i. i < pos \<Longrightarrow> slot (is_encoding t) i (is_contents t) = xs ! i"
    and after: "\<And>i. pos < i \<Longrightarrow> i \<le> length xs \<Longrightarrow> slot (is_encoding t) i (is_contents t) = xs ! (i - 1)"
  defines "r \<equiv> (priv_intsetSet t pos v)\<lparr>is_length := length xs + 1\<rparr>"
  shows "is_encoding r = is_encoding t \<and> length (is_contents r) = is_length r * is_encoding r \<and>
    intset_list r = take pos xs @ v # drop pos xs"
proof -
  let ?w = "is_encoding t"
  let ?m = "mem_write (pos * ?w) (le_bytes ?w v) (is_contents t)"
  have posfit: "(pos + 1) * ?w \<le> length (is_contents t)"
    unfolding lt using pos by (intro mult_le_mono1) simp
  have r: "r = t\<lparr>is_contents := ?m, is_length := length xs + 1\<rparr>"
    using w by (simp add: r_def priv_intsetSet_slot)
  have "length ?m = (length xs + 1) * ?w"
    using posfit lt by (subst length_mem_write) (auto simp: algebra_simps)
  moreover have "intset_list r = take pos xs @ v # drop pos xs"
  proof (rule intset_list_eqI)
    fix i assume i: "i < length (take pos xs @ v # drop pos xs)"
    have "slot ?w i ?m = (if i = pos then v else slot ?w i (is_contents t))"
      using slot_write_same [of ?w v pos] slot_write_other [OF posfit, of i] posfit fits w by auto
    then show "slot (is_encoding r) i (is_contents r) = (take pos xs @ v # drop pos xs) ! i"
      using i pos before after by (auto simp: r nth_append nth_Cons' min_def)
  qed (use w pos in \<open>auto simp: r\<close>)
  ultimately show ?thesis by (simp add: r)
qed

lemma intset_room_length: "intset_room s v \<Longrightarrow> (is_length s + 1) * is_encoding s < 4294967296"
  using mult_le_mono2 [of "is_encoding s" "max (is_encoding s) (priv_intsetValueEncoding v)" "is_length s + 1"]
  unfolding intset_room_def by linarith

lemma intsetAdd_list:
  assumes "intset_inv s" and "intset_room s v" and "in_int64 v"
  shows "intset_inv (fst (intsetAdd junk s v)) \<and>
    intset_list (fst (intsetAdd junk s v)) =
      (if v \<in> set (intset_list s) then intset_list s else insort v (intset_list s)) \<and>
    snd (intsetAdd junk s v) = (v \<notin> set (intset_list s))"
proof -
  have wf: "intset_wf s" using assms(1) by (simp add: intset_inv_def)
  have srt: "sorted_wrt (<) (intset_list s)" using wf by (simp add: intset_wf_def)
  obtain found pos where sr: "intsetSearch s v = (found, pos)" by fastforce
  have spec: "search_spec s v found pos" using intsetSearch_correct [OF wf sr] .
  consider (up) "is_encoding s < priv_intsetValueEncoding v"
    | (found) "priv_intsetValueEncoding v \<le> is_encoding s" "found"
    | (ins) "priv_intsetValueEncoding v \<le> is_encoding s" "\<not> found"
    by linarith
  then show ?thesis
  proof cases
    case up
    note u = upgrade_is_insort [OF wf assms(3) up]
    have "sorted_wrt (<) (insort v (intset_list s))" using sorted_wrt_less_insort [OF srt] u by blast
    then show ?thesis
      using intsetUpgradeAndAdd_correct [OF wf assms(2,3) up, of junk] u up assms(2)
        valueEncoding_cases [of v]
      by (auto simp: intsetAdd_def intset_inv_def intset_wf_def intset_room_def max_def)
  next
    case found
    then have "v \<in> set (intset_list s)"
      using spec intset_list_nth [of pos s] nth_mem [of pos "intset_list s"]
      by (simp add: search_spec_def)
    then show ?thesis using found assms(1) sr by (simp add: intsetAdd_def)
  next
    case ins
    have nf: "search_spec s v False pos" using spec ins by simp
    note sp = not_found_split [OF nf]
    have pos: "pos \<le> is_length s" using nf by (simp add: search_spec_def)
    define t where "t = (let s1 = intsetResize junk s (is_length s + 1)
      in if pos < is_length s1 then intsetMoveTail s1 pos (pos + 1) else s1)"
    note gap = intset_open_gap [OF wf intset_room_length [OF assms(2)] pos, of junk,
        folded t_def [unfolded Let_def]]
    have w: "is_encoding t \<in> {2, 4, 8}" using gap intset_wf_encoding [OF wf] by simp
    have ft: "fits (is_encoding t) v"
      using gap ins(1) fits_valueEncoding [OF assms(3) intset_wf_encoding [OF wf]] by simp
    have add: "intsetAdd junk s v = ((priv_intsetSet t pos v)\<lparr>is_length := is_length s + 1\<rparr>, True)"
      using ins sr gap w by (simp add: intsetAdd_def Let_def t_def priv_intsetSet_slot)
    have "sorted_wrt (<) (insort v (intset_list s))" using sorted_wrt_less_insort [OF srt] sp(1) .
    moreover have "intset_list (fst (intsetAdd junk s v)) = insort v (intset_list s)"
      "is_encoding (fst (intsetAdd junk s v)) = is_encoding s"
      "length (is_contents (fst (intsetAdd junk s v))) = (is_length s + 1) * is_encoding s"
      using intset_fill_gap [OF w ft, of pos "intset_list s"] gap pos sp(2) by (auto simp: add)
    ultimately show ?thesis
      using sp(1) assms(2) intset_wf_encoding [OF wf] intset_room_length [OF assms(2)] add
      by (auto simp: intset_inv_def intset_wf_def)
  qed
qed

lemma intset_remove_at:
  fixes junk :: "nat \<Rightarrow> byte"
  assumes "intset_inv s" and pos: "pos < is_length s"
  defines "s1 \<equiv> (if pos < is_length s - 1 then intsetMoveTail s (pos + 1) pos else s)"
  defines "r \<equiv> (intsetResize junk s1 (is_length s - 1))\<lparr>is_length := is_length s - 1\<rparr>"
  shows "is_encoding r = is_encoding s \<and> length (is_contents r) = is_length r * is_encoding r \<and>
    intset_list r = take pos (intset_list s) @ drop (Suc pos) (intset_list s)"
proof -
  let ?w = "is_encoding s" and ?n = "is_length s" and ?xs = "intset_list s"
  have w: "?w \<in> {2, 4, 8}" and len0: "length (is_contents s) = ?n * ?w" and sz: "?n * ?w < 4294967296"
    using assms(1) intset_wf_encoding by (auto simp: intset_inv_def intset_wf_def)
  have old: "slot ?w i (is_contents s) = ?xs ! i" if "i < ?n" for i
    using that w by (simp add: intset_list_nth priv_intsetGet_slot)
  have fit: "(pos + 1 + (?n - (pos + 1))) * ?w \<le> length (is_contents s)"
    "(pos + (?n - (pos + 1))) * ?w \<le> length (is_contents s)"
    unfolding len0 using pos by (auto intro!: mult_le_mono1 simp del: mult_Suc)
  have s1: "is_encoding s1 = ?w \<and> length (is_contents s1) = ?n * ?w \<and>
    (\<forall>i<?n - 1. slot ?w i (is_contents s1) = ?xs ! (if i < pos then i else i + 1))"
  proof (cases "pos < ?n - 1")
    case False
    then show ?thesis using pos old len0 by (auto simp: s1_def)
  next
    case True
    let ?m = "memmove (pos * ?w) ((pos + 1) * ?w) ((?n - (pos + 1)) * ?w) (is_contents s)"
    have "(?n - (pos + 1)) * ?w \<le> ?n * ?w" by (intro mult_le_mono1) simp
    then have s1': "s1 = s\<lparr>is_contents := ?m\<rparr>"
      using True w sz unfolding s1_def by (subst intsetMoveTail_slot) auto
    have "length ?m = length (is_contents s)"
      unfolding memmove_def using fit
      by (intro length_mem_write) (simp add: length_mem_read algebra_simps)
    moreover have "slot ?w i ?m = ?xs ! i" if "i < pos" for i
      using slot_memmove_before [OF fit, of i] that True old by simp
    moreover have "slot ?w i ?m = ?xs ! (i + 1)" if "pos \<le> i" "i < ?n - 1" for i
      using slot_memmove [OF fit, of i] that old [of "i + 1"] by simp
    ultimately show ?thesis using len0 by (simp add: s1')
  qed
  have "(?n - 1) * ?w \<le> ?n * ?w" by (intro mult_le_mono1) simp
  with sz have "(?n - 1) * ?w < 4294967296" by (rule le_less_trans [rotated])
  then have r: "r = s1\<lparr>is_contents := zrealloc junk (is_contents s1) ((?n - 1) * ?w), is_length := ?n - 1\<rparr>"
    using s1 unfolding r_def by (subst intsetResize_slot) auto
  have "intset_list r = take pos ?xs @ drop (Suc pos) ?xs"
  proof (rule intset_list_eqI)
    fix i assume i: "i < length (take pos ?xs @ drop (Suc pos) ?xs)"
    then have 1: "(i + 1) * ?w \<le> (?n - 1) * ?w" using pos by (intro mult_le_mono1) auto
    have 2: "(i + 1) * ?w \<le> length (is_contents s1)"
      using order_trans [OF 1 \<open>(?n - 1) * ?w \<le> ?n * ?w\<close>] s1 by argo
    have "slot ?w i (is_contents r) = slot ?w i (is_contents s1)"
      unfolding r using slot_zrealloc [OF 2 1] by simp
    then show "slot (is_encoding r) i (is_contents r) = (take pos ?xs @ drop (Suc pos) ?xs) ! i"
      using i s1 pos by (auto simp: r nth_append min_def)
  qed (use s1 w pos in \<open>auto simp: r\<close>)
  then show ?thesis using s1 by (simp add: r length_zrealloc)
qed

lemma intset_found_mem:
  assumes "intset_wf s" and "intsetSearch s v = (found, pos)"
  shows "found \<longleftrightarrow> v \<in> set (intset_list s)"
proof
  assume found
  then show "v \<in> set (intset_list s)"
    using intsetSearch_correct [OF assms] intset_list_nth [of pos s] nth_mem [of pos "intset_list s"]
    by (simp add: search_spec_def)
next
  assume "v \<in> set (intset_list s)"
  then show found using intsetSearch_correct [OF assms] not_found_split(1) [of s v pos] by (cases found) auto
qed

text \<open>A value that needs a wider encoding than the set has cannot be an element.\<close>

lemma intset_mem_encoding:
  assumes "intset_wf s" and "in_int64 v" and "v \<in> set (intset_list s)"
  shows "priv_intsetValueEncoding v \<le> is_encoding s"
  using intset_list_fits [OF assms(1,3)] fits_valueEncoding [OF assms(2) intset_wf_encoding [OF assms(1)]]
  by simp

lemma intsetRemove_list:
  assumes "intset_inv s" and "in_int64 v"
  shows "intset_inv (fst (intsetRemove junk s v)) \<and>
    intset_list (fst (intsetRemove junk s v)) = remove1 v (intset_list s) \<and>
    snd (intsetRemove junk s v) = (v \<in> set (intset_list s))"
proof -
  have wf: "intset_wf s" using assms(1) by (simp add: intset_inv_def)
  have srt: "sorted_wrt (<) (intset_list s)" using wf by (simp add: intset_wf_def)
  obtain found pos where sr: "intsetSearch s v = (found, pos)" by fastforce
  note mem = intset_found_mem [OF wf sr] and spec = intsetSearch_correct [OF wf sr]
  show ?thesis
  proof (cases found)
    case False
    then show ?thesis using mem assms(1) sr by (simp add: intsetRemove_def remove1_idem)
  next
    case True
    then have pos: "pos < is_length s" "intset_list s ! pos = v"
      using spec by (auto simp: search_spec_def intset_list_nth)
    have enc: "priv_intsetValueEncoding v \<le> is_encoding s"
      using intset_mem_encoding [OF wf assms(2)] mem True by blast
    have rem: "remove1 v (intset_list s) = take pos (intset_list s) @ drop (Suc pos) (intset_list s)"
      using remove1_nth [OF sorted_wrt_less_distinct [OF srt], of pos] pos by simp
    have "(is_length s - 1) * is_encoding s \<le> is_length s * is_encoding s" by (intro mult_le_mono1) simp
    then show ?thesis
      using intset_remove_at [OF assms(1) pos(1), of junk] sorted_wrt_less_remove1 [OF srt, of v]
        rem True enc sr mem assms(1) intset_wf_encoding [OF wf]
      by (auto simp: intsetRemove_def Let_def intset_inv_def intset_wf_def)
  qed
qed


subsection \<open>Integrity of a serialised set\<close>



subsection \<open>Properties\<close>

text \<open>
  C5. \<^verbatim>\<open>intsetAdd\<close> keeps the invariant, inserts the value at its sorted place (and
  nowhere when it is already there), whatever re-encoding this needs and whatever the fresh
  bytes of the reallocated buffer hold, and reports whether the set grew.
\<close>

theorem intsetAdd_correct:
  assumes "intset_inv s" and "intset_room s v" and "in_int64 v"
  shows "intset_inv (fst (intsetAdd junk s v)) \<and>
    intset_list (fst (intsetAdd junk s v)) =
      (if v \<in> set (intset_list s) then intset_list s else insort v (intset_list s)) \<and>
    snd (intsetAdd junk s v) = (v \<notin> set (intset_list s))"
  using assms by (rule intsetAdd_list)

theorem intsetAdd_correct_witness:
  "intset_list (fst (intsetAdd (\<lambda>_. 7)
      \<lparr>is_encoding = 2, is_length = 2, is_contents = [255, 255, 5, 0]\<rparr> (- 70000))) = [- 70000, - 1, 5]"
proof -
  let ?s = "\<lparr>is_encoding = 2, is_length = 2, is_contents = [255, 255, 5, 0]\<rparr>"
  have l: "intset_list ?s = [- 1, 5]" by code_simp
  have h: "intset_inv ?s" "intset_room ?s (- 70000)" "in_int64 (- 70000)"
    by (simp_all add: intset_inv_def intset_wf_def l intset_room_def priv_intsetValueEncoding_def in_int64_def)
  show ?thesis using intsetAdd_correct [OF h, of "\<lambda>_. 7"] by (simp add: l)
qed

text \<open>
  C24. \<^verbatim>\<open>intsetRemove\<close> keeps the invariant, removes exactly the given value and reports
  whether it was there.
\<close>

theorem intsetRemove_correct:
  assumes "intset_inv s" and "in_int64 v"
  shows "intset_inv (fst (intsetRemove junk s v)) \<and>
    intset_list (fst (intsetRemove junk s v)) = remove1 v (intset_list s) \<and>
    snd (intsetRemove junk s v) = (v \<in> set (intset_list s))"
  using assms by (rule intsetRemove_list)

theorem intsetRemove_correct_witness:
  "intset_list (fst (intsetRemove (\<lambda>_. 7)
      \<lparr>is_encoding = 2, is_length = 2, is_contents = [255, 255, 5, 0]\<rparr> (- 1))) = [5]"
proof -
  let ?s = "\<lparr>is_encoding = 2, is_length = 2, is_contents = [255, 255, 5, 0]\<rparr>"
  have l: "intset_list ?s = [- 1, 5]" by code_simp
  have h: "intset_inv ?s" "in_int64 (- 1)"
    by (simp_all add: intset_inv_def intset_wf_def l in_int64_def)
  show ?thesis using intsetRemove_correct [OF h, of "\<lambda>_. 7"] by (simp add: l)
qed



end
