(* ===== verification/Util.thy ===== *)
theory Util
  imports Redis_Prelude
begin

text \<open>
  \<^verbatim>\<open>util.c\<close>: decimal conversion of integers (\<open>digits10\<close>, \<open>ll2string\<close>,
  \<open>string2ll\<close>) and glob-style matching (\<open>stringmatchlen\<close>).

  Text is a list of characters. The conversions are related to one reference, the decimal
  numeral \<open>repr_ll\<close> of an integer: \<open>ll2string\<close> writes it and \<open>string2ll\<close> accepts
  exactly the numerals of the \<open>long long\<close> values. The matcher is related to a matcher on
  parsed patterns.
\<close>

abbreviation NUL :: char where "NUL \<equiv> CHR 0x00"

text \<open>The \<open>int\<close> a C \<open>char\<close> promotes to (\<open>char\<close> is signed), and \<^verbatim>\<open>tolower\<close> of the C locale.\<close>

definition int_of_char :: "char \<Rightarrow> int" where
  "int_of_char c = (let n = of_char c in if n < 128 then n else n - 256)"

definition tolower :: "int \<Rightarrow> int" where
  "tolower c = (if 65 \<le> c \<and> c \<le> 90 then c + 32 else c)"

definition digit_char :: "nat \<Rightarrow> char" where
  "digit_char d = char_of (48 + d)"

subsection \<open>Decimal numerals\<close>

text \<open>The reference: the decimal numeral of a number, and of a signed number.\<close>

fun repr_ull :: "nat \<Rightarrow> string" where
  "repr_ull n = (if n < 10 then [digit_char n] else repr_ull (n div 10) @ [digit_char (n mod 10)])"

declare repr_ull.simps [simp del]

definition repr_ll :: "int \<Rightarrow> string" where
  "repr_ll v = (if v < 0 then CHR ''-'' # repr_ull (nat (- v)) else repr_ull (nat v))"

function digits10 :: "nat \<Rightarrow> nat" where
  "digits10 v =
     (if v < 10 then 1
      else if v < 100 then 2
      else if v < 1000 then 3
      else if v < 1000000000000 then
        if v < 100000000 then
          if v < 1000000 then
            if v < 10000 then 4
            else 5 + of_bool (v \<ge> 100000)
          else 7 + of_bool (v \<ge> 10000000)
        else if v < 10000000000 then 9 + of_bool (v \<ge> 1000000000)
        else 11 + of_bool (v \<ge> 100000000000)
      else 12 + digits10 (v div 1000000000000))"
  by pat_completeness auto
termination
  by (relation "measure id") auto

declare digits10.simps [simp del]

definition sdigits10 :: "int \<Rightarrow> nat" where
  "sdigits10 v =
     (if v < 0 then
        let uv = (if v \<noteq> LLONG_MIN then - v else LLONG_MAX + 1)
        in digits10 (nat uv) + 1
      else digits10 (nat v))"

definition ll2string_digits :: string where
  "ll2string_digits =
     ''0001020304050607080910111213141516171819'' @
     ''2021222324252627282930313233343536373839'' @
     ''4041424344454647484950515253545556575859'' @
     ''6061626364656667686970717273747576777879'' @
     ''8081828384858687888990919293949596979899''"

text \<open>\<^verbatim>\<open>while (value >= 100)\<close>: the buffer, the position \<open>next\<close> and what is left of the value.\<close>

function ll2string_loop :: "string \<Rightarrow> nat \<Rightarrow> nat \<Rightarrow> string \<times> nat \<times> nat" where
  "ll2string_loop dst nxt value =
     (if value \<ge> 100 then
        let i = (value mod 100) * 2;
            dst = dst[nxt := ll2string_digits ! (i + 1)];
            dst = dst[nxt - 1 := ll2string_digits ! i]
        in ll2string_loop dst (nxt - 2) (value div 100)
      else (dst, nxt, value))"
  by pat_completeness auto
termination
  by (relation "measure (\<lambda>(dst, nxt, value). value)") auto

declare ll2string_loop.simps [simp del]

text \<open>The result: the buffer \<^verbatim>\<open>dst\<close> after the call, and the length returned.\<close>

definition ll2string :: "string \<Rightarrow> nat \<Rightarrow> int \<Rightarrow> string \<times> nat" where
  "ll2string dst dstlen svalue =
     (let (value, negative) =
            (if svalue < 0
             then (if svalue \<noteq> LLONG_MIN then nat (- svalue) else nat (LLONG_MAX + 1), True)
             else (nat svalue, False));
          len = digits10 value + of_bool negative
      in if len \<ge> dstlen then (dst, 0)
         else
           let dst = dst[len := NUL];
               (dst, nxt, value) = ll2string_loop dst (len - 1) value;
               dst = (if value < 10 then dst[nxt := digit_char value]
                      else dst[nxt := ll2string_digits ! (value * 2 + 1), nxt - 1 := ll2string_digits ! (value * 2)]);
               dst = (if negative then dst[0 := CHR ''-''] else dst)
           in (dst, len))"

text \<open>The digit loop of \<^verbatim>\<open>string2ll\<close>: \<open>None\<close> is the overflow exit.\<close>

definition is_digit :: "char \<Rightarrow> bool" where
  "is_digit c \<longleftrightarrow> int_of_char CHR ''0'' \<le> int_of_char c \<and> int_of_char c \<le> int_of_char CHR ''9''"

definition digit_val :: "char \<Rightarrow> int" where
  "digit_val c = int_of_char c - int_of_char CHR ''0''"

fun string2ll_loop :: "int \<Rightarrow> string \<Rightarrow> (int \<times> string) option" where
  "string2ll_loop v [] = Some (v, [])"
| "string2ll_loop v (c # p) =
     (if is_digit c then
        if v > ULLONG_MAX div 10 then None
        else
          let v = uint64 (v * 10) in
          if v > ULLONG_MAX - digit_val c then None
          else string2ll_loop (uint64 (v + digit_val c)) p
      else Some (v, c # p))"

definition string2ll :: "string \<Rightarrow> int option" where
  "string2ll s =
     (if s = [] then None
      else if s = ''0'' then Some 0
      else
        let negative = (hd s = CHR ''-'');
            p = (if negative then tl s else s)
        in case p of
             [] \<Rightarrow> None
           | c # p \<Rightarrow>
               if is_digit c \<and> c \<noteq> CHR ''0'' then
                 (case string2ll_loop (digit_val c) p of
                    None \<Rightarrow> None
                  | Some (v, rest) \<Rightarrow>
                      if rest \<noteq> [] then None
                      else if negative then
                        if v > - (LLONG_MIN + 1) + 1 then None else Some (- v)
                      else if v > LLONG_MAX then None
                      else Some v)
               else None)"

text \<open>A \<open>long\<close> has 64 bits, so its range check never fails; it is kept.\<close>

definition string2l :: "string \<Rightarrow> int option" where
  "string2l s =
     (case string2ll s of
        None \<Rightarrow> None
      | Some llval \<Rightarrow> if llval < LLONG_MIN \<or> llval > LLONG_MAX then None else Some llval)"

subsection \<open>Character sets\<close>

text \<open>The offset of the first byte that is in the set, if any.\<close>

fun mempbrk :: "nat \<Rightarrow> string \<Rightarrow> string \<Rightarrow> nat option" where
  "mempbrk j [] chars = None"
| "mempbrk j (c # s) chars = (if c \<in> set chars then Some j else mempbrk (Suc j) s chars)"

fun memmapchars_at :: "char \<Rightarrow> string \<Rightarrow> string \<Rightarrow> char" where
  "memmapchars_at c (f # fs) (t # ts) = (if c = f then t else memmapchars_at c fs ts)"
| "memmapchars_at c _ _ = c"

definition memmapchars :: "string \<Rightarrow> string \<Rightarrow> string \<Rightarrow> string" where
  "memmapchars s from to = map (\<lambda>c. memmapchars_at c from to) s"

subsection \<open>Glob-style matching\<close>

text \<open>
  The pattern and the string are the rests not yet consumed; their lengths are the length
  arguments of the source. The source reads one byte past the end of the pattern, which is
  the terminating null of a C string: \<open>pat_at\<close>.
\<close>

definition pat_at :: "string \<Rightarrow> nat \<Rightarrow> char" where
  "pat_at p i = (if i < length p then p ! i else NUL)"

text \<open>\<^verbatim>\<open>while (patternLen && pattern[1] == '*')\<close>\<close>

fun skip_stars :: "string \<Rightarrow> string" where
  "skip_stars [] = []"
| "skip_stars (c # p) = (if pat_at p 0 = CHR ''*'' then skip_stars p else c # p)"

definition char_eq :: "bool \<Rightarrow> char \<Rightarrow> char \<Rightarrow> bool" where
  "char_eq nocase a b \<longleftrightarrow>
     (if nocase then tolower (int_of_char a) = tolower (int_of_char b) else a = b)"

definition in_range :: "bool \<Rightarrow> char \<Rightarrow> char \<Rightarrow> char \<Rightarrow> bool" where
  "in_range nocase a b ch =
     (let start = int_of_char a; stop = int_of_char b; c = int_of_char ch;
          (start, stop) = (if start > stop then (stop, start) else (start, stop));
          (start, stop, c) = (if nocase then (tolower start, tolower stop, tolower c)
                              else (start, stop, c))
      in c \<ge> start \<and> c \<le> stop)"

text \<open>
  The \<^verbatim>\<open>while(1)\<close> loop over a character class. The result is \<open>match\<close> and the pattern at
  the closing bracket. When the pattern ends first the source steps back by one, and the
  common step behind the switch steps forward again: the rest is then empty.
\<close>

function class_loop :: "bool \<Rightarrow> char \<Rightarrow> string \<Rightarrow> bool \<Rightarrow> bool \<times> string" where
  "class_loop nocase ch p match =
     (if pat_at p 0 = CHR 0x5C \<and> length p \<ge> 2 then
        class_loop nocase ch (drop 2 p) (match \<or> p ! 1 = ch)
      else if pat_at p 0 = CHR '']'' then (match, p)
      else if length p = 0 then (match, p)
      else if length p \<ge> 3 \<and> p ! 1 = CHR ''-'' then
        class_loop nocase ch (drop 3 p) (match \<or> in_range nocase (p ! 0) (p ! 2) ch)
      else class_loop nocase ch (drop 1 p) (match \<or> char_eq nocase (p ! 0) ch))"
  by pat_completeness auto
termination
  by (relation "measure (\<lambda>(nocase, ch, p, match). length p)") auto

declare class_loop.simps [simp del]

lemma length_class_loop: "length (snd (class_loop nocase ch p m)) \<le> length p"
  by (induction nocase ch p m rule: class_loop.induct) (subst class_loop.simps, auto)

lemma length_skip_stars: "length (skip_stars p) \<le> length p"
  by (induction p rule: skip_stars.induct) auto

lemma skip_stars_length: "length (tl (skip_stars (c # p))) < length (c # p)"
  using length_skip_stars [of "c # p"] by (cases "skip_stars (c # p)") auto

lemma class_loop_length:
  "length q \<le> length p \<Longrightarrow> length (snd (class_loop nocase ch q m)) - Suc 0 < Suc (length p)"
  using length_class_loop [of nocase ch q m] by simp

text \<open>
  \<open>stringmatchlen\<close> is the outer loop; \<open>star_loop\<close> is the loop that tries the pattern
  behind a star at every position of the string.
\<close>

function stringmatchlen :: "bool \<Rightarrow> string \<Rightarrow> string \<Rightarrow> bool"
  and star_loop :: "bool \<Rightarrow> string \<Rightarrow> string \<Rightarrow> bool" where
  "stringmatchlen nocase [] s = (s = [])"
| "stringmatchlen nocase (c # p) [] = False"
| "stringmatchlen nocase (c # p) (ch # s) =
     (if c = CHR ''*'' then
        let q = skip_stars (c # p)
        in if length q = 1 then True else star_loop nocase (tl q) (ch # s)
      else if c = CHR ''?'' then
        if s = [] then dropWhile (\<lambda>x. x = CHR ''*'') p = [] else stringmatchlen nocase p s
      else if c = CHR ''['' then
        let neg = (pat_at p 0 = CHR 0x5E);
            q = (if neg then tl p else p);
            (match, q) = class_loop nocase ch q False;
            match = (if neg then \<not> match else match);
            q = tl q
        in if \<not> match then False
           else if s = [] then dropWhile (\<lambda>x. x = CHR ''*'') q = [] else stringmatchlen nocase q s
      else
        let (c, q) = (if c = CHR 0x5C \<and> p \<noteq> [] then (hd p, tl p) else (c, p))
        in if \<not> char_eq nocase c ch then False
           else if s = [] then dropWhile (\<lambda>x. x = CHR ''*'') q = [] else stringmatchlen nocase q s)"
| "star_loop nocase p [] = False"
| "star_loop nocase p (ch # s) =
     (if stringmatchlen nocase p (ch # s) then True else star_loop nocase p s)"
  by pat_completeness auto

termination
proof (relation "measures [
    \<lambda>x. case x of Inl (n, p, s) \<Rightarrow> length p | Inr (n, p, s) \<Rightarrow> length p,
    \<lambda>x. case x of Inl (n, p, s) \<Rightarrow> length s | Inr (n, p, s) \<Rightarrow> length s,
    \<lambda>x. case x of Inl (n, p, s) \<Rightarrow> 0 | Inr (n, p, s) \<Rightarrow> 1]")
  fix nocase ch s c p and q :: string
  assume "q = skip_stars (c # p)"
  then show "(Inr (nocase, tl q, ch # s), Inl (nocase, c # p, ch # s)) \<in> measures [
    \<lambda>x. case x of Inl (n, p, s) \<Rightarrow> length p | Inr (n, p, s) \<Rightarrow> length p,
    \<lambda>x. case x of Inl (n, p, s) \<Rightarrow> length s | Inr (n, p, s) \<Rightarrow> length s,
    \<lambda>x. case x of Inl (n, p, s) \<Rightarrow> 0 | Inr (n, p, s) \<Rightarrow> 1]"
    using skip_stars_length [of c p] by (simp del: skip_stars.simps)
qed (auto split: if_splits dest!: arg_cong [of _ _ snd] intro!: class_loop_length)

subsection \<open>Lengths of numerals\<close>

lemma length_repr_ull_small: "n < 10 \<Longrightarrow> length (repr_ull n) = 1"
  by (simp add: repr_ull.simps)

lemma length_repr_ull_step: "10 \<le> n \<Longrightarrow> length (repr_ull n) = Suc (length (repr_ull (n div 10)))"
  by (simp add: repr_ull.simps [of n])

lemma length_repr_ull_pos: "0 < length (repr_ull n)"
  by (simp add: repr_ull.simps [of n])

lemma length_repr_ull_div: "10 ^ k \<le> n \<Longrightarrow> length (repr_ull n) = k + length (repr_ull (n div 10 ^ k))"
proof (induction k)
  case (Suc k)
  have "(10 :: nat) ^ k \<le> 10 ^ Suc k" by simp
  then have "length (repr_ull n) = k + length (repr_ull (n div 10 ^ k))"
    using Suc order_trans by blast
  moreover have "10 \<le> n div 10 ^ k"
    using Suc.prems by (simp add: less_eq_div_iff_mult_less_eq)
  ultimately show ?case
    by (simp add: length_repr_ull_step div_mult2_eq [symmetric] mult.commute)
qed simp

lemma length_repr_ull_between:
  "10 ^ k \<le> n \<Longrightarrow> n < 10 ^ Suc k \<Longrightarrow> length (repr_ull n) = Suc k"
  using length_repr_ull_small [of "n div 10 ^ k"]
  by (simp add: length_repr_ull_div less_mult_imp_div_less mult.commute)

lemma digits10_correct: "digits10 v = length (repr_ull v)"
proof (induction v rule: digits10.induct)
  case (1 v)
  show ?case
  proof (cases "v < 1000000000000")
    case False
    with "1" have "digits10 (v div 1000000000000) = length (repr_ull (v div 1000000000000))" by simp
    with False show ?thesis
      using length_repr_ull_div [of 12 v] by (simp add: digits10.simps [of v])
  next
    case True
    note between = length_repr_ull_between [of 1 v, simplified] length_repr_ull_between [of 2 v, simplified]
      length_repr_ull_between [of 3 v, simplified] length_repr_ull_between [of 4 v, simplified]
      length_repr_ull_between [of 5 v, simplified] length_repr_ull_between [of 6 v, simplified]
      length_repr_ull_between [of 7 v, simplified] length_repr_ull_between [of 8 v, simplified]
      length_repr_ull_between [of 9 v, simplified] length_repr_ull_between [of 10 v, simplified]
      length_repr_ull_between [of 11 v, simplified]
    from True show ?thesis
      by (simp add: digits10.simps [of v] length_repr_ull_small between)
  qed
qed

subsection \<open>Printing\<close>

lemma digit_char_simps:
  "digit_char 0 = CHR ''0''" "digit_char 1 = CHR ''1''" "digit_char (Suc 0) = CHR ''1''"
  "digit_char 2 = CHR ''2''" "digit_char (Suc (Suc 0)) = CHR ''2''" "digit_char 3 = CHR ''3''"
  "digit_char 4 = CHR ''4''" "digit_char 5 = CHR ''5''" "digit_char 6 = CHR ''6''"
  "digit_char 7 = CHR ''7''" "digit_char 8 = CHR ''8''" "digit_char 9 = CHR ''9''"
  by code_simp+

lemma ll2string_digits_pairs:
  "ll2string_digits = concat (map (\<lambda>i. [digit_char (i div 10), digit_char (i mod 10)]) [0..<100])"
  by (simp add: ll2string_digits_def upt_rec digit_char_simps)

lemma nth_concat_pairs:
  "i < length xs \<Longrightarrow> concat (map (\<lambda>i. [f i, g i]) xs) ! (i * 2) = f (xs ! i) \<and>
    concat (map (\<lambda>i. [f i, g i]) xs) ! (i * 2 + 1) = g (xs ! i)"
  by (induction xs arbitrary: i) (auto simp: nth_Cons split: nat.splits)

lemma ll2string_digits_nth:
  assumes "i < 100"
  shows "ll2string_digits ! (i * 2) = digit_char (i div 10)"
    and "ll2string_digits ! (i * 2 + 1) = digit_char (i mod 10)"
  unfolding ll2string_digits_pairs
  using nth_concat_pairs [of i "[0..<100]" "\<lambda>i. digit_char (i div 10)" "\<lambda>i. digit_char (i mod 10)"] assms
  by simp_all

lemma repr_ull_two: "10 \<le> v \<Longrightarrow> v < 100 \<Longrightarrow> repr_ull v = [digit_char (v div 10), digit_char (v mod 10)]"
  by (subgoal_tac "v div 10 < 10") (simp_all add: repr_ull.simps [of v] repr_ull.simps [of "v div 10"] less_mult_imp_div_less)

lemma repr_ull_hundred:
  "100 \<le> v \<Longrightarrow>
    repr_ull v = repr_ull (v div 100) @ [digit_char (v mod 100 div 10), digit_char (v mod 100 mod 10)]"
proof -
  assume v: "100 \<le> v"
  have "v mod (10 * 10) div 10 = v div 10 mod 10" "v mod 100 mod 10 = v mod 10"
    by (simp_all only: mod_mult2_eq) (simp_all add: mod_mod_cancel)
  moreover have "repr_ull v = repr_ull (v div 10 div 10) @ [digit_char (v div 10 mod 10), digit_char (v mod 10)]"
  proof -
    have "\<not> v div 10 < 10" using v by (simp add: not_less less_eq_div_iff_mult_less_eq)
    then show ?thesis using v by (simp add: repr_ull.simps [of v] repr_ull.simps [of "v div 10"])
  qed
  ultimately show ?thesis by (simp add: div_mult2_eq [symmetric])
qed

text \<open>The loop and the last one or two digits together write the numeral so that it ends at \<open>nxt\<close>.\<close>

definition ll2string_last :: "string \<times> nat \<times> nat \<Rightarrow> string" where
  "ll2string_last = (\<lambda>(dst, nxt, value).
     if value < 10 then dst[nxt := digit_char value]
     else dst[nxt := ll2string_digits ! (value * 2 + 1), nxt - 1 := ll2string_digits ! (value * 2)])"

lemma ll2string_loop_correct:
  assumes "length (repr_ull v) \<le> nxt + 1" and "nxt < length dst"
  shows "ll2string_last (ll2string_loop dst nxt v) =
    mem_write (nxt + 1 - length (repr_ull v)) (repr_ull v) dst"
  using assms
proof (induction dst nxt v rule: ll2string_loop.induct)
  case (1 dst nxt v)
  show ?case
  proof (cases "v \<ge> 100")
    case True
    let ?i = "v mod 100 * 2"
    let ?dst = "dst[nxt := ll2string_digits ! (?i + 1), nxt - 1 := ll2string_digits ! ?i]"
    let ?q = "repr_ull (v div 100)"
    have len: "length (repr_ull v) = length ?q + 2" "length ?q + 1 \<le> nxt"
      using repr_ull_hundred [OF True] "1.prems"(1) by simp_all
    then have pos: "nxt - 2 + 1 = nxt - 1" "nxt - 1 - length ?q + length ?q = nxt - 1"
      "2 \<le> nxt"
      using length_repr_ull_pos [of "v div 100"] by linarith+
    have dst: "?dst = mem_write (nxt - 1) [digit_char (v mod 100 div 10), digit_char (v mod 100 mod 10)] dst"
      using mem_write_double [of "nxt - 1" dst] "1.prems"(2) pos(3)
        ll2string_digits_nth [of "v mod 100"] by simp
    have "ll2string_last (ll2string_loop ?dst (nxt - 2) (v div 100)) =
      mem_write (nxt - 2 + 1 - length ?q) ?q ?dst"
      using len pos "1.prems" True by (intro "1.IH") auto
    also have "\<dots> = mem_write (nxt - 1 - length ?q) (repr_ull v) dst"
      unfolding dst using mem_write_append [of "nxt - 1 - length ?q" ?q
          "[digit_char (v mod 100 div 10), digit_char (v mod 100 mod 10)]" dst]
        repr_ull_hundred [OF True] pos "1.prems"(2) by simp
    finally show ?thesis
      using True len by (simp add: ll2string_loop.simps [of dst nxt v] Let_def)
  next
    case False
    then show ?thesis
      using "1.prems" mem_write_double [of "nxt - 1" dst] repr_ull_two [of v]
        ll2string_digits_nth [of v]
      by (cases "v < 10")
        (auto simp: ll2string_loop.simps [of dst nxt v] ll2string_last_def repr_ull.simps [of v]
          mem_write_single)
  qed
qed

lemma ll2string_writes:
  assumes "in_int64 v" and "dstlen \<le> length dst"
  shows "ll2string dst dstlen v =
    (if length (repr_ll v) < dstlen
     then (mem_write 0 (repr_ll v @ [NUL]) dst, length (repr_ll v)) else (dst, 0))"
proof -
  define n where "n = nat \<bar>v\<bar>"
  define L where "L = length (repr_ull n) + of_bool (v < 0)"
  have vn: "(if v < 0 then (if v \<noteq> LLONG_MIN then nat (- v) else nat (LLONG_MAX + 1), True)
      else (nat v, False)) = (n, v < 0)"
    by (auto simp: n_def)
  have repr: "repr_ll v = (if v < 0 then [CHR ''-''] else []) @ repr_ull n" "L = length (repr_ll v)"
    by (auto simp: repr_ll_def n_def L_def)
  have eq: "ll2string dst dstlen v =
    (if L \<ge> dstlen then (dst, 0)
     else (let d = ll2string_last (ll2string_loop (dst[L := NUL]) (L - 1) n)
           in (if v < 0 then d[0 := CHR ''-''] else d, L)))"
    unfolding ll2string_def vn
    by (simp add: digits10_correct L_def ll2string_last_def Let_def split: prod.splits)
  show ?thesis
  proof (cases "L < dstlen")
    case False
    then show ?thesis by (simp add: eq repr(2))
  next
    case True
    have "ll2string_last (ll2string_loop (dst[L := NUL]) (L - 1) n) =
      mem_write (L - 1 + 1 - length (repr_ull n)) (repr_ull n) (dst[L := NUL])"
      using True assms(2) by (intro ll2string_loop_correct) (auto simp: L_def)
    also have "L - 1 + 1 - length (repr_ull n) = of_bool (v < 0)"
      using length_repr_ull_pos [of n] by (auto simp: L_def)
    also have "mem_write (of_bool (v < 0)) (repr_ull n) (dst[L := NUL]) =
      mem_write (of_bool (v < 0)) (repr_ull n @ [NUL]) dst"
      using True assms(2) by (subst mem_write_append) (auto simp: L_def mem_write_single add.commute)
    finally have loop: "ll2string_last (ll2string_loop (dst[L := NUL]) (L - 1) n) =
      mem_write (of_bool (v < 0)) (repr_ull n @ [NUL]) dst" .
    have "(mem_write 1 (repr_ull n @ [NUL]) dst)[0 := CHR ''-''] = mem_write 0 (CHR ''-'' # repr_ull n @ [NUL]) dst"
      if "v < 0"
      using True assms(2) that mem_write_append [of 0 "[CHR ''-'']" "repr_ull n @ [NUL]" dst]
      by (subst mem_write_single [symmetric]) (auto simp: L_def length_mem_write)
    with True loop show ?thesis by (auto simp: eq repr Let_def)
  qed
qed

subsection \<open>Parsing\<close>

lemma digit_char_props:
  assumes "d < 10"
  shows "is_digit (digit_char d)" "digit_val (digit_char d) = int d" "digit_char d = CHR ''0'' \<longleftrightarrow> d = 0"
proof -
  have "d \<in> set [0..<10]" using assms by simp
  moreover have "list_all (\<lambda>d. is_digit (digit_char d) \<and> digit_val (digit_char d) = int d \<and>
      (digit_char d = CHR ''0'' \<longleftrightarrow> d = 0)) [0..<10]"
    by code_simp
  ultimately show "is_digit (digit_char d)" "digit_val (digit_char d) = int d"
    "digit_char d = CHR ''0'' \<longleftrightarrow> d = 0"
    unfolding list_all_iff by blast+
qed

lemma is_digit_digit_char:
  assumes "is_digit c"
  obtains d where "d < 10" and "c = digit_char d"
proof
  have "(of_char c :: int) < 256" using nat_of_char_less_256 [of c] by (metis of_nat_less_numeral_iff of_nat_of_char)
  with assms have b: "48 \<le> (of_char c :: int)" "(of_char c :: int) \<le> 57"
    by (auto simp: is_digit_def int_of_char_def Let_def split: if_splits)
  then have "48 \<le> (of_char c :: nat)" "(of_char c :: nat) \<le> 57"
    by (metis of_nat_le_iff of_nat_numeral of_nat_of_char)+
  then show "of_char c - 48 < (10 :: nat)" and "c = digit_char (of_char c - 48)"
    by (simp_all add: digit_char_def)
qed

lemma digit_val_range: "is_digit c \<Longrightarrow> 0 \<le> digit_val c \<and> digit_val c \<le> 9"
  by (auto elim!: is_digit_digit_char simp: digit_char_props)

text \<open>The value of a digit string read from left to right, and when the loop returns it.\<close>

definition dec_val :: "int \<Rightarrow> string \<Rightarrow> int" where
  "dec_val v p = foldl (\<lambda>v c. v * 10 + digit_val c) v p"

lemma dec_val_mono: "0 \<le> v \<Longrightarrow> list_all is_digit p \<Longrightarrow> v \<le> dec_val v p"
proof (induction p arbitrary: v)
  case (Cons c p)
  then have "0 \<le> v * 10 + digit_val c" "v \<le> v * 10 + digit_val c"
    using digit_val_range [of c] by auto
  with Cons show ?case by (fastforce simp: dec_val_def)
qed (simp add: dec_val_def)

lemma string2ll_loop_iff:
  "0 \<le> v \<Longrightarrow> v \<le> ULLONG_MAX \<Longrightarrow>
    string2ll_loop v p = Some (w, []) \<longleftrightarrow> list_all is_digit p \<and> w = dec_val v p \<and> w \<le> ULLONG_MAX"
proof (induction v p rule: string2ll_loop.induct)
  case (1 v)
  then show ?case by (auto simp: dec_val_def)
next
  case (2 v c p)
  let ?v = "v * 10 + digit_val c"
  show ?case
  proof (cases "is_digit c")
    case True
    note d = digit_val_range [OF True]
    have mono: "?v \<le> dec_val ?v p" if "list_all is_digit p"
      using dec_val_mono [OF _ that] d "2.prems" by simp
    have val: "dec_val v (c # p) = dec_val ?v p" by (simp add: dec_val_def)
    show ?thesis
    proof (cases "?v \<le> ULLONG_MAX")
      case False
      have "string2ll_loop v (c # p) = None"
        using False True d by (auto simp: Let_def)
      then show ?thesis using mono False val by auto
    next
      case fits: True
      then have "\<not> v > ULLONG_MAX div 10" "\<not> uint64 (v * 10) > ULLONG_MAX - digit_val c"
        "uint64 (v * 10) = v * 10" "uint64 (uint64 (v * 10) + digit_val c) = ?v"
        using d "2.prems" by auto
      then show ?thesis
        using "2.IH" [OF True] True d "2.prems" fits val by (auto simp: Let_def)
    qed
  qed auto
qed

lemma repr_ull_snoc: "0 < n \<Longrightarrow> d < 10 \<Longrightarrow> repr_ull (n * 10 + d) = repr_ull n @ [digit_char d]"
  by (simp add: repr_ull.simps [of "n * 10 + d"])

lemma repr_ull_dec_val:
  "0 < v \<Longrightarrow> list_all is_digit p \<Longrightarrow> repr_ull (nat v) @ p = repr_ull (nat (dec_val v p))"
proof (induction p arbitrary: v)
  case (Cons c p)
  obtain d where d: "d < 10" "c = digit_char d" using Cons.prems(2) is_digit_digit_char by auto
  have "nat (v * 10 + digit_val c) = nat v * 10 + d"
    using d Cons.prems(1) by (simp add: digit_char_props nat_add_distrib nat_mult_distrib)
  then have "repr_ull (nat v) @ [c] = repr_ull (nat (v * 10 + digit_val c))"
    using d Cons.prems(1) by (simp add: repr_ull_snoc)
  moreover have "0 < v * 10 + digit_val c" using d Cons.prems(1) by (simp add: digit_char_props)
  ultimately show ?case
    using Cons.IH [of "v * 10 + digit_val c"] Cons.prems(2) by (simp add: dec_val_def) (metis append_Cons append_Nil append_assoc)
qed (simp add: dec_val_def)

lemma repr_ull_first:
  assumes "0 < n"
  obtains c p where "repr_ull n = c # p" and "is_digit c" and "c \<noteq> CHR ''0''" and "list_all is_digit p"
    and "dec_val (digit_val c) p = int n"
  using assms
proof (induction n arbitrary: thesis rule: repr_ull.induct)
  case (1 n)
  show ?case
  proof (cases "n < 10")
    case True
    then show ?thesis
      using "1.prems" digit_char_props [of n] by (auto simp: repr_ull.simps [of n] dec_val_def)
  next
    case False
    then have "0 < n div 10" by simp
    with "1.IH" [OF False] obtain c p where cp: "repr_ull (n div 10) = c # p" "is_digit c" "c \<noteq> CHR ''0''"
      "list_all is_digit p" "dec_val (digit_val c) p = int (n div 10)" by metis
    have "dec_val (digit_val c) (p @ [digit_char (n mod 10)]) = int n"
      using cp(5) digit_char_props(2) [of "n mod 10"] by (simp add: dec_val_def zdiv_int zmod_int)
    then show ?thesis
      using "1.prems"(1) [of c "p @ [digit_char (n mod 10)]"] cp False digit_char_props(1) [of "n mod 10"]
      by (simp add: repr_ull.simps [of n])
  qed
qed

text \<open>The digits behind the optional sign: accepted exactly when they are a positive numeral.\<close>

lemma string2ll_digits_iff:
  "is_digit c \<and> c \<noteq> CHR ''0'' \<and> string2ll_loop (digit_val c) p = Some (w, []) \<longleftrightarrow>
    0 < w \<and> w \<le> ULLONG_MAX \<and> c # p = repr_ull (nat w)"
proof
  assume l: "is_digit c \<and> c \<noteq> CHR ''0'' \<and> string2ll_loop (digit_val c) p = Some (w, [])"
  obtain d where d: "d < 10" "c = digit_char d" using l is_digit_digit_char by auto
  with l have "0 < digit_val c" "repr_ull (nat (digit_val c)) = [c]"
    by (auto simp: digit_char_props repr_ull.simps [of d])
  moreover have "list_all is_digit p" "w = dec_val (digit_val c) p" "w \<le> ULLONG_MAX"
    using l digit_val_range [of c] string2ll_loop_iff [of "digit_val c" p w] by auto
  ultimately show "0 < w \<and> w \<le> ULLONG_MAX \<and> c # p = repr_ull (nat w)"
    using repr_ull_dec_val [of "digit_val c" p] dec_val_mono [of "digit_val c" p] by auto
next
  assume r: "0 < w \<and> w \<le> ULLONG_MAX \<and> c # p = repr_ull (nat w)"
  then obtain c' p' where cp: "repr_ull (nat w) = c' # p'" "is_digit c'" "c' \<noteq> CHR ''0''"
    "list_all is_digit p'" "dec_val (digit_val c') p' = int (nat w)"
    using repr_ull_first [of "nat w"] by (metis zero_less_nat_eq)
  with r show "is_digit c \<and> c \<noteq> CHR ''0'' \<and> string2ll_loop (digit_val c) p = Some (w, [])"
    using string2ll_loop_iff [of "digit_val c" p w] digit_val_range [of c] by auto
qed

lemma string2ll_body_iff:
  "(case p of [] \<Rightarrow> None
    | c # p \<Rightarrow>
        if is_digit c \<and> c \<noteq> CHR ''0'' then
          (case string2ll_loop (digit_val c) p of None \<Rightarrow> None
           | Some (v, rest) \<Rightarrow> if rest \<noteq> [] then None else f v)
        else None) = Some (r :: int) \<longleftrightarrow>
    (\<exists>w. 0 < w \<and> w \<le> ULLONG_MAX \<and> p = repr_ull (nat w) \<and> f w = Some r)"
proof (cases p)
  case Nil
  then show ?thesis using length_repr_ull_pos by (auto simp: Nil_eq_concat_conv) (metis length_greater_0_conv)
next
  case (Cons c q)
  have "(if is_digit c \<and> c \<noteq> CHR ''0'' then
      (case string2ll_loop (digit_val c) q of None \<Rightarrow> None
       | Some (v, rest) \<Rightarrow> if rest \<noteq> [] then None else f v) else None) = Some r \<longleftrightarrow>
    (\<exists>w. (is_digit c \<and> c \<noteq> CHR ''0'' \<and> string2ll_loop (digit_val c) q = Some (w, [])) \<and> f w = Some r)"
    by (simp split: option.splits prod.splits)
  then show ?thesis unfolding string2ll_digits_iff by (simp add: Cons)
qed

lemma repr_ull_no_minus: "hd (repr_ull n) \<noteq> CHR ''-''" "repr_ull n \<noteq> []"
proof -
  show ne: "repr_ull n \<noteq> []" using length_repr_ull_pos [of n] by auto
  have "is_digit (hd (repr_ull n))"
    by (induction n rule: repr_ull.induct)
      (subst repr_ull.simps, use length_repr_ull_pos in \<open>auto simp: digit_char_props(1) hd_append\<close>)
  moreover have "\<not> is_digit CHR ''-''" by code_simp
  ultimately show "hd (repr_ull n) \<noteq> CHR ''-''" by metis
qed

lemma repr_ull_0: "repr_ull 0 = ''0''"
  by (simp add: repr_ull.simps [of 0]) code_simp

lemma string2ll_iff: "string2ll s = Some v \<longleftrightarrow> in_int64 v \<and> s = repr_ll v"
proof (cases "s = [] \<or> s = ''0''")
  case True
  have "repr_ll v = ''0'' \<longleftrightarrow> v = 0"
  proof
    assume a: "repr_ll v = ''0''"
    show "v = 0"
    proof (rule ccontr)
      assume "v \<noteq> 0"
      then show False
        using a repr_ull_first [of "nat v"] by (cases "v < 0") (auto simp: repr_ll_def)
    qed
  qed (simp add: repr_ll_def repr_ull_0)
  moreover have "repr_ll v \<noteq> []" using repr_ull_no_minus(2) by (simp add: repr_ll_def)
  ultimately show ?thesis using True by (auto simp: string2ll_def in_int64_def)
next
  case False
  show ?thesis
  proof (cases "hd s = CHR ''-''")
    case True
    then have s: "s = CHR ''-'' # tl s" using False by (cases s) auto
    have "string2ll s = Some v \<longleftrightarrow> (\<exists>w. 0 < w \<and> w \<le> ULLONG_MAX \<and> tl s = repr_ull (nat w) \<and>
      (if w > - (LLONG_MIN + 1) + 1 then None else Some (- w)) = Some v)"
      unfolding string2ll_body_iff [symmetric] using False True
      by (simp add: string2ll_def Let_def split: list.splits option.splits)
    also have "\<dots> \<longleftrightarrow> v < 0 \<and> LLONG_MIN \<le> v \<and> tl s = repr_ull (nat (- v))"
      by (auto split: if_splits intro!: exI [of _ "- v"])
    also have "\<dots> \<longleftrightarrow> in_int64 v \<and> s = repr_ll v"
    proof (cases "v < 0")
      case True
      then show ?thesis by (subst (2) s) (auto simp: in_int64_def repr_ll_def)
    next
      case False
      then show ?thesis using repr_ull_no_minus(1) [of "nat v"] True by (auto simp: repr_ll_def)
    qed
    finally show ?thesis .
  next
    case nm: False
    have "string2ll s = Some v \<longleftrightarrow> (\<exists>w. 0 < w \<and> w \<le> ULLONG_MAX \<and> s = repr_ull (nat w) \<and>
      (if w > LLONG_MAX then None else Some w) = Some v)"
      unfolding string2ll_body_iff [symmetric] using False nm
      by (simp add: string2ll_def Let_def split: list.splits option.splits)
    also have "\<dots> \<longleftrightarrow> 0 < v \<and> v \<le> LLONG_MAX \<and> s = repr_ull (nat v)"
      by (rule iffI, force split: if_splits, rule exI [of _ v], simp)
    also have "\<dots> \<longleftrightarrow> in_int64 v \<and> s = repr_ll v"
    proof (cases "0 < v")
      case True
      then show ?thesis by (auto simp: in_int64_def repr_ll_def)
    next
      case neg: False
      then have "s \<noteq> repr_ll v" using nm False by (cases "v = 0") (auto simp: repr_ll_def repr_ull_0)
      with neg show ?thesis by simp
    qed
    finally show ?thesis .
  qed
qed

subsection \<open>Globbing: a matcher on parsed patterns\<close>

text \<open>
  The reference: a pattern is parsed into tokens once, and the tokens are matched by the
  textbook recursion. An escaped character inside a class is compared exactly even when the
  comparison ignores case, as in the source.
\<close>

datatype citem = CEscaped char | CRange char char | CPlain char
datatype gtok = GStar | GAny | GClass bool "citem list" | GLit char

fun citem_match :: "bool \<Rightarrow> char \<Rightarrow> citem \<Rightarrow> bool" where
  "citem_match nc ch (CEscaped c) = (c = ch)"
| "citem_match nc ch (CRange a b) = in_range nc a b ch"
| "citem_match nc ch (CPlain c) = char_eq nc c ch"

fun gmatch :: "bool \<Rightarrow> gtok list \<Rightarrow> string \<Rightarrow> bool" where
  "gmatch nc [] s = (s = [])"
| "gmatch nc (GStar # ts) [] = gmatch nc ts []"
| "gmatch nc (GStar # ts) (ch # s) = (gmatch nc ts (ch # s) \<or> gmatch nc (GStar # ts) s)"
| "gmatch nc (GAny # ts) (ch # s) = gmatch nc ts s"
| "gmatch nc (GClass neg cs # ts) (ch # s) = ((neg \<noteq> list_ex (citem_match nc ch) cs) \<and> gmatch nc ts s)"
| "gmatch nc (GLit c # ts) (ch # s) = (char_eq nc c ch \<and> gmatch nc ts s)"
| "gmatch nc ts [] = False"

text \<open>The items of a class and the pattern behind its closing bracket.\<close>

function parse_class :: "string \<Rightarrow> citem list \<times> string" where
  "parse_class p =
     (if pat_at p 0 = CHR 0x5C \<and> length p \<ge> 2 then apfst ((#) (CEscaped (p ! 1))) (parse_class (drop 2 p))
      else if p = [] \<or> p ! 0 = CHR '']'' then ([], tl p)
      else if length p \<ge> 3 \<and> p ! 1 = CHR ''-'' then
        apfst ((#) (CRange (p ! 0) (p ! 2))) (parse_class (drop 3 p))
      else apfst ((#) (CPlain (p ! 0))) (parse_class (drop 1 p)))"
  by pat_completeness auto
termination
  by (relation "measure length") auto

declare parse_class.simps [simp del]

lemma length_parse_class: "length (snd (parse_class p)) \<le> length p"
  by (induction p rule: parse_class.induct) (subst parse_class.simps, auto)

lemma parse_class_length:
  "length q \<le> length p \<Longrightarrow> length (snd (parse_class q)) < Suc (length p)"
  using length_parse_class [of q] by simp

function parse_glob :: "string \<Rightarrow> gtok list" where
  "parse_glob [] = []"
| "parse_glob (c # p) =
     (if c = CHR ''*'' then GStar # parse_glob p
      else if c = CHR ''?'' then GAny # parse_glob p
      else if c = CHR ''['' then
        let neg = (pat_at p 0 = CHR 0x5E); q = (if neg then tl p else p)
        in GClass neg (fst (parse_class q)) # parse_glob (snd (parse_class q))
      else if c = CHR 0x5C \<and> p \<noteq> [] then GLit (hd p) # parse_glob (tl p)
      else GLit c # parse_glob p)"
  by pat_completeness auto
termination
  by (relation "measure length")
    (auto intro: parse_class_length)

lemma class_loop_parse:
  "fst (class_loop nc ch p m) = (m \<or> list_ex (citem_match nc ch) (fst (parse_class p)))"
  "tl (snd (class_loop nc ch p m)) = snd (parse_class p)"
  by (induction nc ch p m rule: class_loop.induct)
    (subst class_loop.simps, subst parse_class.simps, auto simp: pat_at_def)+

lemma gmatch_star_star: "gmatch nc (GStar # GStar # ts) s = gmatch nc (GStar # ts) s"
  by (induction s) auto

lemma gmatch_star_all: "gmatch nc [GStar] s"
  by (induction s) auto

lemma skip_stars_tl:
  "gmatch nc (parse_glob (CHR ''*'' # p)) s = gmatch nc (GStar # parse_glob (tl (skip_stars (CHR ''*'' # p)))) s"
  "skip_stars (CHR ''*'' # p) \<noteq> []"
  "tl (skip_stars (CHR ''*'' # p)) \<noteq> [] \<Longrightarrow> hd (tl (skip_stars (CHR ''*'' # p))) \<noteq> CHR ''*''"
proof (induction p)
  case Nil
  {
    case 1 show ?case by (simp add: pat_at_def)
  next
    case 2 show ?case by (simp add: pat_at_def)
  next
    case 3 then show ?case by (simp add: pat_at_def)
  }
next
  case (Cons c p)
  {
    case 1 show ?case using Cons(1) by (cases "c = CHR ''*''") (auto simp: pat_at_def gmatch_star_star)
  next
    case 2 show ?case using Cons(2) by (cases "c = CHR ''*''") (auto simp: pat_at_def)
  next
    case 3 then show ?case using Cons(3) by (cases "c = CHR ''*''") (auto simp: pat_at_def)
  }
qed

lemma parse_glob_ends: "gmatch nc (parse_glob p) [] \<longleftrightarrow> dropWhile (\<lambda>x. x = CHR ''*'') p = []"
  by (induction p rule: parse_glob.induct) (auto simp: Let_def)

lemma parse_glob_not_empty:
  "p \<noteq> [] \<Longrightarrow> hd p \<noteq> CHR ''*'' \<Longrightarrow> \<not> gmatch nc (parse_glob p) []"
  unfolding parse_glob_ends by (cases p) simp_all

lemma stringmatchlen_gmatch:
  "stringmatchlen nc p s = (if s = [] then p = [] else gmatch nc (parse_glob p) s)"
  "p \<noteq> [] \<Longrightarrow> hd p \<noteq> CHR ''*'' \<Longrightarrow> star_loop nc p s = gmatch nc (GStar # parse_glob p) s"
proof (induction nc p s and nc p s rule: stringmatchlen_star_loop.induct)
  case (3 nc c p ch s)
  show ?case
  proof (cases "c = CHR ''*''")
    case True
    let ?q = "skip_stars (CHR ''*'' # p)"
    show ?thesis
    proof (cases "length ?q = 1")
      case len: True
      then have "tl ?q = []" by (cases ?q) auto
      then show ?thesis using True len skip_stars_tl(1) [of nc p "ch # s"] gmatch_star_all by simp
    next
      case False
      then have "tl ?q \<noteq> []" using skip_stars_tl(2) [of p] by (cases ?q) auto
      then show ?thesis
        using "3.IH"(1) [OF True refl] False True skip_stars_tl(1) [of nc p "ch # s"] skip_stars_tl(3) [of p]
        by (simp add: Let_def del: skip_stars.simps)
    qed
  next
    case star: False
    show ?thesis
    proof (cases "c = CHR ''?''")
      case True
      then show ?thesis using "3.IH"(2) star by (simp add: parse_glob_ends)
    next
      case any: False
      show ?thesis
      proof (cases "c = CHR ''[''")
        case True
        define neg where "neg = (pat_at p 0 = CHR 0x5E)"
        define q where "q = (if neg then tl p else p)"
        obtain m r where cl: "class_loop nc ch q False = (m, r)" by fastforce
        have "m = list_ex (citem_match nc ch) (fst (parse_class q))" "tl r = snd (parse_class q)"
          using class_loop_parse [of nc ch q False] cl by simp_all
        then show ?thesis
          using "3.IH"(3) [OF star any True neg_def q_def cl [symmetric] refl refl refl] True star any
          by (simp add: neg_def [symmetric] q_def [symmetric] Let_def cl parse_glob_ends)
      next
        case cls: False
        obtain c' q where x: "(if c = CHR 0x5C \<and> p \<noteq> [] then (hd p, tl p) else (c, p)) = (c', q)"
          by fastforce
        then have "parse_glob (c # p) = GLit c' # parse_glob q"
          using star any cls by (auto split: if_splits)
        then show ?thesis
          using "3.IH"(4) [OF star any cls x [symmetric] refl] star any cls
          by (cases "s = []") (simp_all add: x parse_glob_ends del: parse_glob.simps)
      qed
    qed
  qed
next
  case (5 nc p ch s)
  then show ?case by simp
qed (simp_all add: parse_glob_not_empty)

subsection \<open>Properties\<close>

text \<open>
  C25. \<^verbatim>\<open>ll2string\<close> writes the decimal numeral of a \<open>long long\<close> (the most negative one
  included) and its terminating null at the start of the buffer, touches nothing behind them
  and returns the numeral's length; when the buffer is too small it writes nothing and
  returns 0.
\<close>

theorem ll2string_correct:
  assumes "in_int64 v" and "dstlen \<le> length dst"
  shows "ll2string dst dstlen v =
    (if length (repr_ll v) < dstlen
     then (mem_write 0 (repr_ll v @ [NUL]) dst, length (repr_ll v)) else (dst, 0))"
  using assms by (rule ll2string_writes)

theorem ll2string_correct_witness:
  "ll2string ''xxxxxxx'' 6 (- 1234) = (''-1234'' @ [NUL] @ ''x'', 5)"
proof -
  have h: "in_int64 (- 1234)" "6 \<le> length ''xxxxxxx''" by (simp_all add: in_int64_def)
  have r: "repr_ll (- 1234) = ''-1234''"
    by (simp add: repr_ll_def repr_ull.simps [of 1234] repr_ull.simps [of 123] repr_ull.simps [of 12]
      repr_ull.simps [of "Suc 0"] digit_char_simps)
  show ?thesis using ll2string_correct [OF h] by (simp add: r mem_write_def)
qed

text \<open>
  C10. \<^verbatim>\<open>string2ll\<close> accepts exactly the decimal numerals of the \<open>long long\<close> values, as
  \<open>ll2string\<close> prints them, and returns their value: no other spelling, no overflow, no
  trailing byte is accepted, and no value is lost.
\<close>

theorem string2ll_correct: "string2ll s = Some v \<longleftrightarrow> in_int64 v \<and> s = repr_ll v"
  by (rule string2ll_iff)

text \<open>
  C19. On a non-empty string \<^verbatim>\<open>stringmatchlen\<close>, with its backtracking loop, its skipping of
  repeated stars and its early exits, decides whether the parsed pattern matches; on the
  empty string it accepts the empty pattern only (so a lone star does not match it).
\<close>

theorem stringmatchlen_correct:
  "stringmatchlen nocase pattern str =
    (if str = [] then pattern = [] else gmatch nocase (parse_glob pattern) str)"
  by (rule stringmatchlen_gmatch)

end
