(* ===== verification/Sds.thy ===== *)
theory Sds
  imports Util "HOL-Library.Monad_Syntax"
begin

text \<open>
  \<^verbatim>\<open>sds.c\<close> and \<^verbatim>\<open>sds.h\<close>: dynamic strings. A string is a header (its type, the used
  length and, for every type but the smallest, the allocated length, in fields whose width
  depends on the type) and a buffer that always has a null behind the used part.

  The first part models the header and the buffer and shows that every operation keeps the
  invariant and has the expected effect on the string \<open>sds_str\<close>. The second part models
  the routines built on appending (quoting, joining) over an interface of which the header
  and buffer model is an instance, and the routines that take strings apart.

  What the allocator does is a parameter: how many bytes it really gives for a request and
  what fresh bytes hold. An assertion that fails and a \<open>NULL\<close> result are \<open>None\<close>.
\<close>

subsection \<open>Header and buffer\<close>

datatype sdstype = SDS_TYPE_5 | SDS_TYPE_8 | SDS_TYPE_16 | SDS_TYPE_32 | SDS_TYPE_64

record sds =
  sh_type :: sdstype
  sh_len :: nat
  sh_alloc :: nat
  sh_buf :: string

text \<open>
  \<open>a_usable\<close>: the usable size of a block of the requested size; \<open>a_try\<close>: whether
  \<^verbatim>\<open>ztrymalloc\<close> succeeds for the size (\<^verbatim>\<open>zmalloc\<close> never returns on failure);
  \<open>a_junk\<close>: what fresh bytes hold.
\<close>

record allocator =
  a_usable :: "nat \<Rightarrow> nat"
  a_try :: "nat \<Rightarrow> bool"
  a_junk :: "nat \<Rightarrow> char"

text \<open>The documented contract: the usable size is at least the requested one.\<close>

definition allocator_ok :: "allocator \<Rightarrow> bool" where
  "allocator_ok a \<longleftrightarrow> (\<forall>n. n \<le> a_usable a n)"

abbreviation size_t :: "nat \<Rightarrow> nat" where "size_t n \<equiv> n mod 18446744073709551616"

fun sdsHdrSize :: "sdstype \<Rightarrow> nat" where
  "sdsHdrSize SDS_TYPE_5 = 1"
| "sdsHdrSize SDS_TYPE_8 = 3"
| "sdsHdrSize SDS_TYPE_16 = 5"
| "sdsHdrSize SDS_TYPE_32 = 9"
| "sdsHdrSize SDS_TYPE_64 = 17"

definition sdsReqType :: "nat \<Rightarrow> sdstype" where
  "sdsReqType n =
     (if n < 32 then SDS_TYPE_5
      else if n < 256 then SDS_TYPE_8
      else if n < 65536 then SDS_TYPE_16
      else if n < 4294967296 then SDS_TYPE_32
      else SDS_TYPE_64)"

fun sdsTypeMaxSize :: "sdstype \<Rightarrow> nat" where
  "sdsTypeMaxSize SDS_TYPE_5 = 31"
| "sdsTypeMaxSize SDS_TYPE_8 = 255"
| "sdsTypeMaxSize SDS_TYPE_16 = 65535"
| "sdsTypeMaxSize SDS_TYPE_32 = 4294967295"
| "sdsTypeMaxSize SDS_TYPE_64 = 18446744073709551615"

definition sdslen :: "sds \<Rightarrow> nat" where
  "sdslen s = sh_len s"

definition sdsavail :: "sds \<Rightarrow> nat" where
  "sdsavail s = (if sh_type s = SDS_TYPE_5 then 0 else sh_alloc s - sh_len s)"

text \<open>Storing a length truncates it to the width of the field (5 bits of the flags for type 5).\<close>

definition sdssetlen :: "sds \<Rightarrow> nat \<Rightarrow> sds" where
  "sdssetlen s newlen = s\<lparr>sh_len := newlen mod (sdsTypeMaxSize (sh_type s) + 1)\<rparr>"

definition sdsinclen :: "sds \<Rightarrow> nat \<Rightarrow> sds" where
  "sdsinclen s inc = s\<lparr>sh_len := (sh_len s + inc) mod (sdsTypeMaxSize (sh_type s) + 1)\<rparr>"

definition sdsalloc :: "sds \<Rightarrow> nat" where
  "sdsalloc s = (if sh_type s = SDS_TYPE_5 then sh_len s else sh_alloc s)"

definition sdssetalloc :: "sds \<Rightarrow> nat \<Rightarrow> sds" where
  "sdssetalloc s newlen =
     (if sh_type s = SDS_TYPE_5 then s
      else s\<lparr>sh_alloc := newlen mod (sdsTypeMaxSize (sh_type s) + 1)\<rparr>)"

datatype sds_init = InitNull | InitNoinit | InitBytes string

definition priv_sdsnewlen :: "allocator \<Rightarrow> sds_init \<Rightarrow> nat \<Rightarrow> bool \<Rightarrow> sds option" where
  "priv_sdsnewlen a init initlen trymalloc =
     (let type = sdsReqType initlen;
          type = (if type = SDS_TYPE_5 \<and> initlen = 0 then SDS_TYPE_8 else type);
          hdrlen = sdsHdrSize type;
          size = size_t (hdrlen + initlen + 1)
      in if \<not> size_t (initlen + hdrlen + 1) > initlen then None
         else if trymalloc \<and> \<not> a_try a size then None
         else
           let usable = a_usable a size;
               buf = map (\<lambda>i. case init of InitNull \<Rightarrow> if i < initlen + 1 then NUL else a_junk a i
                            | _ \<Rightarrow> a_junk a i) [0..<usable - hdrlen];
               usable = usable - hdrlen - 1;
               usable = (if usable > sdsTypeMaxSize type then sdsTypeMaxSize type else usable);
               s = \<lparr>sh_type = type, sh_len = initlen mod (sdsTypeMaxSize type + 1),
                    sh_alloc = (if type = SDS_TYPE_5 then 0 else usable mod (sdsTypeMaxSize type + 1)),
                    sh_buf = buf\<rparr>;
               s = (case init of
                      InitBytes t \<Rightarrow> if initlen > 0 then s\<lparr>sh_buf := mem_write 0 (take initlen t) (sh_buf s)\<rparr> else s
                    | _ \<Rightarrow> s)
           in Some (s\<lparr>sh_buf := (sh_buf s)[initlen := NUL]\<rparr>))"

definition sdsnewlen :: "allocator \<Rightarrow> string \<Rightarrow> sds option" where
  "sdsnewlen a t = priv_sdsnewlen a (InitBytes t) (length t) False"

definition sdstrynewlen :: "allocator \<Rightarrow> string \<Rightarrow> sds option" where
  "sdstrynewlen a t = priv_sdsnewlen a (InitBytes t) (length t) True"

definition sdsempty :: "allocator \<Rightarrow> sds option" where
  "sdsempty a = sdsnewlen a ''''"

text \<open>The used part of the buffer: the string an \<open>sds\<close> stands for.\<close>

definition sds_str :: "sds \<Rightarrow> string" where
  "sds_str s = take (sdslen s) (sh_buf s)"

definition sdsdup :: "allocator \<Rightarrow> sds \<Rightarrow> sds option" where
  "sdsdup a s = sdsnewlen a (take (sdslen s) (sh_buf s))"

definition sdsupdatelen :: "sds \<Rightarrow> sds" where
  "sdsupdatelen s = sdssetlen s (length (takeWhile (\<lambda>c. c \<noteq> NUL) (sh_buf s)))"

definition sdsclear :: "sds \<Rightarrow> sds" where
  "sdsclear s = (let s = sdssetlen s 0 in s\<lparr>sh_buf := (sh_buf s)[0 := NUL]\<rparr>)"

abbreviation SDS_MAX_PREALLOC :: nat where "SDS_MAX_PREALLOC \<equiv> 1048576"

definition sdsMakeRoomFor :: "allocator \<Rightarrow> sds \<Rightarrow> nat \<Rightarrow> sds option" where
  "sdsMakeRoomFor a s addlen =
     (if sdsavail s \<ge> addlen then Some s
      else
        let oldtype = sh_type s;
            len = sdslen s;
            newlen = size_t (len + addlen)
        in if \<not> newlen > len then None
           else
             let newlen = (if newlen < SDS_MAX_PREALLOC then newlen * 2
                           else size_t (newlen + SDS_MAX_PREALLOC));
                 type = sdsReqType newlen;
                 type = (if type = SDS_TYPE_5 then SDS_TYPE_8 else type);
                 hdrlen = sdsHdrSize type
             in if \<not> size_t (hdrlen + newlen + 1) > len then None
                else
                  let usable = a_usable a (size_t (hdrlen + newlen + 1));
                      s = (if oldtype = type
                           then s\<lparr>sh_buf := zrealloc (a_junk a) (sh_buf s) (usable - hdrlen)\<rparr>
                           else sdssetlen
                             \<lparr>sh_type = type, sh_len = 0, sh_alloc = 0,
                              sh_buf = mem_write 0 (take (len + 1) (sh_buf s))
                                         (map (a_junk a) [0..<usable - hdrlen])\<rparr> len);
                      usable = usable - hdrlen - 1;
                      usable = (if usable > sdsTypeMaxSize type then sdsTypeMaxSize type else usable)
                  in Some (sdssetalloc s usable))"

definition sdsRemoveFreeSpace :: "allocator \<Rightarrow> sds \<Rightarrow> sds option" where
  "sdsRemoveFreeSpace a s =
     (let oldtype = sh_type s; len = sdslen s in
      if sdsavail s = 0 then Some s
      else
        let type = sdsReqType len;
            s = (if oldtype = type \<or> type \<notin> {SDS_TYPE_5, SDS_TYPE_8}
                 then s\<lparr>sh_buf := zrealloc (a_junk a) (sh_buf s) (len + 1)\<rparr>
                 else sdssetlen
                   \<lparr>sh_type = type, sh_len = 0, sh_alloc = 0, sh_buf = take (len + 1) (sh_buf s)\<rparr> len)
        in Some (sdssetalloc s len))"

definition sdsAllocSize :: "sds \<Rightarrow> nat" where
  "sdsAllocSize s = sdsHdrSize (sh_type s) + sdsalloc s + 1"

text \<open>The guards of \<^verbatim>\<open>sdsIncrLen\<close>, with the unsigned conversions of each case.\<close>

definition sdsIncrLen_guard :: "sds \<Rightarrow> int \<Rightarrow> bool" where
  "sdsIncrLen_guard s incr =
     (case sh_type s of
        SDS_TYPE_5 \<Rightarrow> (incr > 0 \<and> int (sh_len s) + incr < 32) \<or>
                      (incr < 0 \<and> int (sh_len s) \<ge> (- incr) mod 4294967296)
      | SDS_TYPE_8 \<Rightarrow> (incr \<ge> 0 \<and> int (sh_alloc s) - int (sh_len s) \<ge> incr) \<or>
                      (incr < 0 \<and> int (sh_len s) \<ge> (- incr) mod 4294967296)
      | SDS_TYPE_16 \<Rightarrow> (incr \<ge> 0 \<and> int (sh_alloc s) - int (sh_len s) \<ge> incr) \<or>
                      (incr < 0 \<and> int (sh_len s) \<ge> (- incr) mod 4294967296)
      | SDS_TYPE_32 \<Rightarrow> (incr \<ge> 0 \<and> int (sh_alloc s) - int (sh_len s) \<ge> incr mod 4294967296) \<or>
                      (incr < 0 \<and> int (sh_len s) \<ge> (- incr) mod 4294967296)
      | SDS_TYPE_64 \<Rightarrow> (incr \<ge> 0 \<and> int (sh_alloc s) - int (sh_len s) \<ge> uint64 incr) \<or>
                      (incr < 0 \<and> int (sh_len s) \<ge> uint64 (- incr)))"

definition sdsIncrLen :: "sds \<Rightarrow> int \<Rightarrow> sds option" where
  "sdsIncrLen s incr =
     (if \<not> sdsIncrLen_guard s incr then None
      else
        let s = s\<lparr>sh_len := nat ((int (sh_len s) + incr) mod (int (sdsTypeMaxSize (sh_type s)) + 1))\<rparr>
        in Some (s\<lparr>sh_buf := (sh_buf s)[sh_len s := NUL]\<rparr>))"

definition sdsgrowzero :: "allocator \<Rightarrow> sds \<Rightarrow> nat \<Rightarrow> sds option" where
  "sdsgrowzero a s len =
     (let curlen = sdslen s in
      if len \<le> curlen then Some s
      else do {
        s \<leftarrow> sdsMakeRoomFor a s (len - curlen);
        let s = s\<lparr>sh_buf := mem_write curlen (replicate (len - curlen + 1) NUL) (sh_buf s)\<rparr>;
        Some (sdssetlen s len)
      })"

definition sdscatlen :: "allocator \<Rightarrow> sds \<Rightarrow> string \<Rightarrow> sds option" where
  "sdscatlen a s t =
     (let curlen = sdslen s; len = length t in do {
        s \<leftarrow> sdsMakeRoomFor a s len;
        let s = s\<lparr>sh_buf := mem_write curlen t (sh_buf s)\<rparr>;
        let s = sdssetlen s (curlen + len);
        Some (s\<lparr>sh_buf := (sh_buf s)[curlen + len := NUL]\<rparr>)
      })"

definition sdscatsds :: "allocator \<Rightarrow> sds \<Rightarrow> sds \<Rightarrow> sds option" where
  "sdscatsds a s t = sdscatlen a s (take (sdslen t) (sh_buf t))"

definition sdscpylen :: "allocator \<Rightarrow> sds \<Rightarrow> string \<Rightarrow> sds option" where
  "sdscpylen a s t =
     (let len = length t in do {
        s \<leftarrow> (if sdsalloc s < len then sdsMakeRoomFor a s (len - sdslen s) else Some s);
        let s = s\<lparr>sh_buf := mem_write 0 t (sh_buf s)\<rparr>;
        let s = s\<lparr>sh_buf := (sh_buf s)[len := NUL]\<rparr>;
        Some (sdssetlen s len)
      })"

definition sdssubstr :: "sds \<Rightarrow> nat \<Rightarrow> nat \<Rightarrow> sds" where
  "sdssubstr s start len =
     (let oldlen = sdslen s;
          (start, len) = (if start \<ge> oldlen then (0, 0) else (start, len));
          len = (if len > oldlen - start then oldlen - start else len);
          s = (if len > 0 then s\<lparr>sh_buf := memmove 0 start len (sh_buf s)\<rparr> else s);
          s = s\<lparr>sh_buf := (sh_buf s)[len := NUL]\<rparr>
      in sdssetlen s len)"

text \<open>
  The indexes are \<open>ssize_t\<close>: \<^verbatim>\<open>len + start\<close> is computed in \<open>size_t\<close> and converted back,
  which for the lengths at hand is the integer sum; a start still negative becomes a huge
  \<open>size_t\<close> argument of \<open>sdssubstr\<close>.
\<close>

definition sdsrange :: "sds \<Rightarrow> int \<Rightarrow> int \<Rightarrow> sds" where
  "sdsrange s start stop =
     (let len = sdslen s in
      if len = 0 then s
      else
        let start = (if start < 0 then int len + start else start);
            stop = (if stop < 0 then int len + stop else stop);
            newlen = (if start > stop then 0 else (stop - start) + 1)
        in sdssubstr s (nat (uint64 start)) (nat (uint64 newlen)))"





definition sdsmapchars :: "sds \<Rightarrow> string \<Rightarrow> string \<Rightarrow> sds" where
  "sdsmapchars s from to =
     s\<lparr>sh_buf := map (\<lambda>c. memmapchars_at c from to) (take (sdslen s) (sh_buf s)) @ drop (sdslen s) (sh_buf s)\<rparr>"

subsection \<open>The invariant and the effect of each operation\<close>

text \<open>
  \<open>sds_fit\<close>: the lengths are consistent; \<open>sds_inv\<close>: and a null follows the string. Some routines
  leave the null out until they are done.
\<close>

definition sds_fit :: "sds \<Rightarrow> bool" where
  "sds_fit s \<longleftrightarrow>
     sdslen s \<le> sdsalloc s \<and> sdsalloc s \<le> sdsTypeMaxSize (sh_type s) \<and> sdsalloc s < length (sh_buf s)"

definition sds_inv :: "sds \<Rightarrow> bool" where
  "sds_inv s \<longleftrightarrow>
     sdslen s \<le> sdsalloc s \<and> sdsalloc s \<le> sdsTypeMaxSize (sh_type s) \<and>
     sdsalloc s < length (sh_buf s) \<and> sh_buf s ! sdslen s = NUL"

lemma sds_inv_iff: "sds_inv s \<longleftrightarrow> sds_fit s \<and> sh_buf s ! sdslen s = NUL"
  by (auto simp: sds_inv_def sds_fit_def)

text \<open>Lengths for which no size computation of the module wraps around.\<close>

abbreviation SDS_LIMIT :: nat where "SDS_LIMIT \<equiv> 18446744073706455000"

lemma sdsReqType_max: "n < 18446744073709551616 \<Longrightarrow> n \<le> sdsTypeMaxSize (sdsReqType n)"
  by (auto simp: sdsReqType_def)

lemma sdsHdrSize_bound: "sdsHdrSize t \<le> 17" "0 < sdsHdrSize t"
  by (cases t; simp)+

lemma sds_inv_len: "sds_inv s \<Longrightarrow> sdslen s < length (sh_buf s)"
  by (simp add: sds_inv_def)

lemma length_sds_str: "sds_inv s \<Longrightarrow> length (sds_str s) = sdslen s"
  using sds_inv_len [of s] by (simp add: sds_str_def)

lemma sdsMakeRoomFor_grow:
  assumes "allocator_ok a" and "sds_fit s" and "sdslen s + addlen < SDS_LIMIT"
    and grow: "sdsavail s < addlen"
  shows "\<exists>s'. sdsMakeRoomFor a s addlen = Some s' \<and> sds_fit s' \<and> sdslen s' = sdslen s \<and>
    take (sdslen s + 1) (sh_buf s') = take (sdslen s + 1) (sh_buf s) \<and> sdslen s + addlen \<le> sdsalloc s' \<and>
    sh_type s' \<noteq> SDS_TYPE_5"
proof -
  let ?n = "sdslen s"
  define new where "new = (if ?n + addlen < SDS_MAX_PREALLOC then (?n + addlen) * 2
    else ?n + addlen + SDS_MAX_PREALLOC)"
  define ty where "ty = (if sdsReqType new = SDS_TYPE_5 then SDS_TYPE_8 else sdsReqType new)"
  define h where "h = sdsHdrSize ty"
  define us where "us = a_usable a (h + new + 1)"
  define al where "al = (if us - h - 1 > sdsTypeMaxSize ty then sdsTypeMaxSize ty else us - h - 1)"
  define buf where "buf = (if sh_type s = ty then zrealloc (a_junk a) (sh_buf s) (us - h)
    else mem_write 0 (take (?n + 1) (sh_buf s)) (map (a_junk a) [0..<us - h]))"
  have new: "new < 18446744073709551000" "?n + addlen \<le> new" "?n < new"
    using assms(3) grow by (auto simp: new_def)
  have h: "h \<le> 17" by (simp add: h_def sdsHdrSize_bound)
  have ty: "new \<le> sdsTypeMaxSize ty" "ty \<noteq> SDS_TYPE_5"
    using new(1) sdsReqType_max [of new] by (auto simp: ty_def)
  have us: "h + new + 1 \<le> us" using assms(1) by (simp add: us_def allocator_ok_def)
  have al: "new \<le> al" "al \<le> sdsTypeMaxSize ty" "al < us - h"
    using us ty(1) by (auto simp: al_def)
  have eq: "sdsMakeRoomFor a s addlen = Some \<lparr>sh_type = ty, sh_len = ?n, sh_alloc = al, sh_buf = buf\<rparr>"
  proof -
    have sz: "size_t (?n + addlen) = ?n + addlen" "size_t (?n + addlen + SDS_MAX_PREALLOC) = ?n + addlen + SDS_MAX_PREALLOC"
      "size_t (h + new + 1) = h + new + 1" "al mod (sdsTypeMaxSize ty + 1) = al" "?n mod (sdsTypeMaxSize ty + 1) = ?n"
      "\<not> sdsavail s \<ge> addlen" "?n < ?n + addlen" "h + new + 1 > ?n"
      using assms(3) new h al ty(1) grow by auto
    show ?thesis
      unfolding sdsMakeRoomFor_def Let_def sz if_not_P [OF sz(6)] new_def [symmetric] ty_def [symmetric]
        h_def [symmetric] us_def [symmetric] al_def [symmetric]
      using sz ty(2) by (cases s) (auto simp: sdssetalloc_def sdssetlen_def sdslen_def buf_def)
  qed
  have nb: "?n < length (sh_buf s)" using assms(2) by (simp add: sds_fit_def)
  have len: "length buf = us - h"
    using nb us new(3) by (auto simp: buf_def length_zrealloc length_mem_write)
  have keep: "take (?n + 1) buf = take (?n + 1) (sh_buf s)"
    using nb us new(3) by (auto simp: buf_def zrealloc_def mem_write_def)
  show ?thesis
    using eq al ty len keep new by (auto simp: sds_fit_def sdsalloc_def sdslen_def)
qed

lemma sdsMakeRoomFor_fit:
  assumes "allocator_ok a" and "sds_fit s" and "sdslen s + addlen < SDS_LIMIT"
  obtains s' where "sdsMakeRoomFor a s addlen = Some s'" and "sds_fit s'" and "sdslen s' = sdslen s"
    and "take (sdslen s + 1) (sh_buf s') = take (sdslen s + 1) (sh_buf s)" and "sdslen s + addlen \<le> sdsalloc s'"
    and "sdsavail s < addlen \<Longrightarrow> sh_type s' \<noteq> SDS_TYPE_5"
proof (cases "sdsavail s < addlen")
  case True
  then show ?thesis using sdsMakeRoomFor_grow [OF assms] that by blast
next
  case False
  then have "sdslen s + addlen \<le> sdsalloc s"
    using assms(2) by (auto simp: sds_fit_def sdsavail_def sdsalloc_def sdslen_def split: if_splits)
  with False assms(2) show ?thesis by (intro that [of s]) (auto simp: sdsMakeRoomFor_def)
qed

lemma sdsMakeRoomFor_room:
  assumes "allocator_ok a" and "sds_inv s" and "sdslen s + addlen < SDS_LIMIT"
  obtains s' where "sdsMakeRoomFor a s addlen = Some s'" and "sds_inv s'" and "sdslen s' = sdslen s"
    and "take (sdslen s) (sh_buf s') = take (sdslen s) (sh_buf s)" and "sdslen s + addlen \<le> sdsalloc s'"
proof -
  have "sds_fit s" "sh_buf s ! sdslen s = NUL" using assms(2) by (auto simp: sds_inv_iff)
  then obtain r where r: "sdsMakeRoomFor a s addlen = Some r" "sds_fit r" "sdslen r = sdslen s"
    "take (sdslen s + 1) (sh_buf r) = take (sdslen s + 1) (sh_buf s)" "sdslen s + addlen \<le> sdsalloc r"
    using sdsMakeRoomFor_fit [OF assms(1) _ assms(3)] by metis
  then have "take (sdslen s) (sh_buf r) = take (sdslen s) (sh_buf s)" "sh_buf r ! sdslen s = sh_buf s ! sdslen s"
    by (metis le_add1 min.absorb1 take_take, metis less_add_one nth_take r(4))
  with r \<open>sh_buf s ! sdslen s = NUL\<close> show ?thesis by (intro that [of r]) (auto simp: sds_inv_iff)
qed

text \<open>
  Every operation ends alike: \<open>n\<close> bytes of content are in place within the allocated part,
  a null is stored behind them and the length is set.
\<close>

definition sds_finish :: "sds \<Rightarrow> nat \<Rightarrow> sds" where
  "sds_finish s n = sdssetlen (s\<lparr>sh_buf := (sh_buf s)[n := NUL]\<rparr>) n"

lemma sds_finish_correct:
  assumes "sdslen s \<le> sdsalloc s" and "sdsalloc s \<le> sdsTypeMaxSize (sh_type s)"
    and "n \<le> sdsalloc s" and "sdsalloc s < length (sh_buf s)"
  shows "sds_inv (sds_finish s n)" "sds_str (sds_finish s n) = take n (sh_buf s)"
proof -
  have "n mod (sdsTypeMaxSize (sh_type s) + 1) = n" using assms by simp
  then show "sds_inv (sds_finish s n)" "sds_str (sds_finish s n) = take n (sh_buf s)"
    using assms by (auto simp: sds_finish_def sdssetlen_def sds_inv_def sds_str_def sdslen_def sdsalloc_def)
qed

lemma sdscatlen_append:
  assumes "allocator_ok a" and "sds_inv s" and "sdslen s + length t < SDS_LIMIT"
  obtains s' where "sdscatlen a s t = Some s'" and "sds_inv s'" and "sds_str s' = sds_str s @ t"
proof -
  let ?n = "sdslen s"
  obtain r where r: "sdsMakeRoomFor a s (length t) = Some r" "sds_inv r" "sdslen r = ?n"
    "take ?n (sh_buf r) = take ?n (sh_buf s)" "?n + length t \<le> sdsalloc r"
    using sdsMakeRoomFor_room [OF assms] by blast
  define q where "q = r\<lparr>sh_buf := mem_write ?n t (sh_buf r)\<rparr>"
  have room: "?n + length t < length (sh_buf r)" using r(2,5) by (auto simp: sds_inv_def)
  have q: "sdslen q = ?n" "sdsalloc q = sdsalloc r" "sh_type q = sh_type r" "length (sh_buf q) = length (sh_buf r)"
    using room r(3) by (auto simp: q_def sdslen_def sdsalloc_def length_mem_write)
  have cat: "sdscatlen a s t = Some (sds_finish q (?n + length t))"
    by (simp add: sdscatlen_def r(1) q_def sds_finish_def sdssetlen_def Let_def)
  have "take (?n + length t) (sh_buf q) = take ?n (sh_buf r) @ t"
    using room by (simp add: q_def mem_write_def)
  then show ?thesis
    using sds_finish_correct [of q "?n + length t"] q r cat
    by (intro that [OF cat]) (auto simp: sds_inv_def sds_str_def)
qed

lemma sdscpylen_copy:
  assumes "allocator_ok a" and "sds_inv s" and "length t < SDS_LIMIT"
  obtains s' where "sdscpylen a s t = Some s'" and "sds_inv s'" and "sds_str s' = t"
proof -
  obtain r where r: "(if sdsalloc s < length t then sdsMakeRoomFor a s (length t - sdslen s) else Some s) = Some r"
    "sds_inv r" "length t \<le> sdsalloc r"
  proof (cases "sdsalloc s < length t")
    case True
    then have "sdslen s + (length t - sdslen s) = length t" using assms(2) by (simp add: sds_inv_def)
    with True show ?thesis
      using sdsMakeRoomFor_room [OF assms(1,2), of "length t - sdslen s"] assms(3) that by force
  next
    case False
    with assms(2) show ?thesis by (intro that [of s]) auto
  qed
  define q where "q = r\<lparr>sh_buf := mem_write 0 t (sh_buf r)\<rparr>"
  have room: "length t < length (sh_buf r)" using r(2,3) by (simp add: sds_inv_def)
  have q: "sdslen q = sdslen r" "sdsalloc q = sdsalloc r" "sh_type q = sh_type r" "length (sh_buf q) = length (sh_buf r)"
    using room by (auto simp: q_def sdslen_def sdsalloc_def length_mem_write)
  have cpy: "sdscpylen a s t = Some (sds_finish q (length t))"
    by (simp add: sdscpylen_def r(1) q_def sds_finish_def Let_def)
  have "take (length t) (sh_buf q) = t" by (simp add: q_def mem_write_def)
  then show ?thesis
    using sds_finish_correct [of q "length t"] q r by (intro that [OF cpy]) (auto simp: sds_inv_def)
qed

lemma sdsnewlen_string:
  assumes "allocator_ok a" and "length t < SDS_LIMIT"
  obtains s' where "sdsnewlen a t = Some s'" and "sds_inv s'" and "sds_str s' = t"
proof -
  let ?n = "length t"
  define ty where "ty = (if sdsReqType ?n = SDS_TYPE_5 \<and> ?n = 0 then SDS_TYPE_8 else sdsReqType ?n)"
  define h where "h = sdsHdrSize ty"
  define us where "us = a_usable a (h + ?n + 1)"
  define al where "al = (if us - h - 1 > sdsTypeMaxSize ty then sdsTypeMaxSize ty else us - h - 1)"
  define b0 where "b0 = map (a_junk a) [0..<us - h]"
  have h: "h \<le> 17" "0 < h" by (simp_all add: h_def sdsHdrSize_bound)
  have ty: "?n \<le> sdsTypeMaxSize ty" using assms(2) sdsReqType_max [of ?n] by (auto simp: ty_def)
  have us: "h + ?n + 1 \<le> us" using assms(1) by (simp add: us_def allocator_ok_def)
  have al: "?n \<le> al" "al \<le> sdsTypeMaxSize ty" "al < us - h" using us ty by (auto simp: al_def)
  define s0 where "s0 = \<lparr>sh_type = ty, sh_len = ?n, sh_alloc = (if ty = SDS_TYPE_5 then 0 else al),
    sh_buf = mem_write 0 t b0\<rparr>"
  have sz: "size_t (h + ?n + 1) = h + ?n + 1" "size_t (?n + h + 1) = h + ?n + 1"
    "\<not> \<not> h + ?n + 1 > ?n" "?n mod (sdsTypeMaxSize ty + 1) = ?n" "al mod (sdsTypeMaxSize ty + 1) = al"
    using h assms(2) ty al by auto
  have new: "sdsnewlen a t = Some (sds_finish s0 ?n)"
    unfolding sdsnewlen_def priv_sdsnewlen_def Let_def ty_def [symmetric] h_def [symmetric] sz
      us_def [symmetric] al_def [symmetric]
    using sz(4) by (simp add: s0_def sds_finish_def sdssetlen_def b0_def mem_write_def)
  have "sdslen s0 \<le> sdsalloc s0" "sdsalloc s0 \<le> sdsTypeMaxSize (sh_type s0)" "?n \<le> sdsalloc s0"
    "sdsalloc s0 < length (sh_buf s0)" "take ?n (sh_buf s0) = t"
    using ty al us by (auto simp: s0_def sdslen_def sdsalloc_def b0_def mem_write_def)
  then show ?thesis using sds_finish_correct [of s0 ?n] by (intro that [OF new]) auto
qed

lemma sdsgrowzero_pad:
  assumes "allocator_ok a" and "sds_inv s" and "len < SDS_LIMIT"
  obtains s' where "sdsgrowzero a s len = Some s'" and "sds_inv s'"
    and "sds_str s' = sds_str s @ replicate (len - sdslen s) NUL"
proof (cases "len \<le> sdslen s")
  case True
  with assms(2) show ?thesis by (intro that [of s]) (auto simp: sdsgrowzero_def)
next
  case False
  let ?n = "sdslen s" and ?k = "len - sdslen s"
  obtain r where r: "sdsMakeRoomFor a s ?k = Some r" "sds_inv r" "sdslen r = ?n"
    "take ?n (sh_buf r) = take ?n (sh_buf s)" "?n + ?k \<le> sdsalloc r"
    using sdsMakeRoomFor_room [OF assms(1,2), of ?k] assms(3) False by force
  have room: "len < length (sh_buf r)" using r(2,5) False by (simp add: sds_inv_def)
  define q where "q = r\<lparr>sh_buf := mem_write ?n (replicate ?k NUL) (sh_buf r)\<rparr>"
  have split: "replicate (?k + 1) NUL = replicate ?k NUL @ [NUL]" by (simp add: replicate_append_same)
  have "mem_write ?n (replicate (?k + 1) NUL) (sh_buf r) = (sh_buf q)[len := NUL]"
  proof -
    have "mem_write ?n (replicate (?k + 1) NUL) (sh_buf r) =
      mem_write ?n (replicate ?k NUL) ((sh_buf r)[len := NUL])"
      unfolding split using room False by (subst mem_write_append) (auto simp: mem_write_single)
    also have "\<dots> = (mem_write ?n (replicate ?k NUL) (sh_buf r))[len := NUL]"
      using room False
      by (intro nth_equalityI) (auto simp: length_mem_write nth_mem_write nth_list_update)
    finally show ?thesis by (simp add: q_def)
  qed
  then have g: "sdsgrowzero a s len = Some (sds_finish q len)"
    using False by (simp add: sdsgrowzero_def r(1) sds_finish_def q_def sdssetlen_def Let_def del: replicate_Suc)
  have q: "sdslen q = ?n" "sdsalloc q = sdsalloc r" "sh_type q = sh_type r" "length (sh_buf q) = length (sh_buf r)"
    using room r(3) False by (auto simp: q_def sdslen_def sdsalloc_def length_mem_write)
  have "take len (sh_buf q) = take ?n (sh_buf r) @ replicate ?k NUL"
    using room False by (simp add: q_def mem_write_def)
  then show ?thesis
    using sds_finish_correct [of q len] q r False by (intro that [OF g]) (auto simp: sds_inv_def sds_str_def)
qed

lemma sds_inv_finish:
  assumes "sds_inv s" and "n \<le> sdslen s" and "length b = length (sh_buf s)"
  shows "sds_inv (sds_finish (s\<lparr>sh_buf := b\<rparr>) n)" "sds_str (sds_finish (s\<lparr>sh_buf := b\<rparr>) n) = take n b"
proof -
  have [simp]: "sdslen (s\<lparr>sh_buf := b\<rparr>) = sdslen s" "sdsalloc (s\<lparr>sh_buf := b\<rparr>) = sdsalloc s"
    by (simp_all add: sdslen_def sdsalloc_def)
  have "sdslen s \<le> sdsalloc s" "sdsalloc s \<le> sdsTypeMaxSize (sh_type s)" "sdsalloc s < length (sh_buf s)"
    using assms(1) by (simp_all add: sds_inv_def)
  then show "sds_inv (sds_finish (s\<lparr>sh_buf := b\<rparr>) n)" "sds_str (sds_finish (s\<lparr>sh_buf := b\<rparr>) n) = take n b"
    using sds_finish_correct [of "s\<lparr>sh_buf := b\<rparr>" n] assms(2,3) by simp_all
qed

lemma memmove_front:
  "start + len \<le> length b \<Longrightarrow>
    length (memmove 0 start len b) = length b \<and> take len (memmove 0 start len b) = take len (drop start b)"
  by (simp add: memmove_def mem_write_def mem_read_def)

lemma sdssubstr_correct:
  assumes "sds_inv s"
  shows "sds_inv (sdssubstr s start len)" "sds_str (sdssubstr s start len) = take len (drop start (sds_str s))"
proof -
  let ?old = "sdslen s"
  define st where "st = (if start \<ge> ?old then 0 else start)"
  define l where "l = (if start \<ge> ?old then 0 else min len (?old - start))"
  define b where "b = (if l > 0 then memmove 0 st l (sh_buf s) else sh_buf s)"
  have sl: "st + l \<le> ?old" "l \<le> ?old" by (auto simp: st_def l_def)
  have nb: "?old < length (sh_buf s)" using assms by (rule sds_inv_len)
  have b: "length b = length (sh_buf s)" "take l b = take l (drop st (sh_buf s))"
    using memmove_front [of st l "sh_buf s"] sl nb by (auto simp: b_def)
  have eq: "sdssubstr s start len = sds_finish (s\<lparr>sh_buf := b\<rparr>) l"
    by (auto simp: sdssubstr_def sds_finish_def Let_def st_def l_def b_def min_def not_le split: if_splits)
  have "take l (drop st (sh_buf s)) = take len (drop start (sds_str s))"
    by (auto simp: sds_str_def st_def l_def drop_take min_def)
  then show "sds_inv (sdssubstr s start len)"
    "sds_str (sdssubstr s start len) = take len (drop start (sds_str s))"
    using sds_inv_finish [OF assms sl(2) b(1)] b(2) eq by auto
qed

lemma sdsrange_slice:
  assumes "sds_inv s" and "int (sdslen s) \<le> LLONG_MAX" and "in_int64 i" and "in_int64 j"
  defines "st \<equiv> if i < 0 then int (sdslen s) + i else i" and "en \<equiv> if j < 0 then int (sdslen s) + j else j"
  shows "sds_inv (sdsrange s i j)"
    and "sds_str (sdsrange s i j) =
      (if 0 \<le> st \<and> st \<le> en then take (nat (en - st + 1)) (drop (nat st) (sds_str s)) else [])"
proof -
  have r: "sdsrange s i j = (if sdslen s = 0 then s else
    sdssubstr s (nat (uint64 st)) (nat (uint64 (if st > en then 0 else (en - st) + 1))))"
    by (simp add: sdsrange_def st_def en_def Let_def)
  show "sds_inv (sdsrange s i j)"
    unfolding r using sdssubstr_correct(1) [OF assms(1)] assms(1) by simp
  have len: "length (sds_str s) = sdslen s" using assms(1) by (rule length_sds_str)
  have huge: "sdslen s \<le> nat (uint64 st)" if "st < 0"
  proof -
    have "uint64 st = st + 18446744073709551616"
      using that assms(3) by (intro int_mod_pos_eq [of _ _ "- 1"]) (auto simp: st_def in_int64_def)
    with that assms(2,3) show ?thesis by (auto simp: st_def in_int64_def)
  qed
  have small: "uint64 st = st" "uint64 ((en - st) + 1) = en - st + 1" if "0 \<le> st" "st \<le> en"
    using that assms(2-4) by (auto simp: st_def en_def in_int64_def)
  show "sds_str (sdsrange s i j) =
      (if 0 \<le> st \<and> st \<le> en then take (nat (en - st + 1)) (drop (nat st) (sds_str s)) else [])"
    unfolding r using len huge small by (auto simp: sdssubstr_correct(2) [OF assms(1)] not_le)
qed






lemma sdsRemoveFreeSpace_correct:
  assumes "sds_inv s"
  obtains s' where "sdsRemoveFreeSpace a s = Some s'" and "sds_inv s'" and "sds_str s' = sds_str s"
    and "sdsavail s' = 0"
proof (cases "sdsavail s = 0")
  case True
  with assms show ?thesis by (intro that [of s]) (auto simp: sdsRemoveFreeSpace_def)
next
  case False
  let ?n = "sdslen s"
  have nb: "?n < length (sh_buf s)" "sh_buf s ! ?n = NUL" "?n \<le> sdsTypeMaxSize (sh_type s)"
    using assms by (auto simp: sds_inv_def)
  have n64: "?n < 18446744073709551616" using nb(3) by (cases "sh_type s") auto
  define ty where "ty = (if sh_type s = sdsReqType ?n \<or> sdsReqType ?n \<notin> {SDS_TYPE_5, SDS_TYPE_8}
    then sh_type s else sdsReqType ?n)"
  have fit: "?n \<le> sdsTypeMaxSize ty" using nb(3) sdsReqType_max [OF n64] by (simp add: ty_def)
  have "zrealloc (a_junk a) (sh_buf s) (?n + 1) = take (?n + 1) (sh_buf s)"
    using nb(1) by (simp add: zrealloc_def)
  moreover have "?n mod (sdsTypeMaxSize ty + 1) = ?n" using fit by simp
  ultimately have "sdsRemoveFreeSpace a s = Some (sdssetalloc
      \<lparr>sh_type = ty, sh_len = ?n, sh_alloc = (if ty = sh_type s then sh_alloc s else 0),
       sh_buf = take (?n + 1) (sh_buf s)\<rparr> ?n)"
    using False by (cases s) (auto simp: sdsRemoveFreeSpace_def Let_def sdssetlen_def sdslen_def ty_def)
  then show ?thesis
    by (rule that) (use nb fit in \<open>auto simp: sds_inv_def sdssetalloc_def sdslen_def sdsalloc_def
      sds_str_def sdsavail_def\<close>)
qed

text \<open>
  \<^verbatim>\<open>sdsIncrLen\<close> accepts exactly the increments that stay within the allocated part; the
  bytes the caller has stored there become part of the string. (For type 5 the allocated
  length is not known to the header, and an increment of zero is refused.)
\<close>

lemma sdsIncrLen_correct:
  assumes "sds_inv s" and "sh_type s \<noteq> SDS_TYPE_5" and "\<bar>incr\<bar> < 2147483648"
  shows "sdsIncrLen s incr =
    (if 0 \<le> int (sdslen s) + incr \<and> int (sdslen s) + incr \<le> int (sdsalloc s)
     then Some (sds_finish s (nat (int (sdslen s) + incr))) else None)"
proof -
  have small: "incr \<ge> 0 \<Longrightarrow> incr mod 4294967296 = incr \<and> uint64 incr = incr"
    "incr < 0 \<Longrightarrow> (- incr) mod 4294967296 = - incr \<and> uint64 (- incr) = - incr"
    using assms(3) by auto
  have guard: "sdsIncrLen_guard s incr \<longleftrightarrow>
    0 \<le> int (sdslen s) + incr \<and> int (sdslen s) + incr \<le> int (sdsalloc s)"
    using assms(1,2) small
    by (cases "incr < 0"; cases "sh_type s")
       (auto simp: sdsIncrLen_guard_def sdslen_def sdsalloc_def sds_inv_def)
  have step: "nat ((int (sh_len s) + incr) mod (int (sdsTypeMaxSize (sh_type s)) + 1)) = nat (int (sdslen s) + incr)"
    "nat (int (sdslen s) + incr) mod (sdsTypeMaxSize (sh_type s) + 1) = nat (int (sdslen s) + incr)"
    if "0 \<le> int (sdslen s) + incr" "int (sdslen s) + incr \<le> int (sdsalloc s)"
    using that assms(1) by (auto simp: sds_inv_def sdslen_def)
  show ?thesis
    using guard step by (simp add: sdsIncrLen_def sds_finish_def sdssetlen_def Let_def)
qed

subsection \<open>Properties\<close>

text \<open>An allocator that gives exactly what is asked for, and a small string, for the examples.\<close>

definition exact_allocator :: allocator where
  "exact_allocator = \<lparr>a_usable = (\<lambda>n. n), a_try = (\<lambda>n. True), a_junk = (\<lambda>i. CHR ''?'')\<rparr>"

definition example_sds :: "string \<Rightarrow> sds" where
  "example_sds t = \<lparr>sh_type = SDS_TYPE_8, sh_len = length t, sh_alloc = length t, sh_buf = t @ [NUL]\<rparr>"

lemma exact_allocator_ok: "allocator_ok exact_allocator"
  by (simp add: allocator_ok_def exact_allocator_def)

lemma example_sds_inv: "length t \<le> 255 \<Longrightarrow> sds_inv (example_sds t)"
  by (simp add: sds_inv_def example_sds_def sdslen_def sdsalloc_def)

lemma example_sds_str: "sds_str (example_sds t) = t" "sdslen (example_sds t) = length t"
  by (simp_all add: sds_str_def example_sds_def sdslen_def)

text \<open>
  C17. For every allocator that gives at least what is asked for, appending to a string within the
  size limits succeeds, keeps the invariant of header and buffer (also when the header has to
  change its type) and has the effect of appending; copying replaces the string.
\<close>

theorem sdscatlen_correct:
  assumes "allocator_ok a" and "sds_inv s" and "sdslen s + length t < SDS_LIMIT"
  shows "\<exists>s1 s2. sdscatlen a s t = Some s1 \<and> sds_inv s1 \<and> sds_str s1 = sds_str s @ t \<and>
    sdscpylen a s t = Some s2 \<and> sds_inv s2 \<and> sds_str s2 = t"
proof -
  obtain s1 where "sdscatlen a s t = Some s1" "sds_inv s1" "sds_str s1 = sds_str s @ t"
    using sdscatlen_append [OF assms] by blast
  moreover obtain s2 where "sdscpylen a s t = Some s2" "sds_inv s2" "sds_str s2 = t"
    using sdscpylen_copy [OF assms(1,2), of t] assms(3) by auto
  ultimately show ?thesis by blast
qed

theorem sdscatlen_correct_witness:
  "\<exists>s1. sdscatlen exact_allocator (example_sds ''ab'') ''cde'' = Some s1 \<and> sds_inv s1 \<and> sds_str s1 = ''abcde''"
  using sdscatlen_correct [OF exact_allocator_ok example_sds_inv, of "''ab''" "''cde''"]
  by (auto simp: example_sds_str)

text \<open>
  C29. \<^verbatim>\<open>sdsrange\<close> keeps the part of the string between two indexes, negative ones counted from the
  end; a start that is before the beginning gives the empty string.
\<close>

theorem sdsrange_correct:
  assumes "sds_inv s" and "int (sdslen s) \<le> LLONG_MAX" and "in_int64 i" and "in_int64 j"
  shows "sds_inv (sdsrange s i j) \<and>
    sds_str (sdsrange s i j) =
      (let st = (if i < 0 then int (sdslen s) + i else i); en = (if j < 0 then int (sdslen s) + j else j)
       in if 0 \<le> st \<and> st \<le> en then take (nat (en - st + 1)) (drop (nat st) (sds_str s)) else [])"
  unfolding Let_def using sdsrange_slice [OF assms] by blast

theorem sdsrange_correct_witness:
  "sds_str (sdsrange (example_sds ''Hello World'') 1 (- 2)) = ''ello Worl'' \<and>
   sds_str (sdsrange (example_sds ''Hello'') (- 7) 2) = []"
  using sdsrange_correct [OF example_sds_inv, of "''Hello World''" 1 "- 2"]
    sdsrange_correct [OF example_sds_inv, of "''Hello''" "- 7" 2]
  by (simp add: example_sds_str in_int64_def Let_def)



end
