(* ===== verification/Sds_Text.thy ===== *)
theory Sds_Text
  imports Sds "HOL-Library.Sublist"
begin

text \<open>
  The text routines of \<^verbatim>\<open>sds.c\<close>: comparing, splitting and joining, quoting and the parser
  for quoted arguments, template expansion, the conversion of integers and the small formatter
  \<^verbatim>\<open>sdscatfmt\<close>. The routines that only append to a string are written over the appending
  operation; their lemmas are proved once over the interface \<open>string_buffer\<close>, which
  \<^verbatim>\<open>sdscatlen\<close> provides.
\<close>

subsection \<open>Comparing and mapping\<close>

fun memcmp :: "string \<Rightarrow> string \<Rightarrow> int" where
  "memcmp (a # as) (b # bs) = (if a = b then memcmp as bs else int (of_char a) - int (of_char b))"
| "memcmp _ _ = 0"

definition sdscmp :: "sds \<Rightarrow> sds \<Rightarrow> int" where
  "sdscmp s1 s2 =
     (let l1 = sdslen s1; l2 = sdslen s2;
          minlen = (if l1 < l2 then l1 else l2);
          cmp = memcmp (take minlen (sh_buf s1)) (take minlen (sh_buf s2))
      in if cmp = 0 then (if l1 > l2 then 1 else if l1 < l2 then - 1 else 0) else cmp)"

definition char_tolower :: "char \<Rightarrow> char" where
  "char_tolower c = (if 65 \<le> (of_char c :: nat) \<and> (of_char c :: nat) \<le> 90 then char_of ((of_char c :: nat) + 32) else c)"

definition char_toupper :: "char \<Rightarrow> char" where
  "char_toupper c = (if 97 \<le> (of_char c :: nat) \<and> (of_char c :: nat) \<le> 122 then char_of ((of_char c :: nat) - 32) else c)"

definition sdstolower :: "sds \<Rightarrow> sds" where
  "sdstolower s = s\<lparr>sh_buf := map char_tolower (take (sdslen s) (sh_buf s)) @ drop (sdslen s) (sh_buf s)\<rparr>"

definition sdstoupper :: "sds \<Rightarrow> sds" where
  "sdstoupper s = s\<lparr>sh_buf := map char_toupper (take (sdslen s) (sh_buf s)) @ drop (sdslen s) (sh_buf s)\<rparr>"

subsection \<open>Integers\<close>

fun sds_digits :: "nat \<Rightarrow> string" where
  "sds_digits v = digit_char (v mod 10) # (if v div 10 = 0 then [] else sds_digits (v div 10))"

declare sds_digits.simps [simp del]

function reverse_loop :: "string \<Rightarrow> nat \<Rightarrow> nat \<Rightarrow> string" where
  "reverse_loop buf s p = (if s < p then reverse_loop (buf[s := buf ! p, p := buf ! s]) (s + 1) (p - 1) else buf)"
  by pat_completeness auto
termination by (relation "measure (\<lambda>(buf, s, p). p - s)") auto

declare reverse_loop.simps [simp del]

text \<open>The buffer has at least \<^verbatim>\<open>SDS_LLSTR_SIZE\<close> bytes; the result is the buffer and the length.\<close>

abbreviation SDS_LLSTR_SIZE :: nat where "SDS_LLSTR_SIZE \<equiv> 21"

definition sdsll2str :: "string \<Rightarrow> int \<Rightarrow> string \<times> nat" where
  "sdsll2str s v0 =
     (let v = nat (if v0 < 0 then uint64 (- v0) else v0);
          ds = sds_digits v @ (if v0 < 0 then ''-'' else []);
          l = length ds;
          s = mem_write 0 (ds @ [NUL]) s
      in (reverse_loop s 0 (l - 1), l))"

definition sdsull2str :: "string \<Rightarrow> nat \<Rightarrow> string \<times> nat" where
  "sdsull2str s v =
     (let ds = sds_digits v;
          l = length ds;
          s = mem_write 0 (ds @ [NUL]) s
      in (reverse_loop s 0 (l - 1), l))"

definition sdsfromlonglong :: "allocator \<Rightarrow> string \<Rightarrow> int \<Rightarrow> sds option" where
  "sdsfromlonglong a buf v = (let (buf, len) = sdsll2str buf v in sdsnewlen a (take len buf))"

lemma sds_digits_repr: "sds_digits v = rev (repr_ull v)"
proof (induction v rule: sds_digits.induct)
  case (1 v)
  then show ?case by (cases "v < 10") (simp_all add: sds_digits.simps [of v] repr_ull.simps [of v] div_eq_0_iff)
qed

lemma length_reverse_loop [simp]: "length (reverse_loop buf s p) = length buf"
  by (induction buf s p rule: reverse_loop.induct) (simp add: reverse_loop.simps)

lemma nth_reverse_loop:
  "p < length buf \<Longrightarrow> k < length buf \<Longrightarrow>
    reverse_loop buf s p ! k = (if s \<le> k \<and> k \<le> p then buf ! (s + p - k) else buf ! k)"
proof (induction buf s p rule: reverse_loop.induct)
  case (1 buf s p)
  show ?case
  proof (cases "s < p")
    case True
    then have "reverse_loop buf s p ! k = (if s + 1 \<le> k \<and> k \<le> p - 1
        then buf[s := buf ! p, p := buf ! s] ! (s + 1 + (p - 1) - k) else buf[s := buf ! p, p := buf ! s] ! k)"
      using 1 by (subst reverse_loop.simps) simp
    then show ?thesis using True 1(2,3) by (auto simp: nth_list_update)
  next
    case False
    then have "s \<le> k \<and> k \<le> p \<Longrightarrow> s + p - k = k" by linarith
    with False show ?thesis by (subst reverse_loop.simps) auto
  qed
qed

lemma reverse_loop_rev:
  assumes "xs \<noteq> []"
  shows "reverse_loop (xs @ ys) 0 (length xs - 1) = rev xs @ ys"
proof (rule nth_equalityI)
  fix k assume "k < length (reverse_loop (xs @ ys) 0 (length xs - 1))"
  then have nth: "reverse_loop (xs @ ys) 0 (length xs - 1) ! k =
      (if k \<le> length xs - 1 then (xs @ ys) ! (length xs - 1 - k) else (xs @ ys) ! k)"
    using assms nth_reverse_loop [of "length xs - 1" "xs @ ys" k 0] by (simp add: Suc_le_eq)
  have "k \<le> length xs - 1 \<longleftrightarrow> k < length xs" using assms by (cases xs) auto
  then show "reverse_loop (xs @ ys) 0 (length xs - 1) ! k = (rev xs @ ys) ! k"
    unfolding nth using assms by (simp add: nth_append rev_nth)
qed simp

lemma mem_write_0: "mem_write 0 bs m = bs @ drop (length bs) m"
  by (simp add: mem_write_def)

lemma sdsull2str_repr:
  "sdsull2str buf v = (mem_write 0 (repr_ull v @ [NUL]) buf, length (repr_ull v))"
proof -
  have "rev (repr_ull v) \<noteq> []" using length_repr_ull_pos [of v] by auto
  from reverse_loop_rev [OF this] show ?thesis
    by (simp add: sdsull2str_def Let_def mem_write_0 sds_digits_repr)
qed

lemma sdsll2str_repr:
  assumes "in_int64 v"
  shows "sdsll2str buf v = (mem_write 0 (repr_ll v @ [NUL]) buf, length (repr_ll v))"
proof -
  let ?n = "nat (if v < 0 then uint64 (- v) else v)"
  have n: "?n = nat \<bar>v\<bar>" using assms by (auto simp: in_int64_def)
  have ds: "sds_digits ?n @ (if v < 0 then ''-'' else []) = rev (repr_ll v)"
    unfolding n by (simp add: repr_ll_def sds_digits_repr)
  have "rev (repr_ll v) \<noteq> []" using length_repr_ull_pos [of "nat v"] by (auto simp: repr_ll_def)
  from reverse_loop_rev [OF this] show ?thesis
    unfolding sdsll2str_def Let_def ds by (simp add: mem_write_0)
qed

subsection \<open>Appending text\<close>

text \<open>
  What the routines below use of a string buffer: appending succeeds while the total length is
  below the limit, keeps the invariant and has the effect of appending.
\<close>

locale string_buffer =
  fixes inv :: "'b \<Rightarrow> bool" and str :: "'b \<Rightarrow> string" and cat :: "'b \<Rightarrow> string \<Rightarrow> 'b option"
    and limit :: nat
  assumes cat_append: "inv s \<Longrightarrow> length (str s) + length t < limit \<Longrightarrow>
    \<exists>s'. cat s t = Some s' \<and> inv s' \<and> str s' = str s @ t"

definition isprint :: "char \<Rightarrow> bool" where
  "isprint c \<longleftrightarrow> 32 \<le> (of_char c :: nat) \<and> (of_char c :: nat) \<le> 126"

definition isspace :: "char \<Rightarrow> bool" where
  "isspace c \<longleftrightarrow> c = CHR '' '' \<or> (9 \<le> (of_char c :: nat) \<and> (of_char c :: nat) \<le> 13)"

abbreviation BACKSLASH :: char where "BACKSLASH \<equiv> CHR 0x5C"
abbreviation DQUOTE :: char where "DQUOTE \<equiv> CHR 0x22"
abbreviation SQUOTE :: char where "SQUOTE \<equiv> CHR 0x27"

text \<open>A digit of the \<^verbatim>\<open>%02x\<close> conversion.\<close>

definition hex_digit :: "nat \<Rightarrow> char" where
  "hex_digit d = (if d < 10 then char_of (48 + d) else char_of (87 + d))"

text \<open>What \<^verbatim>\<open>sdscatrepr\<close> appends for one byte.\<close>

definition repr_char :: "char \<Rightarrow> string" where
  "repr_char c =
     (if c = BACKSLASH \<or> c = DQUOTE then [BACKSLASH, c]
      else if c = CHR 0x0A then [BACKSLASH, CHR ''n'']
      else if c = CHR 0x0D then [BACKSLASH, CHR ''r'']
      else if c = CHR 0x09 then [BACKSLASH, CHR ''t'']
      else if c = CHR 0x07 then [BACKSLASH, CHR ''a'']
      else if c = CHR 0x08 then [BACKSLASH, CHR ''b'']
      else if isprint c then [c]
      else [BACKSLASH, CHR ''x'', hex_digit (of_char c div 16), hex_digit (of_char c mod 16)])"

fun sdscatrepr_loop :: "('b \<Rightarrow> string \<Rightarrow> 'b option) \<Rightarrow> 'b \<Rightarrow> string \<Rightarrow> 'b option" where
  "sdscatrepr_loop cat s [] = Some s"
| "sdscatrepr_loop cat s (c # p) = do { s \<leftarrow> cat s (repr_char c); sdscatrepr_loop cat s p }"

definition sdscatrepr :: "('b \<Rightarrow> string \<Rightarrow> 'b option) \<Rightarrow> 'b \<Rightarrow> string \<Rightarrow> 'b option" where
  "sdscatrepr cat s p = do {
     s \<leftarrow> cat s [DQUOTE];
     s \<leftarrow> sdscatrepr_loop cat s p;
     cat s [DQUOTE]
   }"

text \<open>
  \<^verbatim>\<open>sdsjoinsds\<close>: \<open>join\<close> starts as the empty string. \<^verbatim>\<open>sdsjoin\<close> is the same over C strings.
\<close>

fun sdsjoinsds :: "('b \<Rightarrow> string \<Rightarrow> 'b option) \<Rightarrow> 'b \<Rightarrow> string list \<Rightarrow> string \<Rightarrow> 'b option" where
  "sdsjoinsds cat join [] sep = Some join"
| "sdsjoinsds cat join (t # ts) sep = do {
     join \<leftarrow> cat join t;
     join \<leftarrow> (if ts \<noteq> [] then cat join sep else Some join);
     sdsjoinsds cat join ts sep
   }"

lemma length_after_open:
  assumes "dropWhile P p \<noteq> []"
  shows "length (tl (tl (dropWhile P p))) < length p"
    and "length (tl (dropWhile Q (tl (dropWhile P p)))) < length p"
  using assms length_dropWhile_le [of P p] length_dropWhile_le [of Q "tl (dropWhile P p)"]
  by (cases "dropWhile P p"; simp)+

text \<open>
  \<^verbatim>\<open>sdstemplate\<close>: the template is a C string, the callback gives the value of a variable or
  fails; \<^verbatim>\<open>sdscat\<close> appends the value up to its first null.
\<close>

function sdstemplate :: "('b \<Rightarrow> string \<Rightarrow> 'b option) \<Rightarrow> (string \<Rightarrow> string option) \<Rightarrow> 'b \<Rightarrow> string \<Rightarrow> 'b option" where
  "sdstemplate cat cb res p =
     (if p = [] then Some res
      else
        let before = takeWhile (\<lambda>c. c \<noteq> CHR ''{'') p; sv = dropWhile (\<lambda>c. c \<noteq> CHR ''{'') p in
        if sv = [] then cat res p
        else do {
          res \<leftarrow> (if before \<noteq> [] then cat res before else Some res);
          let sv = tl sv;
          if sv = [] then None
          else if hd sv = CHR ''{'' then do { res \<leftarrow> cat res ''{''; sdstemplate cat cb res (tl sv) }
          else if CHR ''}'' \<notin> set sv then None
          else do {
            v \<leftarrow> cb (takeWhile (\<lambda>c. c \<noteq> CHR ''}'') sv);
            res \<leftarrow> cat res (takeWhile (\<lambda>c. c \<noteq> NUL) v);
            sdstemplate cat cb res (tl (dropWhile (\<lambda>c. c \<noteq> CHR ''}'') sv))
          }
        })"
  by pat_completeness auto
termination
  by (relation "measure (\<lambda>(cat, cb, res, p). length p)")
     (simp_all add: length_after_open del: dropWhile_eq_Nil_conv length_tl)

declare sdstemplate.simps [simp del]

text \<open>What the routines append, as functions on strings.\<close>

definition quoted :: "string \<Rightarrow> string" where
  "quoted p = DQUOTE # concat (map repr_char p) @ [DQUOTE]"

fun join_with :: "string \<Rightarrow> string list \<Rightarrow> string" where
  "join_with sep [] = []"
| "join_with sep [t] = t"
| "join_with sep (t # ts) = t @ sep @ join_with sep ts"

text \<open>
  The template language, read one character at a time: a doubled brace stands for itself, a
  brace opens a variable that ends at the next closing brace.
\<close>

function template_text :: "(string \<Rightarrow> string option) \<Rightarrow> string \<Rightarrow> string option" where
  "template_text cb p =
     (case p of
        [] \<Rightarrow> Some []
      | c # q \<Rightarrow>
          if c \<noteq> CHR ''{'' then map_option (Cons c) (template_text cb q)
          else if q = [] then None
          else if hd q = CHR ''{'' then map_option (Cons (CHR ''{'')) (template_text cb (tl q))
          else if CHR ''}'' \<notin> set q then None
          else (case cb (takeWhile (\<lambda>c. c \<noteq> CHR ''}'') q) of
                  None \<Rightarrow> None
                | Some v \<Rightarrow> map_option (append (takeWhile (\<lambda>c. c \<noteq> NUL) v))
                              (template_text cb (tl (dropWhile (\<lambda>c. c \<noteq> CHR ''}'') q)))))"
  by pat_completeness auto
termination
proof (relation "measure (\<lambda>(cb, p). length p)"; (simp; fail)?)
  show "((cb, tl (dropWhile (\<lambda>c. c \<noteq> CHR ''}'') q)), cb, p) \<in> measure (\<lambda>(cb, p). length p)"
    if "p = c # q" for cb :: "string \<Rightarrow> string option" and p c q
    using length_dropWhile_le [of "\<lambda>c. c \<noteq> CHR ''}''" q] that by auto
qed

declare template_text.simps [simp del]

lemma template_text_nil [simp]: "template_text cb [] = Some []"
  by (simp add: template_text.simps [of cb "[]"])

lemma template_text_literal:
  "c \<noteq> CHR ''{'' \<Longrightarrow> template_text cb (c # q) = map_option (Cons c) (template_text cb q)"
  by (simp add: template_text.simps [of cb "c # q"])

lemma template_text_prefix:
  "\<forall>c\<in>set pre. c \<noteq> CHR ''{'' \<Longrightarrow> template_text cb (pre @ q) = map_option (append pre) (template_text cb q)"
proof (induction pre)
  case (Cons c pre)
  then show ?case by (cases "template_text cb q") (simp_all add: template_text_literal)
next
  case Nil
  then show ?case by (cases "template_text cb q") simp_all
qed

lemma template_text_split:
  "template_text cb p = map_option (append (takeWhile (\<lambda>c. c \<noteq> CHR ''{'') p))
    (template_text cb (dropWhile (\<lambda>c. c \<noteq> CHR ''{'') p))"
proof -
  let ?P = "\<lambda>c. c \<noteq> CHR ''{''"
  have "\<forall>c\<in>set (takeWhile ?P p). ?P c" by (auto dest: set_takeWhileD)
  from template_text_prefix [OF this, of cb "dropWhile ?P p"] show ?thesis by simp
qed

context string_buffer
begin

lemma catE:
  assumes "inv s" and "length (str s) + length t < limit"
  obtains s' where "cat s t = Some s'" and "inv s'" and "str s' = str s @ t"
  using cat_append [OF assms] that by blast

lemma catrepr_loop_append:
  "inv s \<Longrightarrow> length (str s) + length (concat (map repr_char p)) < limit \<Longrightarrow>
    \<exists>s'. sdscatrepr_loop cat s p = Some s' \<and> inv s' \<and> str s' = str s @ concat (map repr_char p)"
proof (induction p arbitrary: s)
  case (Cons c p)
  from Cons.prems obtain r where "cat s (repr_char c) = Some r" "inv r" "str r = str s @ repr_char c"
    by (elim catE [of s "repr_char c"]) auto
  with Cons.IH [of r] Cons.prems show ?case by simp
qed simp

lemma catrepr_append:
  assumes "inv s" and "length (str s) + length (quoted p) < limit"
  shows "\<exists>s'. sdscatrepr cat s p = Some s' \<and> inv s' \<and> str s' = str s @ quoted p"
proof -
  from assms obtain r where r: "cat s [DQUOTE] = Some r" "inv r" "str r = str s @ [DQUOTE]"
    by (elim catE [of s "[DQUOTE]"]) (auto simp: quoted_def)
  moreover from this assms(2) obtain q where q: "sdscatrepr_loop cat r p = Some q" "inv q"
    "str q = str r @ concat (map repr_char p)"
    using catrepr_loop_append [of r p] by (auto simp: quoted_def)
  moreover have "length (str q) + length [DQUOTE] < limit" using r q assms(2) by (simp add: quoted_def)
  ultimately show ?thesis
    using cat_append [of q "[DQUOTE]"] by (auto simp: sdscatrepr_def quoted_def)
qed

lemma joinsds_append:
  "inv s \<Longrightarrow> length (str s) + length (join_with sep ts) < limit \<Longrightarrow>
    \<exists>s'. sdsjoinsds cat s ts sep = Some s' \<and> inv s' \<and> str s' = str s @ join_with sep ts"
proof (induction sep ts arbitrary: s rule: join_with.induct)
  case (2 sep t)
  then show ?case using cat_append [of s t] by auto
next
  case (3 sep t u us)
  from 3(2,3) obtain r where r: "cat s t = Some r" "inv r" "str r = str s @ t"
    by (elim catE [of s t]) auto
  with 3(3) obtain q where "cat r sep = Some q" "inv q" "str q = str s @ t @ sep"
    by (elim catE [of r sep]) auto
  with r 3(1) [of q] 3(3) show ?case by simp
qed simp

lemma template_before:
  assumes "inv s" and "length (str s) + length t < limit"
  shows "\<exists>s'. (if t \<noteq> [] then cat s t else Some s) = Some s' \<and> inv s' \<and> str s' = str s @ t"
  using assms cat_append [of s t] by auto

lemma template_append:
  "template_text cb p = Some t \<Longrightarrow> inv res \<Longrightarrow> length (str res) + length t < limit \<Longrightarrow>
    \<exists>s'. sdstemplate cat cb res p = Some s' \<and> inv s' \<and> str s' = str res @ t"
proof (induction "length p" arbitrary: p res t rule: less_induct)
  case less
  let ?P = "\<lambda>c. c \<noteq> CHR ''{''" and ?Q = "\<lambda>c. c \<noteq> CHR ''}''"
  let ?pre = "takeWhile ?P p"
  note split = less.prems(1) [unfolded template_text_split [of cb p]]
  show ?case
  proof (cases "dropWhile ?P p")
    case Nil
    then have "?pre = p" by (metis append_Nil2 takeWhile_dropWhile_id)
    with split have "t = p" unfolding Nil by simp
    with Nil less.prems cat_append [of res p] show ?thesis
      by (subst sdstemplate.simps) (auto simp: Let_def)
  next
    case (Cons c q)
    then have c: "c = CHR ''{''" using hd_dropWhile [of ?P p] by auto
    have short: "length q < length p" using Cons length_dropWhile_le [of ?P p] by simp
    obtain u where u: "template_text cb (CHR ''{'' # q) = Some u" "t = ?pre @ u" using split Cons c by auto
    obtain r where r: "(if ?pre \<noteq> [] then cat res ?pre else Some res) = Some r" "inv r" "str r = str res @ ?pre"
      using template_before [of res ?pre] less.prems u(2) by auto
    have q: "q \<noteq> []" using u(1) by (auto simp: template_text.simps [of cb "CHR ''{'' # q"])
    have step: "sdstemplate cat cb res p =
      (if hd q = CHR ''{'' then do { res \<leftarrow> cat r ''{''; sdstemplate cat cb res (tl q) }
       else if CHR ''}'' \<notin> set q then None
       else do {
         v \<leftarrow> cb (takeWhile ?Q q);
         res \<leftarrow> cat r (takeWhile (\<lambda>c. c \<noteq> NUL) v);
         sdstemplate cat cb res (tl (dropWhile ?Q q))
       })"
      using Cons q r(1) by (subst sdstemplate.simps) (auto simp: Let_def)
    show ?thesis
    proof (cases "hd q = CHR ''{''")
      case True
      then obtain w where w: "template_text cb (tl q) = Some w" "u = CHR ''{'' # w"
        using u(1) q by (auto simp: template_text.simps [of cb "CHR ''{'' # q"])
      obtain r' where r': "cat r ''{'' = Some r'" "inv r'" "str r' = str r @ ''{''"
        using cat_append [of r "''{''"] r less.prems(3) u(2) w(2) by auto
      from less.hyps [of "tl q", OF _ w(1) r'(2)] short r' r u(2) w(2) less.prems(3) True step
      show ?thesis by auto
    next
      case False
      then obtain v w where w: "CHR ''}'' \<in> set q" "cb (takeWhile ?Q q) = Some v"
        "template_text cb (tl (dropWhile ?Q q)) = Some w" "u = takeWhile (\<lambda>c. c \<noteq> NUL) v @ w"
        using u(1) q by (auto simp: template_text.simps [of cb "CHR ''{'' # q"] split: if_splits option.splits)
      obtain r' where r': "cat r (takeWhile (\<lambda>c. c \<noteq> NUL) v) = Some r'" "inv r'"
        "str r' = str r @ takeWhile (\<lambda>c. c \<noteq> NUL) v"
        using cat_append [of r "takeWhile (\<lambda>c. c \<noteq> NUL) v"] r less.prems(3) u(2) w(4) by auto
      have "length (tl (dropWhile ?Q q)) < length p" using short length_dropWhile_le [of ?Q q] by simp
      from less.hyps [OF this w(3) r'(2)] r' r u(2) w less.prems(3) False step
      show ?thesis by auto
    qed
  qed
qed

end

interpretation sdsbuf: string_buffer "\<lambda>s. allocator_ok a \<and> sds_inv s" sds_str "sdscatlen a" SDS_LIMIT for a
proof
  fix s and t :: string assume "allocator_ok a \<and> sds_inv s" "length (sds_str s) + length t < SDS_LIMIT"
  then show "\<exists>s'. sdscatlen a s t = Some s' \<and> (allocator_ok a \<and> sds_inv s') \<and> sds_str s' = sds_str s @ t"
    using sdscatlen_append [of a s t] length_sds_str [of s] by metis
qed

subsection \<open>Splitting\<close>

text \<open>The loop of \<^verbatim>\<open>sdssplitlen\<close>; the contents of the tokens found so far are \<open>tokens\<close>.\<close>

function sdssplit_loop :: "string \<Rightarrow> string \<Rightarrow> nat \<Rightarrow> nat \<Rightarrow> string list \<Rightarrow> string list" where
  "sdssplit_loop s sep start j tokens =
     (if int j < int (length s) - (int (length sep) - 1) then
        if (length sep = 1 \<and> s ! j = sep ! 0) \<or> take (length sep) (drop j s) = sep
        then sdssplit_loop s sep (j + length sep) (j + (length sep - 1) + 1)
               (tokens @ [take (j - start) (drop start s)])
        else sdssplit_loop s sep start (j + 1) tokens
      else tokens @ [drop start s])"
  by pat_completeness auto
termination by (relation "measure (\<lambda>(s, sep, start, j, tokens). Suc (length s) - j)") auto

declare sdssplit_loop.simps [simp del]

definition sdssplitlen :: "string \<Rightarrow> string \<Rightarrow> string list option" where
  "sdssplitlen s sep =
     (if length sep < 1 then None
      else if s = [] then Some []
      else Some (sdssplit_loop s sep 0 0 []))"

lemma join_with_snoc: "ts \<noteq> [] \<Longrightarrow> join_with sep (ts @ [t]) = join_with sep ts @ sep @ t"
  by (induction sep ts rule: join_with.induct) auto

lemma join_with_cut: "join_with sep (ts @ [t, u]) = join_with sep (ts @ [t @ sep @ u])"
  using join_with_snoc [of "ts @ [t]" sep u] by (cases "ts = []") (simp_all add: join_with_snoc)

lemma split_match: "int j < int (length s) - (int (length sep) - 1) \<Longrightarrow> sep \<noteq> [] \<Longrightarrow>
    ((length sep = 1 \<and> s ! j = sep ! 0) \<or> take (length sep) (drop j s) = sep) \<longleftrightarrow> take (length sep) (drop j s) = sep"
proof (rule iffI, elim disjE)
  assume "int j < int (length s) - (int (length sep) - 1)" "sep \<noteq> []" and one: "length sep = 1 \<and> s ! j = sep ! 0"
  then have "j < length s" by simp
  moreover from one obtain x where "sep = [x]" by (cases sep) auto
  ultimately show "take (length sep) (drop j s) = sep"
    using one by (simp add: Cons_nth_drop_Suc [symmetric])
qed auto

text \<open>
  The invariant of the loop: the tokens found, joined, are the part of the input before
  \<open>start\<close>, no token contains the separator, and the separator does not start in the part
  already searched.
\<close>

lemma sdssplit_loop_correct:
  assumes "sep \<noteq> []" and "start \<le> j" and "j \<le> length s"
    and "join_with sep (tokens @ [drop start s]) = s" and "\<forall>t\<in>set tokens. \<not> sublist sep t"
    and "\<forall>k. start \<le> k \<and> k < j \<longrightarrow> take (length sep) (drop k s) \<noteq> sep"
  shows "join_with sep (sdssplit_loop s sep start j tokens) = s \<and>
    (\<forall>t\<in>set (sdssplit_loop s sep start j tokens). \<not> sublist sep t)"
  using assms
proof (induction s sep start j tokens rule: sdssplit_loop.induct)
  case (1 s sep start j tokens)
  have pos: "0 < length sep" using 1(3) by simp
  have none: "\<not> sublist sep (take n (drop start s))"
    if no: "\<forall>k. start \<le> k \<and> k + length sep \<le> start + n \<and> k + length sep \<le> length s \<longrightarrow> take (length sep) (drop k s) \<noteq> sep" for n
  proof
    assume "sublist sep (take n (drop start s))"
    then obtain ps ss where e: "take n (drop start s) = ps @ sep @ ss" by (auto simp: sublist_def)
    then have "length (take n (drop start s)) = length ps + length sep + length ss" by simp
    then have l: "start + length ps + length sep \<le> start + n" "start + length ps + length sep \<le> length s"
      using 1(4,5) \<open>sep \<noteq> []\<close> by (auto simp: min_def split: if_splits)
    have "take (length sep) (drop (length ps) (take n (drop start s))) = sep" by (simp add: e)
    then have "take (length sep) (drop (start + length ps) s) = sep"
      using l(1) by (simp add: drop_take min_absorb1 add.commute)
    with no l show False by auto
  qed
  show ?case
  proof (cases "int j < int (length s) - (int (length sep) - 1)")
    case True
    then have fit: "j + length sep \<le> length s" by linarith
    note match = split_match [OF True \<open>sep \<noteq> []\<close>]
    show ?thesis
    proof (cases "take (length sep) (drop j s) = sep")
      case found: True
      have "drop start s = take (j - start) (drop start s) @ drop j s"
        using 1(4) by (metis append_take_drop_id drop_drop le_add_diff_inverse2)
      also have "drop j s = sep @ drop (j + length sep) s"
        using found by (metis append_take_drop_id drop_drop add.commute)
      finally have cut: "drop start s = take (j - start) (drop start s) @ sep @ drop (j + length sep) s" .
      have "join_with sep ((tokens @ [take (j - start) (drop start s)]) @ [drop (j + length sep) s]) = s"
        using 1(6) by (simp add: join_with_cut flip: cut)
      moreover have "\<not> sublist sep (take (j - start) (drop start s))"
      proof (rule none, intro allI impI)
        fix k assume "start \<le> k \<and> k + length sep \<le> start + (j - start) \<and> k + length sep \<le> length s"
        then have "start \<le> k" "k < j" using 1(4) pos by linarith+
        then show "take (length sep) (drop k s) \<noteq> sep" using 1(8) by blast
      qed
      moreover have "\<forall>t\<in>set (tokens @ [take (j - start) (drop start s)]). \<not> sublist sep t"
        using 1(7) \<open>\<not> sublist sep (take (j - start) (drop start s))\<close> by auto
      moreover have "j + length sep \<le> j + (length sep - 1) + 1" "j + (length sep - 1) + 1 \<le> length s"
        "\<forall>k. j + length sep \<le> k \<and> k < j + (length sep - 1) + 1 \<longrightarrow> take (length sep) (drop k s) \<noteq> sep"
        using pos fit by linarith+
      moreover have "sdssplit_loop s sep start j tokens = sdssplit_loop s sep (j + length sep)
          (j + (length sep - 1) + 1) (tokens @ [take (j - start) (drop start s)])"
        using True found by (subst sdssplit_loop.simps) (simp only: if_True simp_thms)
      ultimately show ?thesis
        using 1(1) [OF True disjI2 [OF found] 1(3)] by presburger
    next
      case False
      with match have no: "\<not> (length sep = 1 \<and> s ! j = sep ! 0 \<or> take (length sep) (drop j s) = sep)" by blast
      moreover have "\<forall>k. start \<le> k \<and> k < j + 1 \<longrightarrow> take (length sep) (drop k s) \<noteq> sep"
        using 1(8) False by (metis Suc_eq_plus1 less_Suc_eq)
      moreover have "sdssplit_loop s sep start j tokens = sdssplit_loop s sep start (j + 1) tokens"
        using True no by (subst sdssplit_loop.simps) (simp only: if_True if_False)
      moreover have "j + 1 \<le> length s" using fit pos by linarith
      ultimately show ?thesis
        using 1(2) [OF True no 1(3) trans_le_add1 [OF 1(4)] _ 1(6,7)] by presburger
    qed
  next
    case False
    have "\<not> sublist sep (take (length s) (drop start s))"
    proof (rule none, intro allI impI)
      fix k assume "start \<le> k \<and> k + length sep \<le> start + length s \<and> k + length sep \<le> length s"
      then have "start \<le> k" "k < j" using False pos by linarith+
      then show "take (length sep) (drop k s) \<noteq> sep" using 1(8) by blast
    qed
    moreover have "sdssplit_loop s sep start j tokens = tokens @ [drop start s]"
      using False by (subst sdssplit_loop.simps) simp
    ultimately show ?thesis using 1(6,7) by simp
  qed
qed

lemma sdssplitlen_join:
  assumes "sdssplitlen s sep = Some ts"
  shows "join_with sep ts = s" and "\<forall>t\<in>set ts. \<not> sublist sep t"
  using assms sdssplit_loop_correct [of sep 0 0 s "[]"] by (auto simp: sdssplitlen_def split: if_splits)

subsection \<open>Formatting\<close>

text \<open>
  The arguments of \<^verbatim>\<open>sdscatfmt\<close> as the type \<^verbatim>\<open>va_arg\<close> reads them with. A directive whose
  argument is missing or of another type, and a format that ends in a percent sign, have
  undefined behaviour: \<open>None\<close>.
\<close>

datatype fmt_arg = Arg_s string | Arg_S sds | Arg_i int | Arg_I int | Arg_u nat | Arg_U nat

definition fmt_bytes :: "allocator \<Rightarrow> char \<Rightarrow> fmt_arg \<Rightarrow> string option" where
  "fmt_bytes a directive arg =
     (let buf = map (a_junk a) [0..<SDS_LLSTR_SIZE] in
      if directive = CHR ''s'' then (case arg of Arg_s t \<Rightarrow> Some (takeWhile (\<lambda>c. c \<noteq> NUL) t) | _ \<Rightarrow> None)
      else if directive = CHR ''S'' then (case arg of Arg_S t \<Rightarrow> Some (take (sdslen t) (sh_buf t)) | _ \<Rightarrow> None)
      else if directive = CHR ''i'' then (case arg of Arg_i v \<Rightarrow> Some (case sdsll2str buf v of (b, l) \<Rightarrow> take l b) | _ \<Rightarrow> None)
      else if directive = CHR ''I'' then (case arg of Arg_I v \<Rightarrow> Some (case sdsll2str buf v of (b, l) \<Rightarrow> take l b) | _ \<Rightarrow> None)
      else if directive = CHR ''u'' then (case arg of Arg_u v \<Rightarrow> Some (case sdsull2str buf v of (b, l) \<Rightarrow> take l b) | _ \<Rightarrow> None)
      else (case arg of Arg_U v \<Rightarrow> Some (case sdsull2str buf v of (b, l) \<Rightarrow> take l b) | _ \<Rightarrow> None))"

definition fmt_put :: "allocator \<Rightarrow> sds \<Rightarrow> nat \<Rightarrow> string \<Rightarrow> sds option" where
  "fmt_put a s i str = do {
     s \<leftarrow> (if sdsavail s < length str then sdsMakeRoomFor a s (length str) else Some s);
     let s = s\<lparr>sh_buf := mem_write i str (sh_buf s)\<rparr>;
     Some (sdsinclen s (length str))
   }"

abbreviation fmt_directives :: string where "fmt_directives \<equiv> ''sSiIuU''"

fun sdscatfmt_loop :: "allocator \<Rightarrow> sds \<Rightarrow> nat \<Rightarrow> string \<Rightarrow> fmt_arg list \<Rightarrow> (sds \<times> nat) option" where
  "sdscatfmt_loop a s i [] args = Some (s, i)"
| "sdscatfmt_loop a s i (c # f) args = do {
     s \<leftarrow> (if sdsavail s = 0 then sdsMakeRoomFor a s 1 else Some s);
     if c = CHR ''%'' then
       (case f of
          [] \<Rightarrow> None
        | d # f \<Rightarrow>
            if d \<in> set fmt_directives then
              (case args of
                 [] \<Rightarrow> None
               | arg # args \<Rightarrow> do {
                   str \<leftarrow> fmt_bytes a d arg;
                   s \<leftarrow> fmt_put a s i str;
                   sdscatfmt_loop a s (i + length str) f args
                 })
            else
              let s = s\<lparr>sh_buf := (sh_buf s)[i := d]\<rparr>
              in sdscatfmt_loop a (sdsinclen s 1) (i + 1) f args)
     else
       let s = s\<lparr>sh_buf := (sh_buf s)[i := c]\<rparr>
       in sdscatfmt_loop a (sdsinclen s 1) (i + 1) f args
   }"

definition sdscatfmt :: "allocator \<Rightarrow> sds \<Rightarrow> string \<Rightarrow> fmt_arg list \<Rightarrow> sds option" where
  "sdscatfmt a s fmt args =
     (let initlen = sdslen s in do {
        s \<leftarrow> sdsMakeRoomFor a s (length fmt * 2);
        (s, i) \<leftarrow> sdscatfmt_loop a s initlen fmt args;
        Some (s\<lparr>sh_buf := (sh_buf s)[i := NUL]\<rparr>)
      })"

text \<open>What a directive stands for, and the text of a format.\<close>

fun arg_text :: "char \<Rightarrow> fmt_arg \<Rightarrow> string option" where
  "arg_text d (Arg_s t) = (if d = CHR ''s'' then Some (takeWhile (\<lambda>c. c \<noteq> NUL) t) else None)"
| "arg_text d (Arg_S t) = (if d = CHR ''S'' then Some (sds_str t) else None)"
| "arg_text d (Arg_i v) = (if d = CHR ''i'' then Some (repr_ll v) else None)"
| "arg_text d (Arg_I v) = (if d = CHR ''I'' then Some (repr_ll v) else None)"
| "arg_text d (Arg_u v) = (if d = CHR ''u'' then Some (repr_ull v) else None)"
| "arg_text d (Arg_U v) = (if d = CHR ''U'' then Some (repr_ull v) else None)"

fun format_text :: "string \<Rightarrow> fmt_arg list \<Rightarrow> string option" where
  "format_text [] args = Some []"
| "format_text (c # f) args =
     (if c = CHR ''%'' then
        (case f of
           [] \<Rightarrow> None
         | d # f \<Rightarrow>
             if d \<in> set fmt_directives then
               (case args of [] \<Rightarrow> None
                | arg # args \<Rightarrow> do { t \<leftarrow> arg_text d arg; u \<leftarrow> format_text f args; Some (t @ u) })
             else map_option (Cons d) (format_text f args))
      else map_option (Cons c) (format_text f args))"

text \<open>The integer arguments have the range of their C type.\<close>

fun arg_ok :: "fmt_arg \<Rightarrow> bool" where
  "arg_ok (Arg_i v) \<longleftrightarrow> INT32_MIN \<le> v \<and> v \<le> INT32_MAX"
| "arg_ok (Arg_I v) \<longleftrightarrow> in_int64 v"
| "arg_ok _ \<longleftrightarrow> True"

lemma fmt_bytes_text:
  assumes "arg_ok arg" and "d \<in> set fmt_directives"
  shows "fmt_bytes a d arg = arg_text d arg"
proof -
  have ll: "(case sdsll2str buf v of (b, l) \<Rightarrow> take l b) = repr_ll v" if "in_int64 v" for buf v
    using sdsll2str_repr [OF that, of buf] by (simp add: mem_write_0)
  have ull: "(case sdsull2str buf v of (b, l) \<Rightarrow> take l b) = repr_ull v" for buf v
    using sdsull2str_repr [of buf v] by (simp add: mem_write_0)
  show ?thesis
    using assms by (cases arg) (auto simp: fmt_bytes_def Let_def sds_str_def ull ll in_int64_def)
qed

text \<open>Placing text behind the string, when there is room for it.\<close>

lemma sds_place:
  assumes "sds_fit s" and "sdslen s + length t \<le> sdsalloc s"
  defines "s' \<equiv> sdsinclen (s\<lparr>sh_buf := mem_write (sdslen s) t (sh_buf s)\<rparr>) (length t)"
  shows "sds_fit s'" "sds_str s' = sds_str s @ t" "sdslen s' = sdslen s + length t"
proof -
  let ?n = "sdslen s + length t"
  have fit: "?n \<le> sdsTypeMaxSize (sh_type s)" "?n < length (sh_buf s)" using assms(1,2) by (auto simp: sds_fit_def)
  then have "?n mod (sdsTypeMaxSize (sh_type s) + 1) = ?n" by simp
  then have s': "s' = s\<lparr>sh_len := ?n, sh_buf := mem_write (sdslen s) t (sh_buf s)\<rparr>"
    by (simp add: s'_def sdsinclen_def sdslen_def)
  have lb: "length (mem_write (sdslen s) t (sh_buf s)) = length (sh_buf s)" using fit by (simp add: length_mem_write)
  show "sds_fit s'" using assms(1,2) fit lb by (auto simp: s' sds_fit_def sdslen_def sdsalloc_def)
  show "sds_str s' = sds_str s @ t" using fit by (auto simp: s' sds_str_def sdslen_def mem_write_def)
  show "sdslen s' = ?n" by (simp add: s' sdslen_def)
qed

lemma make_room_if:
  assumes "allocator_ok a" and "sds_fit s" and "sdslen s + n < SDS_LIMIT" and "\<not> P \<Longrightarrow> n \<le> sdsavail s"
  shows "\<exists>s'. (if P then sdsMakeRoomFor a s n else Some s) = Some s' \<and> sds_fit s' \<and>
    sdslen s' = sdslen s \<and> sds_str s' = sds_str s \<and> sdslen s + n \<le> sdsalloc s'"
proof (cases P)
  case True
  obtain r where r: "sdsMakeRoomFor a s n = Some r" "sds_fit r" "sdslen r = sdslen s"
    "take (sdslen s + 1) (sh_buf r) = take (sdslen s + 1) (sh_buf s)" "sdslen s + n \<le> sdsalloc r"
    using sdsMakeRoomFor_fit [OF assms(1-3)] by metis
  then have "take (sdslen s) (sh_buf r) = take (sdslen s) (sh_buf s)" by (metis le_add1 min.absorb1 take_take)
  with r True show ?thesis by (simp add: sds_str_def)
next
  case False
  then show ?thesis
    using assms(2,4) by (auto simp: sds_fit_def sdsavail_def sdsalloc_def sdslen_def split: if_splits)
qed

lemma fmt_put_append:
  assumes "allocator_ok a" and "sds_fit s" and "sdslen s + length t < SDS_LIMIT"
  shows "\<exists>s'. fmt_put a s (sdslen s) t = Some s' \<and> sds_fit s' \<and> sds_str s' = sds_str s @ t \<and>
    sdslen s' = sdslen s + length t"
proof -
  obtain r where r: "(if sdsavail s < length t then sdsMakeRoomFor a s (length t) else Some s) = Some r"
    "sds_fit r" "sdslen r = sdslen s" "sds_str r = sds_str s" "sdslen s + length t \<le> sdsalloc r"
    using make_room_if [OF assms, of "sdsavail s < length t"] by auto
  then show ?thesis using sds_place [of r t] by (auto simp: fmt_put_def)
qed

lemma sds_place_char:
  fixes c :: char
  assumes "sds_fit s" and "sdslen s + 1 \<le> sdsalloc s"
  defines "s' \<equiv> sdsinclen (s\<lparr>sh_buf := (sh_buf s)[sdslen s := c]\<rparr>) 1"
  shows "sds_fit s'" "sds_str s' = sds_str s @ [c]" "sdslen s' = sdslen s + 1"
  using sds_place [of s "[c]"] assms by (auto simp: mem_write_single sds_fit_def)

lemma sdscatfmt_loop_text:
  "format_text f args = Some t \<Longrightarrow> list_all arg_ok args \<Longrightarrow> allocator_ok a \<Longrightarrow> sds_fit s \<Longrightarrow>
   sdslen s + length t + 1 < SDS_LIMIT \<Longrightarrow>
   \<exists>s'. sdscatfmt_loop a s (sdslen s) f args = Some (s', sdslen s') \<and> sds_fit s' \<and> sds_str s' = sds_str s @ t"
proof (induction f args arbitrary: s t rule: format_text.induct)
  case (2 c f args)
  obtain r where r: "(if sdsavail s = 0 then sdsMakeRoomFor a s 1 else Some s) = Some r" "sds_fit r"
    "sdslen r = sdslen s" "sds_str r = sds_str s" "sdslen s + 1 \<le> sdsalloc r"
    using make_room_if [of a s 1 "sdsavail s = 0"] 2(6,7,8) by auto
  have char: "\<exists>s'. sdscatfmt_loop a (sdsinclen (r\<lparr>sh_buf := (sh_buf r)[sdslen s := d]\<rparr>) 1) (sdslen s + 1) g args =
      Some (s', sdslen s') \<and> sds_fit s' \<and> sds_str s' = sds_str s @ t"
    if "t = d # u" and "\<And>s. sds_fit s \<Longrightarrow> sdslen s + length u + 1 < SDS_LIMIT \<Longrightarrow>
      \<exists>s'. sdscatfmt_loop a s (sdslen s) g args = Some (s', sdslen s') \<and> sds_fit s' \<and> sds_str s' = sds_str s @ u" for d g u
    using that(2) [OF sds_place_char(1), of r d] sds_place_char [of r d] r that(1) 2(8) by (simp add: r(3))
  show ?case
  proof (cases "c = CHR ''%''")
    case False
    then obtain u where u: "format_text f args = Some u" "t = c # u" using 2(4) by auto
    from char [OF u(2) 2(3) [OF False u(1) 2(5,6)]] r(1) False show ?thesis by (simp add: Let_def)
  next
    case True
    then obtain d g where f: "f = d # g" using 2(4) by (cases f) auto
    show ?thesis
    proof (cases "d \<in> set fmt_directives")
      case False
      then obtain u where u: "format_text g args = Some u" "t = d # u" using 2(4) True f by auto
      from char [OF u(2) 2(2) [OF True f False u(1) 2(5,6)]] r(1) True f False show ?thesis by (simp add: Let_def)
    next
      case dir: True
      then obtain arg rest v u where u: "args = arg # rest" "arg_text d arg = Some v"
        "format_text g rest = Some u" "t = v @ u"
        using 2(4) True f by (auto split: list.splits bind_splits)
      have "fmt_bytes a d arg = Some v" using fmt_bytes_text [OF _ dir] 2(5) u(1,2) by simp
      moreover obtain q where q: "fmt_put a r (sdslen s) v = Some q" "sds_fit q" "sds_str q = sds_str s @ v"
        "sdslen q = sdslen s + length v"
        using fmt_put_append [of a r v] 2(6,8) r u(4) by auto
      moreover have "\<exists>s'. sdscatfmt_loop a q (sdslen q) g rest = Some (s', sdslen s') \<and> sds_fit s' \<and> sds_str s' = sds_str q @ u"
        by (rule 2(1) [OF True f dir u(1)]) (use 2(5,6,8) u q in auto)
      ultimately show ?thesis using r(1) True f dir u by (simp add: q(4))
    qed
  qed
qed simp

lemma sdscatfmt_text:
  assumes "format_text fmt args = Some t" and "list_all arg_ok args" and "allocator_ok a" and "sds_inv s"
    and "sdslen s + length t + 1 < SDS_LIMIT" and "sdslen s + length fmt * 2 < SDS_LIMIT"
  shows "\<exists>s'. sdscatfmt a s fmt args = Some s' \<and> sds_inv s' \<and> sds_str s' = sds_str s @ t"
proof -
  have fit: "sds_fit s" using assms(4) by (simp add: sds_inv_iff)
  obtain r where r: "sdsMakeRoomFor a s (length fmt * 2) = Some r" "sds_fit r" "sdslen r = sdslen s" "sds_str r = sds_str s"
    using make_room_if [OF assms(3) fit assms(6), of True] by auto
  obtain q where q: "sdscatfmt_loop a r (sdslen r) fmt args = Some (q, sdslen q)" "sds_fit q" "sds_str q = sds_str r @ t"
    using sdscatfmt_loop_text [OF assms(1-3) r(2)] assms(5) r(3) by auto
  have "sds_inv (q\<lparr>sh_buf := (sh_buf q)[sdslen q := NUL]\<rparr>)" "sds_str (q\<lparr>sh_buf := (sh_buf q)[sdslen q := NUL]\<rparr>) = sds_str q"
    using q(2) by (auto simp: sds_inv_def sds_fit_def sds_str_def sdslen_def sdsalloc_def)
  then show ?thesis using r q by (simp add: sdscatfmt_def r(3) [symmetric])
qed

subsection \<open>Properties\<close>

lemma memcmp_take_zero: "length as = length bs \<Longrightarrow> memcmp as bs = 0 \<longleftrightarrow> as = bs"
  by (induction as bs rule: list_induct2) auto

lemma sdscmp_zero:
  assumes "sds_inv s" and "sds_inv t"
  shows "sdscmp s t = 0 \<longleftrightarrow> sds_str s = sds_str t"
proof (cases "sdslen s = sdslen t")
  case True
  then have "length (sds_str s) = length (sds_str t)" using assms by (simp add: length_sds_str)
  from memcmp_take_zero [OF this] True show ?thesis
    by (simp add: sdscmp_def Let_def sds_str_def)
next
  case False
  then have "sds_str s \<noteq> sds_str t" using assms by (metis length_sds_str)
  with False show ?thesis by (simp add: sdscmp_def Let_def)
qed

text \<open>
  C27. \<^verbatim>\<open>sdscatfmt\<close> appends the text its format and arguments stand for, with integers in decimal,
  and keeps the invariant of the string.
\<close>

theorem sdscatfmt_correct:
  assumes "format_text fmt args = Some t" and "list_all arg_ok args" and "allocator_ok a" and "sds_inv s"
    and "sdslen s + length t + 1 < SDS_LIMIT" and "sdslen s + length fmt * 2 < SDS_LIMIT"
  shows "\<exists>s'. sdscatfmt a s fmt args = Some s' \<and> sds_inv s' \<and> sds_str s' = sds_str s @ t"
  using assms by (rule sdscatfmt_text)

theorem sdscatfmt_correct_witness:
  "\<exists>s'. sdscatfmt exact_allocator (example_sds ''--'') ''Hello %s %S%%%i''
       [Arg_s ''Hi!'', Arg_S (example_sds ''World''), Arg_i (- 7)] = Some s' \<and>
     sds_inv s' \<and> sds_str s' = ''--Hello Hi! World%-7''"
  using sdscatfmt_correct [OF _ _ exact_allocator_ok example_sds_inv,
    of "''Hello %s %S%%%i''" "[Arg_s ''Hi!'', Arg_S (example_sds ''World''), Arg_i (- 7)]" "''Hello Hi! World%-7''" "''--''"]
  by (simp add: example_sds_str repr_ll_def repr_ull.simps [of 7] digit_char_simps)

text \<open>
  C26. Splitting a string at a separator and joining the tokens with it gives the string back, and
  no token contains the separator; joining appends the pieces to any string that has room.
\<close>

theorem sdssplitlen_sdsjoin:
  assumes "sdssplitlen s sep = Some ts" and "allocator_ok a" and "sds_inv b" and "sdslen b + length s < SDS_LIMIT"
  shows "(\<forall>t\<in>set ts. \<not> sublist sep t) \<and>
    (\<exists>b'. sdsjoinsds (sdscatlen a) b ts sep = Some b' \<and> sds_inv b' \<and> sds_str b' = sds_str b @ s)"
  using sdssplitlen_join [OF assms(1)] sdsbuf.joinsds_append [of a b sep ts] assms(2-4)
  by (auto simp: length_sds_str)

theorem sdssplitlen_sdsjoin_witness:
  "\<exists>b'. sdsjoinsds (sdscatlen exact_allocator) (example_sds []) [''a'', [], ''bc''] ''--'' = Some b' \<and> sds_str b' = ''a----bc''"
proof -
  have "sdssplitlen ''a----bc'' ''--'' = Some [''a'', [], ''bc'']" by code_simp
  from sdssplitlen_sdsjoin [OF this exact_allocator_ok example_sds_inv, of "[]"] show ?thesis
    by (auto simp: example_sds_str)
qed

text \<open>
  C28. \<^verbatim>\<open>sdstemplate\<close> appends the expansion of the template, in which each variable in braces is
  replaced by the value of the callback and a doubled opening brace by a single one.
\<close>

theorem sdstemplate_correct:
  assumes "template_text cb p = Some t" and "allocator_ok a" and "sds_inv s" and "sdslen s + length t < SDS_LIMIT"
  shows "\<exists>s'. sdstemplate (sdscatlen a) cb s p = Some s' \<and> sds_inv s' \<and> sds_str s' = sds_str s @ t"
  using sdsbuf.template_append [OF assms(1), of a s] assms(2-4) by (auto simp: length_sds_str)

theorem sdstemplate_correct_witness:
  "\<exists>s'. sdstemplate (sdscatlen exact_allocator) (\<lambda>v. if v = ''v1'' then Some ''value1'' else None)
       (example_sds []) ''v1={v1} {{} v2'' = Some s' \<and> sds_str s' = ''v1=value1 {} v2''"
proof -
  have "template_text (\<lambda>v. if v = ''v1'' then Some ''value1'' else None) ''v1={v1} {{} v2'' = Some ''v1=value1 {} v2''"
    by code_simp
  from sdstemplate_correct [OF this exact_allocator_ok example_sds_inv, of "[]"] show ?thesis
    by (auto simp: example_sds_str)
qed

end
