(* ===== verification/Sds_Args.thy ===== *)
theory Sds_Args
  imports Sds_Text
begin

text \<open>
  \<^verbatim>\<open>sdssplitargs\<close> of \<^verbatim>\<open>sds.c\<close>, the parser of argument lines (configuration files, inline
  commands), as the inverse of the quoting of \<^verbatim>\<open>sdscatrepr\<close>.
\<close>

definition is_hex_digit :: "char \<Rightarrow> bool" where
  "is_hex_digit c \<longleftrightarrow>
     (48 \<le> (of_char c :: nat) \<and> (of_char c :: nat) \<le> 57) \<or>
     (97 \<le> (of_char c :: nat) \<and> (of_char c :: nat) \<le> 102) \<or>
     (65 \<le> (of_char c :: nat) \<and> (of_char c :: nat) \<le> 70)"

definition hex_digit_to_int :: "char \<Rightarrow> nat" where
  "hex_digit_to_int c =
     (case map_of
        [(CHR ''0'', 0), (CHR ''1'', 1), (CHR ''2'', 2), (CHR ''3'', 3), (CHR ''4'', 4), (CHR ''5'', 5),
         (CHR ''6'', 6), (CHR ''7'', 7), (CHR ''8'', 8), (CHR ''9'', 9),
         (CHR ''a'', 10), (CHR ''A'', 10), (CHR ''b'', 11), (CHR ''B'', 11), (CHR ''c'', 12), (CHR ''C'', 12),
         (CHR ''d'', 13), (CHR ''D'', 13), (CHR ''e'', 14), (CHR ''E'', 14), (CHR ''f'', 15), (CHR ''F'', 15)] c
      of None \<Rightarrow> 0 | Some d \<Rightarrow> d)"

definition unescape :: "char \<Rightarrow> char" where
  "unescape c =
     (if c = CHR ''n'' then CHR 0x0A
      else if c = CHR ''r'' then CHR 0x0D
      else if c = CHR ''t'' then CHR 0x09
      else if c = CHR ''b'' then CHR 0x08
      else if c = CHR ''a'' then CHR 0x07
      else c)"

text \<open>
  The token loop of \<^verbatim>\<open>sdssplitargs\<close> on the rest of the line (a C string), with the flags
  \<^verbatim>\<open>inq\<close> and \<^verbatim>\<open>insq\<close> as a mode; the result is the token and what follows it.
\<close>

datatype quoting = Plain | Inq | Insq

function split_token :: "quoting \<Rightarrow> string \<Rightarrow> string \<Rightarrow> (string \<times> string) option" where
  "split_token Inq current p =
     (case p of
        [] \<Rightarrow> None
      | c # q \<Rightarrow>
          if c = BACKSLASH \<and> length q \<ge> 3 \<and> q ! 0 = CHR ''x'' \<and> is_hex_digit (q ! 1) \<and> is_hex_digit (q ! 2)
          then split_token Inq (current @ [char_of (hex_digit_to_int (q ! 1) * 16 + hex_digit_to_int (q ! 2))]) (drop 3 q)
          else if c = BACKSLASH \<and> q \<noteq> [] then split_token Inq (current @ [unescape (hd q)]) (tl q)
          else if c = DQUOTE then (if q \<noteq> [] \<and> \<not> isspace (hd q) then None else Some (current, q))
          else split_token Inq (current @ [c]) q)"
| "split_token Insq current p =
     (case p of
        [] \<Rightarrow> None
      | c # q \<Rightarrow>
          if c = BACKSLASH \<and> q \<noteq> [] \<and> hd q = SQUOTE then split_token Insq (current @ [SQUOTE]) (tl q)
          else if c = SQUOTE then (if q \<noteq> [] \<and> \<not> isspace (hd q) then None else Some (current, q))
          else split_token Insq (current @ [c]) q)"
| "split_token Plain current p =
     (case p of
        [] \<Rightarrow> Some (current, [])
      | c # q \<Rightarrow>
          if c \<in> {CHR '' '', CHR 0x0A, CHR 0x0D, CHR 0x09} then Some (current, q)
          else if c = DQUOTE then split_token Inq current q
          else if c = SQUOTE then split_token Insq current q
          else split_token Plain (current @ [c]) q)"
  by pat_completeness auto
termination by (relation "measure (\<lambda>(m, cur, p). length p)") auto

declare split_token.simps [simp del]

lemma split_token_shorter:
  "split_token m current p = Some (t, r) \<Longrightarrow> length r \<le> length p - 1"
proof (induction "length p" arbitrary: m current p rule: less_induct)
  case less
  note IH = less.hyps [rotated]
  show ?case
  proof (cases p)
    case Nil
    with less.prems show ?thesis by (cases m) (simp_all add: split_token.simps)
  next
    case (Cons c q)
    with less.prems show ?thesis
      by (cases m) (auto simp: split_token.simps [of _ "c # q"] split: if_splits dest!: IH)
  qed
qed
function sdssplitargs_loop :: "string \<Rightarrow> string list \<Rightarrow> string list option" where
  "sdssplitargs_loop p vector =
     (let p = dropWhile isspace p in
      if p = [] then Some vector
      else (case split_token Plain [] p of
              None \<Rightarrow> None
            | Some (current, p) \<Rightarrow> sdssplitargs_loop p (vector @ [current])))"
  by pat_completeness auto
termination
proof (relation "measure (\<lambda>(p, vector). length p)"; (simp; fail)?)
  fix p vector q x2 current r
  assume "q = dropWhile isspace p" "q \<noteq> []" "split_token Plain [] q = Some x2" "(current, r) = x2"
  then have "length q \<le> length p" "0 < length q" "length r \<le> length q - 1"
    using split_token_shorter [of Plain "[]" q current r] length_dropWhile_le [of isspace p] by simp_all
  then have "length r < length p" by linarith
  then show "((r, vector @ [current]), p, vector) \<in> measure (\<lambda>(p, vector). length p)" by simp
qed

declare sdssplitargs_loop.simps [simp del]

definition sdssplitargs :: "string \<Rightarrow> string list option" where
  "sdssplitargs line = sdssplitargs_loop line []"

lemma hex_digit_simps:
  "hex_digit 0 = CHR ''0''" "hex_digit (Suc 0) = CHR ''1''" "hex_digit 2 = CHR ''2''"
  "hex_digit 3 = CHR ''3''" "hex_digit 4 = CHR ''4''" "hex_digit 5 = CHR ''5''"
  "hex_digit 6 = CHR ''6''" "hex_digit 7 = CHR ''7''" "hex_digit 8 = CHR ''8''"
  "hex_digit 9 = CHR ''9''" "hex_digit 10 = CHR ''a''" "hex_digit 11 = CHR ''b''"
  "hex_digit 12 = CHR ''c''" "hex_digit 13 = CHR ''d''" "hex_digit 14 = CHR ''e''"
  "hex_digit 15 = CHR ''f''"
  by (simp_all add: hex_digit_def char_of_def bit_Suc_0_iff)

lemma hex_digit_roundtrip:
  assumes "d < 16"
  shows "is_hex_digit (hex_digit d)" "hex_digit_to_int (hex_digit d) = d"
proof -
  have "d = 0 \<or> d = 1 \<or> d = 2 \<or> d = 3 \<or> d = 4 \<or> d = 5 \<or> d = 6 \<or> d = 7 \<or> d = 8 \<or> d = 9 \<or>
    d = 10 \<or> d = 11 \<or> d = 12 \<or> d = 13 \<or> d = 14 \<or> d = 15" using assms by presburger
  then show "is_hex_digit (hex_digit d)" "hex_digit_to_int (hex_digit d) = d"
    by (elim disjE; simp add: hex_digit_simps is_hex_digit_def hex_digit_to_int_def)+
qed

lemma split_token_repr: "split_token Inq current (repr_char c @ r) = split_token Inq (current @ [c]) r"
proof -
  let ?n = "of_char c :: nat"
  have "?n < 16 * 16" by simp
  then have d: "?n div 16 < 16" "?n mod 16 < 16" by (rule less_mult_imp_div_less) simp
  have byte: "char_of (?n div 16 * 16 + ?n mod 16) = c" by simp
  show ?thesis
    using hex_digit_roundtrip [OF d(1)] hex_digit_roundtrip [OF d(2)] byte
    by (simp add: repr_char_def split_token.simps(1) [of current "x # y" for x y] unescape_def)
qed

lemma split_token_quoted:
  "q = [] \<or> isspace (hd q) \<Longrightarrow>
    split_token Inq current (concat (map repr_char p) @ DQUOTE # q) = Some (current @ p, q)"
proof (induction p arbitrary: current)
  case Nil
  then show ?case by (auto simp: split_token.simps(1) [of current "DQUOTE # q"])
next
  case (Cons c p)
  then show ?case by (simp add: split_token_repr)
qed

lemma sdssplitargs_loop_blank: "isspace c \<Longrightarrow> sdssplitargs_loop (c # q) vector = sdssplitargs_loop q vector"
  by (simp add: sdssplitargs_loop.simps [of "c # q"] sdssplitargs_loop.simps [of q])

lemma sdssplitargs_loop_quoted:
  assumes "q = [] \<or> isspace (hd q)"
  shows "sdssplitargs_loop (quoted p @ q) vector = sdssplitargs_loop q (vector @ [p])"
  using split_token_quoted [OF assms, of "[]" p]
  by (simp add: sdssplitargs_loop.simps [of "DQUOTE # x" for x] quoted_def isspace_def
    split_token.simps(3) [of "[]" "DQUOTE # x" for x])

lemma sdssplitargs_join:
  "sdssplitargs_loop (join_with '' '' (map quoted ps)) vector = Some (vector @ ps)"
proof (induction ps arbitrary: vector)
  case Nil
  then show ?case by (simp add: sdssplitargs_loop.simps)
next
  case (Cons p ps)
  show ?case
  proof (cases ps)
    case Nil
    then show ?thesis
      using sdssplitargs_loop_quoted [of "[]" p vector] by (simp add: sdssplitargs_loop.simps [of "[]"])
  next
    case (Cons p' ps')
    with Cons.IH [of "vector @ [p]"] show ?thesis
      by (simp add: sdssplitargs_loop_quoted sdssplitargs_loop_blank isspace_def)
  qed
qed

lemma quoted_c_string: "NUL \<notin> set (quoted p)"
proof -
  have "NUL \<notin> set (repr_char c)" for c
  proof -
    have "hex_digit d \<noteq> NUL" if "d < 16" for d
      using hex_digit_roundtrip(1) [OF that] by (auto simp: is_hex_digit_def)
    moreover have "(of_char c :: nat) < 16 * 16" by simp
    then have "(of_char c :: nat) div 16 < 16" by (rule less_mult_imp_div_less)
    ultimately have "hex_digit (of_char c div 16) \<noteq> NUL" "hex_digit (of_char c mod 16) \<noteq> NUL" by auto
    then show ?thesis by (auto simp: repr_char_def isprint_def)
  qed
  then show ?thesis by (auto simp: quoted_def)
qed

text \<open>
  C22. Quoting and parsing are inverse: a line made of any byte strings, each appended to an empty
  or non-empty buffer by \<^verbatim>\<open>sdscatrepr\<close>, parses back. What \<^verbatim>\<open>sdscatrepr\<close> appends for \<open>p\<close> is a C
  string; joined by spaces, such pieces are split by \<^verbatim>\<open>sdssplitargs\<close> into the original strings.
\<close>

theorem sdscatrepr_sdssplitargs:
  assumes "allocator_ok a" and "sds_inv s" and "\<And>p. p \<in> set ps \<Longrightarrow> sdslen s + 4 * length p + 2 < SDS_LIMIT"
  shows "\<exists>rs. length rs = length ps \<and> sdssplitargs (join_with '' '' rs) = Some ps \<and>
    (\<forall>i < length ps. NUL \<notin> set (rs ! i) \<and>
       (\<exists>s'. sdscatrepr (sdscatlen a) s (ps ! i) = Some s' \<and> sds_inv s' \<and> sds_str s' = sds_str s @ rs ! i))"
proof (intro exI [of _ "map quoted ps"] conjI allI impI)
  fix i assume i: "i < length ps"
  have "length (concat (map repr_char p)) \<le> 4 * length p" for p
    by (induction p) (auto simp: repr_char_def)
  then have "length (sds_str s) + length (quoted (ps ! i)) < SDS_LIMIT"
    using assms(3) [of "ps ! i"] i length_sds_str [OF assms(2)]
    by (simp add: quoted_def) (meson add_le_mono le_less_trans nat_add_left_cancel_le order_refl Suc_le_mono)
  then show "\<exists>s'. sdscatrepr (sdscatlen a) s (ps ! i) = Some s' \<and> sds_inv s' \<and>
    sds_str s' = sds_str s @ map quoted ps ! i"
    using sdsbuf.catrepr_append [of a s "ps ! i"] assms(1,2) i by auto
qed (use sdssplitargs_join quoted_c_string in \<open>auto simp: sdssplitargs_def\<close>)

theorem sdscatrepr_sdssplitargs_witness:
  "\<exists>rs. length rs = 2 \<and> sdssplitargs (join_with '' '' rs) = Some [''a b'', [NUL, CHR 0xFF, DQUOTE]]"
proof -
  let ?ps = "[''a b'', [NUL, CHR 0xFF, DQUOTE]]"
  have "sdslen (example_sds []) + 4 * length p + 2 < SDS_LIMIT" if "p \<in> set ?ps" for p
    using that by (auto simp: example_sds_str)
  moreover have "sds_inv (example_sds [])" by (simp add: example_sds_inv)
  ultimately obtain rs where "length rs = length ?ps" "sdssplitargs (join_with '' '' rs) = Some ?ps"
    using sdscatrepr_sdssplitargs [of exact_allocator "example_sds []" ?ps] exact_allocator_ok by blast
  then show ?thesis by (intro exI [of _ rs]) simp
qed

end
