(* ===== verification/Adlist.thy ===== *)
theory Adlist
  imports Redis_Prelude "HOL-Library.Monad_Syntax"
begin

text \<open>
  \<^verbatim>\<open>adlist.c\<close>: the generic doubly linked list. Nodes live in a heap, a map from addresses to
  nodes; a pointer is \<open>None\<close> (\<^verbatim>\<open>NULL\<close>) or an address. Reading or writing through a null or
  dangling pointer makes the whole operation \<open>None\<close>, so that a result \<open>Some\<close> also says that
  the operation is memory safe. The address \<^verbatim>\<open>zmalloc\<close> returns is an argument of the operations that
  allocate; what is known of it is that it is not in use. The \<^verbatim>\<open>free\<close> callback concerns the
  values only, which the model does not own.

  Every operation is shown to implement the corresponding operation on lists of values
  through the representation predicate \<open>list_rep\<close>.
\<close>

type_synonym ptr = "nat option"

record 'v listNode =
  ln_prev :: ptr
  ln_next :: ptr
  ln_value :: 'v

type_synonym 'v node_heap = "nat \<rightharpoonup> 'v listNode"

record 'v dlist =
  l_head :: ptr
  l_tail :: ptr
  l_len :: nat
  l_dup :: "('v \<Rightarrow> 'v option) option"
  l_match :: "('v \<Rightarrow> 'v \<Rightarrow> bool) option"

datatype direction = AL_START_HEAD | AL_START_TAIL

record listIter =
  li_next :: ptr
  li_direction :: direction

subsection \<open>Access through pointers\<close>

definition deref :: "'v node_heap \<Rightarrow> ptr \<Rightarrow> 'v listNode option" where
  "deref h p = (case p of None \<Rightarrow> None | Some a \<Rightarrow> h a)"

definition set_next :: "'v node_heap \<Rightarrow> ptr \<Rightarrow> ptr \<Rightarrow> 'v node_heap option" where
  "set_next h p q = (case p of None \<Rightarrow> None
     | Some a \<Rightarrow> (case h a of None \<Rightarrow> None | Some n \<Rightarrow> Some (h(a \<mapsto> n\<lparr>ln_next := q\<rparr>))))"

definition set_prev :: "'v node_heap \<Rightarrow> ptr \<Rightarrow> ptr \<Rightarrow> 'v node_heap option" where
  "set_prev h p q = (case p of None \<Rightarrow> None
     | Some a \<Rightarrow> (case h a of None \<Rightarrow> None | Some n \<Rightarrow> Some (h(a \<mapsto> n\<lparr>ln_prev := q\<rparr>))))"

definition zfree :: "'v node_heap \<Rightarrow> ptr \<Rightarrow> 'v node_heap option" where
  "zfree h p = (case p of None \<Rightarrow> Some h | Some a \<Rightarrow> if h a = None then None else Some (h(a := None)))"

subsection \<open>The operations\<close>

definition listCreate :: "'v dlist" where
  "listCreate = \<lparr>l_head = None, l_tail = None, l_len = 0, l_dup = None, l_match = None\<rparr>"

fun listEmpty_loop :: "'v node_heap \<Rightarrow> ptr \<Rightarrow> nat \<Rightarrow> 'v node_heap option" where
  "listEmpty_loop h current 0 = Some h"
| "listEmpty_loop h current (Suc len) = do {
     n \<leftarrow> deref h current;
     h \<leftarrow> zfree h current;
     listEmpty_loop h (ln_next n) len
   }"

definition listEmpty :: "'v node_heap \<Rightarrow> 'v dlist \<Rightarrow> ('v node_heap \<times> 'v dlist) option" where
  "listEmpty h l = do {
     h \<leftarrow> listEmpty_loop h (l_head l) (l_len l);
     Some (h, l\<lparr>l_head := None, l_tail := None, l_len := 0\<rparr>)
   }"


definition listAddNodeTail :: "nat \<Rightarrow> 'v node_heap \<Rightarrow> 'v dlist \<Rightarrow> 'v \<Rightarrow> ('v node_heap \<times> 'v dlist) option" where
  "listAddNodeTail node h l v =
     (if l_len l = 0 then
        Some (h(node \<mapsto> \<lparr>ln_prev = None, ln_next = None, ln_value = v\<rparr>),
          l\<lparr>l_head := Some node, l_tail := Some node, l_len := l_len l + 1\<rparr>)
      else do {
        let h = h(node \<mapsto> \<lparr>ln_prev = l_tail l, ln_next = None, ln_value = v\<rparr>);
        h \<leftarrow> set_next h (l_tail l) (Some node);
        Some (h, l\<lparr>l_tail := Some node, l_len := l_len l + 1\<rparr>)
      })"



definition listGetIterator :: "'v dlist \<Rightarrow> direction \<Rightarrow> listIter" where
  "listGetIterator l dir =
     \<lparr>li_next = (if dir = AL_START_HEAD then l_head l else l_tail l), li_direction = dir\<rparr>"

definition listRewind :: "'v dlist \<Rightarrow> listIter" where
  "listRewind l = \<lparr>li_next = l_head l, li_direction = AL_START_HEAD\<rparr>"

definition listRewindTail :: "'v dlist \<Rightarrow> listIter" where
  "listRewindTail l = \<lparr>li_next = l_tail l, li_direction = AL_START_TAIL\<rparr>"

definition listNext :: "'v node_heap \<Rightarrow> listIter \<Rightarrow> (ptr \<times> listIter) option" where
  "listNext h iter =
     (let current = li_next iter in
      if current \<noteq> None then do {
        n \<leftarrow> deref h current;
        Some (current, iter\<lparr>li_next := (if li_direction iter = AL_START_HEAD then ln_next n else ln_prev n)\<rparr>)
      } else Some (current, iter))"

text \<open>
  The loop of \<^verbatim>\<open>listDup\<close>: \<open>addrs\<close> are the addresses \<^verbatim>\<open>zmalloc\<close> returns for the new nodes. A
  failing \<^verbatim>\<open>dup\<close> callback releases the copy (result \<^verbatim>\<open>NULL\<close>).
\<close>

partial_function (option) listDup_loop ::
  "nat list \<Rightarrow> 'v node_heap \<Rightarrow> listIter \<Rightarrow> 'v dlist \<Rightarrow> ('v node_heap \<times> 'v dlist option) option" where
  [code]: "listDup_loop addrs h iter copy =
     Option.bind (listNext h iter) (\<lambda>(node, iter).
       if node = None then Some (h, Some copy)
       else
         Option.bind (deref h node) (\<lambda>n.
           case (case l_dup copy of Some dup \<Rightarrow> dup (ln_value n) | None \<Rightarrow> Some (ln_value n)) of
             None \<Rightarrow> Option.bind (listEmpty h copy) (\<lambda>(h, copy). Some (h, None))
           | Some v \<Rightarrow>
               (case addrs of
                  [] \<Rightarrow> None
                | a # addrs \<Rightarrow>
                    Option.bind (listAddNodeTail a h copy v) (\<lambda>(h, copy). listDup_loop addrs h iter copy))))"

definition listDup :: "nat list \<Rightarrow> 'v node_heap \<Rightarrow> 'v dlist \<Rightarrow> ('v node_heap \<times> 'v dlist option) option" where
  "listDup addrs h orig =
     listDup_loop addrs h (listRewind orig) (listCreate\<lparr>l_dup := l_dup orig, l_match := l_match orig\<rparr>)"

partial_function (option) listSearchKey_loop ::
  "'v node_heap \<Rightarrow> 'v dlist \<Rightarrow> 'v \<Rightarrow> listIter \<Rightarrow> ptr option" where
  [code]: "listSearchKey_loop h l key iter =
     Option.bind (listNext h iter) (\<lambda>(node, iter).
       if node = None then Some None
       else
         Option.bind (deref h node) (\<lambda>n.
           if (case l_match l of Some m \<Rightarrow> m (ln_value n) key | None \<Rightarrow> key = ln_value n) then Some node
           else listSearchKey_loop h l key iter))"

definition listSearchKey :: "'v node_heap \<Rightarrow> 'v dlist \<Rightarrow> 'v \<Rightarrow> ptr option" where
  "listSearchKey h l key = listSearchKey_loop h l key (listRewind l)"

fun listIndex_loop :: "'v node_heap \<Rightarrow> direction \<Rightarrow> nat \<Rightarrow> ptr \<Rightarrow> ptr option" where
  "listIndex_loop h dir 0 n = Some n"
| "listIndex_loop h dir (Suc index) n =
     (if n = None then Some n
      else do {
        x \<leftarrow> deref h n;
        listIndex_loop h dir index (if dir = AL_START_HEAD then ln_next x else ln_prev x)
      })"

definition listIndex :: "'v node_heap \<Rightarrow> 'v dlist \<Rightarrow> int \<Rightarrow> ptr option" where
  "listIndex h l index =
     (if index < 0 then listIndex_loop h AL_START_TAIL (nat ((- index) - 1)) (l_tail l)
      else listIndex_loop h AL_START_HEAD (nat index) (l_head l))"




subsection \<open>The list a heap represents\<close>

type_synonym 'v cells = "(nat \<times> 'v) list"

definition first :: "'v cells \<Rightarrow> ptr \<Rightarrow> ptr" where
  "first xs n = (case xs of [] \<Rightarrow> n | x # _ \<Rightarrow> Some (fst x))"

definition final :: "ptr \<Rightarrow> 'v cells \<Rightarrow> ptr" where
  "final p xs = (if xs = [] then p else Some (fst (last xs)))"

fun dlseg :: "'v node_heap \<Rightarrow> ptr \<Rightarrow> 'v cells \<Rightarrow> ptr \<Rightarrow> bool" where
  "dlseg h p [] n \<longleftrightarrow> True"
| "dlseg h p (x # xs) n \<longleftrightarrow>
     h (fst x) = Some \<lparr>ln_prev = p, ln_next = first xs n, ln_value = snd x\<rparr> \<and> dlseg h (Some (fst x)) xs n"

abbreviation addrs_of :: "'v cells \<Rightarrow> nat set" where "addrs_of xs \<equiv> fst ` set xs"

definition list_rep :: "'v node_heap \<Rightarrow> 'v dlist \<Rightarrow> 'v cells \<Rightarrow> bool" where
  "list_rep h l xs \<longleftrightarrow> distinct (map fst xs) \<and> dlseg h None xs None \<and>
     l_head l = first xs None \<and> l_tail l = final None xs \<and> l_len l = length xs"

named_theorems seg_simps \<open>list segments\<close>

lemma first_simps [seg_simps]: "first [] n = n" "first (x # xs) n = Some (fst x)"
  "first (xs @ ys) n = first xs (first ys n)"
  by (auto simp: first_def split: list.splits)

lemma final_simps [seg_simps]: "final p [] = p" "final p (xs @ [x]) = Some (fst x)"
  "final p (xs @ ys) = final (final p xs) ys" "final p (x # xs) = final (Some (fst x)) xs"
  by (auto simp: final_def)

lemma dlseg_append [seg_simps]:
  "dlseg h p (xs @ ys) n \<longleftrightarrow> dlseg h p xs (first ys n) \<and> dlseg h (final p xs) ys n"
  by (induction xs arbitrary: p) (auto simp: seg_simps)

lemma dlseg_frame:
  "(\<And>a. a \<in> addrs_of xs \<Longrightarrow> h' a = h a) \<Longrightarrow> dlseg h' p xs n \<longleftrightarrow> dlseg h p xs n"
  by (induction xs arbitrary: p) auto

lemma dlseg_dom: "dlseg h p xs n \<Longrightarrow> a \<in> addrs_of xs \<Longrightarrow> h a \<noteq> None"
  by (induction xs arbitrary: p) auto

lemma dlseg_upd [simp]: "a \<notin> addrs_of xs \<Longrightarrow> dlseg (h(a := v)) p xs n \<longleftrightarrow> dlseg h p xs n"
  by (intro dlseg_frame) auto

lemma first_other: "b \<notin> addrs_of xs \<Longrightarrow> n \<noteq> Some b \<Longrightarrow> first xs n \<noteq> Some b"
  by (auto simp: first_def split: list.splits)

lemma final_other: "b \<notin> addrs_of xs \<Longrightarrow> p \<noteq> Some b \<Longrightarrow> final p xs \<noteq> Some b"
  by (auto simp: final_def dest: last_in_set)

lemmas list_op_simps = deref_def set_next_def set_prev_def zfree_def list_rep_def seg_simps
  image_Un first_other final_other

lemma fresh_not_in: "list_rep h l xs \<Longrightarrow> h a = None \<Longrightarrow> a \<notin> addrs_of xs"
  by (auto simp: list_rep_def dest: dlseg_dom)

text \<open>What an operation leaves alone: every address outside the given set.\<close>

definition heap_frame :: "nat set \<Rightarrow> 'v node_heap \<Rightarrow> 'v node_heap \<Rightarrow> bool" where
  "heap_frame A h h' \<longleftrightarrow> (\<forall>b. b \<notin> A \<longrightarrow> h' b = h b)"


lemma listAddNodeTail_rep:
  assumes "list_rep h l xs" and "h a = None"
  shows "\<exists>h' l'. listAddNodeTail a h l v = Some (h', l') \<and> list_rep h' l' (xs @ [(a, v)]) \<and>
    heap_frame (insert a (addrs_of xs)) h h' \<and> l_dup l' = l_dup l \<and> l_match l' = l_match l"
  using assms fresh_not_in [OF assms]
  by (cases xs rule: rev_cases) (auto simp: listAddNodeTail_def list_op_simps heap_frame_def)







lemma listEmpty_loop_frees:
  "dlseg h p xs n \<Longrightarrow> distinct (map fst xs) \<Longrightarrow>
    listEmpty_loop h (first xs n) (length xs) = Some (h |` (- addrs_of xs))"
proof (induction xs arbitrary: h p)
  case Nil
  then show ?case by (simp add: restrict_map_def)
next
  case (Cons x xs)
  have eq: "(h(fst x := None)) |` (- addrs_of xs) = h |` (- addrs_of (x # xs))"
    by (auto simp: restrict_map_def fun_eq_iff)
  have "dlseg (h(fst x := None)) (Some (fst x)) xs n" "distinct (map fst xs)" using Cons.prems by auto
  from Cons.IH [OF this, unfolded eq] Cons.prems show ?case by (simp add: list_op_simps fun_upd_def)
qed

lemma listEmpty_rep:
  "list_rep h l xs \<Longrightarrow>
    listEmpty h l = Some (h |` (- addrs_of xs), l\<lparr>l_head := None, l_tail := None, l_len := 0\<rparr>)"
  using listEmpty_loop_frees [of h None xs None] by (simp add: listEmpty_def list_rep_def)

subsection \<open>Traversal\<close>

lemma listSearchKey_loop_find:
  "dlseg h p xs None \<Longrightarrow>
    listSearchKey_loop h l key \<lparr>li_next = first xs None, li_direction = AL_START_HEAD\<rparr> =
      Some (map_option fst (find (\<lambda>x. case l_match l of Some m \<Rightarrow> m (snd x) key | None \<Rightarrow> key = snd x) xs))"
proof (induction xs arbitrary: p)
  case Nil
  then show ?case by (subst listSearchKey_loop.simps) (simp add: listNext_def seg_simps)
next
  case (Cons x xs)
  with Cons.IH [of "Some (fst x)"] show ?case
    by (subst listSearchKey_loop.simps; cases "l_match l") (auto simp: listNext_def list_op_simps)
qed

lemma listSearchKey_find:
  "list_rep h l xs \<Longrightarrow> listSearchKey h l key =
    Some (map_option fst (find (\<lambda>x. case l_match l of Some m \<Rightarrow> m (snd x) key | None \<Rightarrow> key = snd x) xs))"
  using listSearchKey_loop_find [of h None xs l key] by (simp add: listSearchKey_def listRewind_def list_rep_def)

lemma listIndex_loop_null [simp]: "listIndex_loop h dir k None = Some None"
  by (cases k) auto

lemma listIndex_loop_head:
  "dlseg h p xs None \<Longrightarrow> listIndex_loop h AL_START_HEAD k (first xs None) =
    Some (if k < length xs then Some (fst (xs ! k)) else None)"
proof (induction xs arbitrary: p k)
  case (Cons x xs)
  then show ?case by (cases k) (auto simp: list_op_simps)
qed (simp add: seg_simps)

lemma listIndex_loop_tail:
  "dlseg h None xs n \<Longrightarrow> listIndex_loop h AL_START_TAIL k (final None xs) =
    Some (if k < length xs then Some (fst (rev xs ! k)) else None)"
proof (induction xs arbitrary: n k rule: rev_induct)
  case (snoc x xs)
  then show ?case by (cases k) (auto simp: list_op_simps)
qed (simp add: seg_simps)

lemma listIndex_nth:
  assumes "list_rep h l xs"
  shows "listIndex h l i = Some
    (if 0 \<le> i \<and> i < int (length xs) then Some (fst (xs ! nat i))
     else if i < 0 \<and> - i \<le> int (length xs) then Some (fst (xs ! nat (int (length xs) + i)))
     else None)"
proof (cases "i < 0")
  case True
  have "rev xs ! nat (- i - 1) = xs ! nat (int (length xs) + i)" if "- i \<le> int (length xs)"
  proof -
    have "length xs - Suc (nat (- i - 1)) = nat (int (length xs) + i)" using that True by linarith
    then show ?thesis using that True by (subst rev_nth) auto
  qed
  moreover have "nat (- i - 1) < length xs \<longleftrightarrow> - i \<le> int (length xs)" using True by linarith
  ultimately show ?thesis
    using True assms listIndex_loop_tail [of h xs None "nat (- i - 1)"] by (simp add: listIndex_def list_rep_def)
next
  case False
  then show ?thesis
    using assms listIndex_loop_head [of h None xs "nat i"] by (simp add: listIndex_def list_rep_def nat_less_iff)
qed

subsection \<open>Duplication\<close>

definition dup_value :: "'v dlist \<Rightarrow> 'v \<Rightarrow> 'v option" where
  "dup_value l v = (case l_dup l of Some dup \<Rightarrow> dup v | None \<Rightarrow> Some v)"

lemma listDup_loop_step:
  assumes "dlseg h p (x # xs) None"
  shows "listDup_loop addrs h \<lparr>li_next = first (x # xs) None, li_direction = AL_START_HEAD\<rparr> copy =
    (case dup_value copy (snd x) of
       None \<Rightarrow> Option.bind (listEmpty h copy) (\<lambda>(h, copy). Some (h, None))
     | Some v \<Rightarrow> (case addrs of [] \<Rightarrow> None
        | a # addrs \<Rightarrow> Option.bind (listAddNodeTail a h copy v)
            (\<lambda>(h, copy). listDup_loop addrs h \<lparr>li_next = first xs None, li_direction = AL_START_HEAD\<rparr> copy)))"
  using assms
  by (subst listDup_loop.simps) (simp add: listNext_def list_op_simps dup_value_def cong: option.case_cong)

lemma listDup_loop_end:
  "listDup_loop addrs h \<lparr>li_next = first [] None, li_direction = AL_START_HEAD\<rparr> copy = Some (h, Some copy)"
  by (subst listDup_loop.simps) (simp add: listNext_def seg_simps)

text \<open>One round: the new node extends the copy and leaves the rest of the original alone.\<close>

lemma listDup_loop_round:
  assumes "dlseg h p xs None" and "list_rep h c cs" and "addrs_of xs \<inter> addrs_of cs = {}"
    and "distinct (a # addrs)" and "\<forall>b\<in>set (a # addrs). h b = None"
  obtains h' c' where "listAddNodeTail a h c v = Some (h', c')" and "list_rep h' c' (cs @ [(a, v)])"
    and "dlseg h' p xs None" and "addrs_of xs \<inter> addrs_of (cs @ [(a, v)]) = {}"
    and "\<forall>b\<in>set addrs. h' b = None" and "heap_frame (insert a (addrs_of cs)) h h'" and "dup_value c' = dup_value c"
proof -
  have a: "h a = None" using assms(5) by simp
  obtain h' c' where h': "listAddNodeTail a h c v = Some (h', c')" "list_rep h' c' (cs @ [(a, v)])"
    "heap_frame (insert a (addrs_of cs)) h h'" "l_dup c' = l_dup c"
    using listAddNodeTail_rep [OF assms(2) a] by blast
  have xs: "b \<notin> insert a (addrs_of cs)" if "b \<in> addrs_of xs" for b
    using dlseg_dom [OF assms(1) that] a assms(3) that by auto
  have "b \<notin> insert a (addrs_of cs)" if "b \<in> set addrs" for b
    using fresh_not_in [OF assms(2), of b] assms(4,5) that by auto
  then have "\<forall>b\<in>set addrs. h' b = None" using h'(3) assms(5) by (auto simp: heap_frame_def)
  moreover have "dlseg h' p xs None"
    using assms(1) dlseg_frame [of xs h' h p None] h'(3) xs by (auto simp: heap_frame_def)
  moreover have "addrs_of xs \<inter> addrs_of (cs @ [(a, v)]) = {}" using xs by auto
  moreover have "dup_value c' = dup_value c" using h'(4) by (simp add: dup_value_def fun_eq_iff)
  ultimately show ?thesis using h' by (intro that [of h' c']) simp_all
qed

lemma listDup_loop_copies:
  "dlseg h p xs None \<Longrightarrow> list_rep h c cs \<Longrightarrow> addrs_of xs \<inter> addrs_of cs = {} \<Longrightarrow> distinct addrs \<Longrightarrow>
   \<forall>b\<in>set addrs. h b = None \<Longrightarrow> length xs \<le> length addrs \<Longrightarrow>
   those (map (\<lambda>x. dup_value c (snd x)) xs) = Some vs \<Longrightarrow>
   \<exists>h' c'. listDup_loop addrs h \<lparr>li_next = first xs None, li_direction = AL_START_HEAD\<rparr> c = Some (h', Some c') \<and>
     list_rep h' c' (cs @ zip addrs vs) \<and> heap_frame (set addrs \<union> addrs_of cs) h h'"
proof (induction xs arbitrary: p h c cs addrs vs)
  case Nil
  then show ?case by (auto simp: listDup_loop_end heap_frame_def)
next
  case (Cons x xs)
  then obtain a as where as: "addrs = a # as" by (cases addrs) auto
  from Cons.prems(7) obtain v us where v: "dup_value c (snd x) = Some v" "vs = v # us"
    "those (map (\<lambda>x. dup_value c (snd x)) xs) = Some us" by (auto split: option.splits)
  have "dlseg h (Some (fst x)) xs None" "addrs_of xs \<inter> addrs_of cs = {}" using Cons.prems(1,3) by auto
  then obtain h' c' where r: "listAddNodeTail a h c v = Some (h', c')" "list_rep h' c' (cs @ [(a, v)])"
    "dlseg h' (Some (fst x)) xs None" "addrs_of xs \<inter> addrs_of (cs @ [(a, v)]) = {}"
    "\<forall>b\<in>set as. h' b = None" "heap_frame (insert a (addrs_of cs)) h h'" "dup_value c' = dup_value c"
    using listDup_loop_round [OF _ Cons.prems(2) _ Cons.prems(4,5) [unfolded as]] by metis
  from Cons.IH [OF r(3,2,4), of as us] Cons.prems(4,6) as r(5,7) v(3) obtain h2 c2 where
    "listDup_loop as h' \<lparr>li_next = first xs None, li_direction = AL_START_HEAD\<rparr> c' = Some (h2, Some c2)"
    "list_rep h2 c2 (cs @ (a, v) # zip as us)" "heap_frame (set as \<union> addrs_of (cs @ [(a, v)])) h' h2"
    by auto
  with r(1,6) v(1,2) as listDup_loop_step [OF Cons.prems(1)] show ?case by (auto simp: heap_frame_def)
qed

lemma listDup_loop_fails:
  "dlseg h p xs None \<Longrightarrow> list_rep h c cs \<Longrightarrow> addrs_of xs \<inter> addrs_of cs = {} \<Longrightarrow> distinct addrs \<Longrightarrow>
   \<forall>b\<in>set addrs. h b = None \<Longrightarrow> length xs \<le> length addrs \<Longrightarrow>
   those (map (\<lambda>x. dup_value c (snd x)) xs) = None \<Longrightarrow>
   listDup_loop addrs h \<lparr>li_next = first xs None, li_direction = AL_START_HEAD\<rparr> c = Some (h |` (- addrs_of cs), None)"
proof (induction xs arbitrary: p h c cs addrs)
  case (Cons x xs)
  then obtain a as where as: "addrs = a # as" by (cases addrs) auto
  show ?case
  proof (cases "dup_value c (snd x)")
    case None
    then show ?thesis
      using listDup_loop_step [OF Cons.prems(1), of addrs c] listEmpty_rep [OF Cons.prems(2)] by simp
  next
    case (Some v)
    with Cons.prems(7) have rest: "those (map (\<lambda>x. dup_value c (snd x)) xs) = None"
      by (auto split: option.splits)
    have "dlseg h (Some (fst x)) xs None" "addrs_of xs \<inter> addrs_of cs = {}" using Cons.prems(1,3) by auto
    then obtain h' c' where r: "listAddNodeTail a h c v = Some (h', c')" "list_rep h' c' (cs @ [(a, v)])"
      "dlseg h' (Some (fst x)) xs None" "addrs_of xs \<inter> addrs_of (cs @ [(a, v)]) = {}"
      "\<forall>b\<in>set as. h' b = None" "heap_frame (insert a (addrs_of cs)) h h'" "dup_value c' = dup_value c"
      using listDup_loop_round [OF _ Cons.prems(2) _ Cons.prems(4,5) [unfolded as]] by metis
    have "h' |` (- addrs_of (cs @ [(a, v)])) = h |` (- addrs_of cs)"
      using r(6) Cons.prems(5) as by (auto simp: heap_frame_def restrict_map_def fun_eq_iff)
    with Cons.IH [OF r(3,2,4), of as] Cons.prems(4,6) as r(5,7) rest r(1) Some
      listDup_loop_step [OF Cons.prems(1), of addrs c] show ?thesis by simp
  qed
qed simp

lemma listDup_rep:
  assumes "list_rep h l xs" and "distinct addrs" and "\<forall>b\<in>set addrs. h b = None" and "length xs \<le> length addrs"
  shows "case those (map (dup_value l \<circ> snd) xs) of
      Some vs \<Rightarrow> \<exists>h' c. listDup addrs h l = Some (h', Some c) \<and> list_rep h' c (zip addrs vs) \<and> list_rep h' l xs
    | None \<Rightarrow> listDup addrs h l = Some (h, None)"
proof -
  let ?c = "listCreate\<lparr>l_dup := l_dup l, l_match := l_match l\<rparr>"
  have c: "list_rep h ?c []" "dup_value ?c = dup_value l"
    by (auto simp: list_rep_def listCreate_def seg_simps dup_value_def fun_eq_iff)
  have l: "dlseg h None xs None" "l_head l = first xs None" using assms(1) by (auto simp: list_rep_def)
  have dup: "listDup addrs h l = listDup_loop addrs h \<lparr>li_next = first xs None, li_direction = AL_START_HEAD\<rparr> ?c"
    by (simp add: listDup_def listRewind_def l)
  have keep: "list_rep h' l xs" if "heap_frame (set addrs) h h'" for h'
  proof -
    have "h' b = h b" if "b \<in> addrs_of xs" for b
    proof -
      have "b \<notin> set addrs" using dlseg_dom [OF l(1) that] assms(3) by auto
      with \<open>heap_frame (set addrs) h h'\<close> show ?thesis by (simp add: heap_frame_def)
    qed
    then show ?thesis using assms(1) dlseg_frame [of xs h' h None None] by (simp add: list_rep_def)
  qed
  show ?thesis
  proof (cases "those (map (dup_value l \<circ> snd) xs)")
    case None
    then show ?thesis
      using listDup_loop_fails [OF l(1) c(1) _ assms(2-4)] dup c(2) by (simp add: comp_def restrict_map_def)
  next
    case (Some vs)
    then show ?thesis
      using listDup_loop_copies [OF l(1) c(1) _ assms(2-4), of vs] dup c(2) keep by (auto simp: comp_def)
  qed
qed

subsection \<open>Properties\<close>

text \<open>A list of two values, for the examples.\<close>

definition example_heap :: "string node_heap" where
  "example_heap = Map.empty(10 \<mapsto> \<lparr>ln_prev = None, ln_next = Some 20, ln_value = ''a''\<rparr>,
     20 \<mapsto> \<lparr>ln_prev = Some 10, ln_next = None, ln_value = ''b''\<rparr>)"

definition example_list :: "string dlist" where
  "example_list = \<lparr>l_head = Some 10, l_tail = Some 20, l_len = 2, l_dup = None, l_match = None\<rparr>"

lemma example_list_rep: "list_rep example_heap example_list [(10, ''a''), (20, ''b'')]"
  by (simp add: list_rep_def example_heap_def example_list_def seg_simps)





text \<open>
  C35. Lookups: \<^verbatim>\<open>listIndex\<close> gives the node at a position counted from either end, or a null
  pointer, and \<^verbatim>\<open>listSearchKey\<close> the first node whose value matches.
\<close>

theorem adlist_lookup_correct:
  assumes "list_rep h l xs"
  shows "listIndex h l i = Some
      (if 0 \<le> i \<and> i < int (length xs) then Some (fst (xs ! nat i))
       else if i < 0 \<and> - i \<le> int (length xs) then Some (fst (xs ! nat (int (length xs) + i)))
       else None) \<and>
    listSearchKey h l key =
      Some (map_option fst (find (\<lambda>x. case l_match l of Some m \<Rightarrow> m (snd x) key | None \<Rightarrow> key = snd x) xs))"
  using listIndex_nth [OF assms] listSearchKey_find [OF assms] by blast

theorem adlist_lookup_correct_witness:
  "listIndex example_heap example_list (- 1) = Some (Some 20) \<and> listSearchKey example_heap example_list ''c'' = Some None"
  using adlist_lookup_correct [OF example_list_rep, of "- 1" "''c''"] by (simp add: example_list_def)

text \<open>
  C36. \<^verbatim>\<open>listDup\<close> builds an independent copy in fresh memory and keeps the original; when the
  duplication of a value fails it returns a null pointer and has released everything it allocated.
\<close>

theorem listDup_correct:
  assumes "list_rep h l xs" and "distinct addrs" and "\<forall>b\<in>set addrs. h b = None" and "length xs \<le> length addrs"
  shows "case those (map (dup_value l \<circ> snd) xs) of
      Some vs \<Rightarrow> \<exists>h' c. listDup addrs h l = Some (h', Some c) \<and> list_rep h' c (zip addrs vs) \<and> list_rep h' l xs
    | None \<Rightarrow> listDup addrs h l = Some (h, None)"
  using assms by (rule listDup_rep)

theorem listDup_correct_witness:
  "\<exists>h' c. listDup [1, 2] example_heap example_list = Some (h', Some c) \<and> list_rep h' c [(1, ''a''), (2, ''b'')]"
  using listDup_correct [OF example_list_rep, of "[1, 2]"]
  by (auto simp: example_heap_def example_list_def dup_value_def)

end
