(* ===== verification/Dict.thy ===== *)
theory Dict
  imports Redis_Prelude "HOL-Library.Monad_Syntax" "HOL-Library.Multiset"
begin

unbundle bit_operations_syntax

text \<open>
  \<^verbatim>\<open>dict.c\<close>: the hash table with chaining and incremental rehashing. A table is a list of
  buckets, a bucket the list of its entries in chain order; the pointer to an entry is its
  position (table, bucket, place in the chain). Access to a bucket outside the table (or of a
  table that is \<^verbatim>\<open>NULL\<close>), a failing assertion and a null entry pointer make an operation
  \<open>None\<close>.

  The callbacks of a \<^verbatim>\<open>dictType\<close> are functions of the record \<open>dictType\<close>. What the code needs
  of them is \<open>type_ok\<close>: comparing keys is an equivalence, equivalent keys have the same
  hash, and a duplicated key is equivalent to the original. The destructors concern memory
  that the model does not own. The global \<^verbatim>\<open>dict_can_resize\<close> is an argument.

  Every operation is shown to implement the corresponding operation of a finite map
  (\<open>dict_map\<close>), at every stage of an incremental rehashing.
\<close>

record ('k, 'v) dictType =
  hashFunction :: "'k \<Rightarrow> nat"
  keyDup :: "('k \<Rightarrow> 'k) option"
  valDup :: "('v \<Rightarrow> 'v) option"
  keyCompare :: "('k \<Rightarrow> 'k \<Rightarrow> bool) option"
  expandAllowed :: "(nat \<Rightarrow> nat \<times> nat \<Rightarrow> bool) option"

type_synonym ('k, 'v) chain = "('k \<times> 'v) list"

record ('k, 'v) dictht =
  ht_table :: "('k, 'v) chain list"
  ht_size :: nat
  ht_sizemask :: nat
  ht_used :: nat

record ('k, 'v) dict =
  d_ht0 :: "('k, 'v) dictht"
  d_ht1 :: "('k, 'v) dictht"
  rehashidx :: int
  pauserehash :: int

text \<open>A pointer to an entry: the table, the bucket and the place in the chain.\<close>

type_synonym entry_ref = "nat \<times> nat \<times> nat"

abbreviation DICT_HT_INITIAL_SIZE :: nat where "DICT_HT_INITIAL_SIZE \<equiv> 4"
abbreviation dict_force_resize_ratio :: nat where "dict_force_resize_ratio \<equiv> 5"
abbreviation LONG_MAX :: nat where "LONG_MAX \<equiv> 9223372036854775807"

subsection \<open>Macros\<close>

definition dictCompareKeys :: "('k, 'v) dictType \<Rightarrow> 'k \<Rightarrow> 'k \<Rightarrow> bool" where
  "dictCompareKeys T key1 key2 = (case keyCompare T of Some cmp \<Rightarrow> cmp key1 key2 | None \<Rightarrow> key1 = key2)"

definition dictDupKey :: "('k, 'v) dictType \<Rightarrow> 'k \<Rightarrow> 'k" where
  "dictDupKey T key = (case keyDup T of Some dup \<Rightarrow> dup key | None \<Rightarrow> key)"

definition dictDupVal :: "('k, 'v) dictType \<Rightarrow> 'v \<Rightarrow> 'v" where
  "dictDupVal T v = (case valDup T of Some dup \<Rightarrow> dup v | None \<Rightarrow> v)"

definition dictIsRehashing :: "('k, 'v) dict \<Rightarrow> bool" where
  "dictIsRehashing d \<longleftrightarrow> rehashidx d \<noteq> - 1"

definition dictSize :: "('k, 'v) dict \<Rightarrow> nat" where
  "dictSize d = ht_used (d_ht0 d) + ht_used (d_ht1 d)"

definition dictSlots :: "('k, 'v) dict \<Rightarrow> nat" where
  "dictSlots d = ht_size (d_ht0 d) + ht_size (d_ht1 d)"

text \<open>Access to a table: \<open>None\<close> outside of it.\<close>

definition ht_bucket :: "('k, 'v) dictht \<Rightarrow> nat \<Rightarrow> ('k, 'v) chain option" where
  "ht_bucket t i = (if i < length (ht_table t) then Some (ht_table t ! i) else None)"

definition ht_store :: "('k, 'v) dictht \<Rightarrow> nat \<Rightarrow> ('k, 'v) chain \<Rightarrow> ('k, 'v) dictht" where
  "ht_store t i c = t\<lparr>ht_table := (ht_table t)[i := c]\<rparr>"

definition ht_sel :: "('k, 'v) dict \<Rightarrow> nat \<Rightarrow> ('k, 'v) dictht" where
  "ht_sel d i = (if i = 0 then d_ht0 d else d_ht1 d)"

definition ht_upd :: "('k, 'v) dict \<Rightarrow> nat \<Rightarrow> ('k, 'v) dictht \<Rightarrow> ('k, 'v) dict" where
  "ht_upd d i t = (if i = 0 then d\<lparr>d_ht0 := t\<rparr> else d\<lparr>d_ht1 := t\<rparr>)"

subsection \<open>Creation and resizing\<close>

definition priv_dictReset :: "('k, 'v) dictht" where
  "priv_dictReset = \<lparr>ht_table = [], ht_size = 0, ht_sizemask = 0, ht_used = 0\<rparr>"

definition dictCreate :: "('k, 'v) dict" where
  "dictCreate = \<lparr>d_ht0 = priv_dictReset, d_ht1 = priv_dictReset, rehashidx = - 1, pauserehash = 0\<rparr>"

function nextPower_loop :: "nat \<Rightarrow> nat \<Rightarrow> nat" where
  "nextPower_loop i sz = (if i \<ge> sz \<or> i = 0 then i else nextPower_loop (i * 2) sz)"
  by pat_completeness auto
termination by (relation "measure (\<lambda>(i, sz). sz - i)") auto

declare nextPower_loop.simps [simp del]

definition priv_dictNextPower :: "nat \<Rightarrow> nat" where
  "priv_dictNextPower sz =
     (if sz \<ge> LONG_MAX then LONG_MAX + 1 else nextPower_loop DICT_HT_INITIAL_SIZE sz)"

text \<open>
  \<open>trycalloc\<close>: \<open>None\<close> when allocation failure panics, otherwise whether allocating the given
  number of buckets succeeds. The result is the dictionary, \<open>True\<close> for \<^verbatim>\<open>DICT_OK\<close>, and
  \<^verbatim>\<open>*malloc_failed\<close>.
\<close>

definition priv_dictExpand ::
  "('k, 'v) dict \<Rightarrow> nat \<Rightarrow> (nat \<Rightarrow> bool) option \<Rightarrow> ('k, 'v) dict \<times> bool \<times> bool" where
  "priv_dictExpand d sz trycalloc =
     (if dictIsRehashing d \<or> ht_used (d_ht0 d) > sz then (d, False, False)
      else
        let realsize = priv_dictNextPower sz in
        if realsize = ht_size (d_ht0 d) then (d, False, False)
        else if (case trycalloc of Some ok \<Rightarrow> \<not> ok realsize | None \<Rightarrow> False) then (d, False, True)
        else
          let n = \<lparr>ht_table = replicate realsize [], ht_size = realsize,
                   ht_sizemask = realsize - 1, ht_used = 0\<rparr>
          in if ht_table (d_ht0 d) = [] then (d\<lparr>d_ht0 := n\<rparr>, True, False)
             else (d\<lparr>d_ht1 := n, rehashidx := 0\<rparr>, True, False))"

definition dictExpand :: "('k, 'v) dict \<Rightarrow> nat \<Rightarrow> ('k, 'v) dict \<times> bool" where
  "dictExpand d sz = (case priv_dictExpand d sz None of (d, ok, _) \<Rightarrow> (d, ok))"

definition dictTryExpand :: "(nat \<Rightarrow> bool) \<Rightarrow> ('k, 'v) dict \<Rightarrow> nat \<Rightarrow> ('k, 'v) dict \<times> bool" where
  "dictTryExpand ok d sz = (case priv_dictExpand d sz (Some ok) of (d, _, failed) \<Rightarrow> (d, \<not> failed))"

definition dictResize :: "bool \<Rightarrow> ('k, 'v) dict \<Rightarrow> ('k, 'v) dict \<times> bool" where
  "dictResize dict_can_resize d =
     (if \<not> dict_can_resize \<or> dictIsRehashing d then (d, False)
      else
        let minimal = ht_used (d_ht0 d);
            minimal = (if minimal < DICT_HT_INITIAL_SIZE then DICT_HT_INITIAL_SIZE else minimal)
        in dictExpand d minimal)"

definition dictTypeExpandAllowed :: "('k, 'v) dictType \<Rightarrow> ('k, 'v) dict \<Rightarrow> bool" where
  "dictTypeExpandAllowed T d =
     (case expandAllowed T of
        None \<Rightarrow> True
      | Some allowed \<Rightarrow> allowed (priv_dictNextPower (ht_used (d_ht0 d) + 1) * 8)
                         (ht_used (d_ht0 d), ht_size (d_ht0 d)))"

definition priv_dictExpandIfNeeded :: "('k, 'v) dictType \<Rightarrow> bool \<Rightarrow> ('k, 'v) dict \<Rightarrow> ('k, 'v) dict \<times> bool" where
  "priv_dictExpandIfNeeded T dict_can_resize d =
     (if dictIsRehashing d then (d, True)
      else if ht_size (d_ht0 d) = 0 then dictExpand d DICT_HT_INITIAL_SIZE
      else if ht_used (d_ht0 d) \<ge> ht_size (d_ht0 d) \<and>
              (dict_can_resize \<or> ht_used (d_ht0 d) div ht_size (d_ht0 d) > dict_force_resize_ratio) \<and>
              dictTypeExpandAllowed T d
      then dictExpand d (ht_used (d_ht0 d) + 1)
      else (d, True))"

subsection \<open>Incremental rehashing\<close>

text \<open>
  The inner loop that skips empty buckets: the bucket reached, the visits left, and whether the
  limit of visits was reached (the function then returns 1).
\<close>

function rehash_skip :: "('k, 'v) dictht \<Rightarrow> nat \<Rightarrow> nat \<Rightarrow> (nat \<times> nat \<times> bool) option" where
  "rehash_skip t idx empty_visits =
     (if idx < length (ht_table t) then
        if ht_table t ! idx = [] then
          if empty_visits - 1 = 0 then Some (idx + 1, empty_visits - 1, True)
          else rehash_skip t (idx + 1) (empty_visits - 1)
        else Some (idx, empty_visits, False)
      else None)"
  by pat_completeness auto
termination by (relation "measure (\<lambda>(t, idx, n). length (ht_table t) - idx)") auto

declare rehash_skip.simps [simp del]

text \<open>Moving the entries of a bucket, in chain order, each to the front of its new bucket.\<close>

fun rehash_move :: "('k, 'v) dictType \<Rightarrow> ('k, 'v) chain \<Rightarrow> ('k, 'v) dict \<Rightarrow> ('k, 'v) dict option" where
  "rehash_move T [] d = Some d"
| "rehash_move T (de # rest) d =
     (let h = hashFunction T (fst de) AND ht_sizemask (d_ht1 d) in do {
        c \<leftarrow> ht_bucket (d_ht1 d) h;
        let t1 = ht_store (d_ht1 d) h (de # c);
        rehash_move T rest
          (d\<lparr>d_ht0 := (d_ht0 d)\<lparr>ht_used := ht_used (d_ht0 d) - 1\<rparr>, d_ht1 := t1\<lparr>ht_used := ht_used t1 + 1\<rparr>\<rparr>)
      })"

text \<open>The outer loop; the flag of the result tells whether the function returned 1 early.\<close>

fun rehash_loop :: "('k, 'v) dictType \<Rightarrow> nat \<Rightarrow> nat \<Rightarrow> ('k, 'v) dict \<Rightarrow> (('k, 'v) dict \<times> bool) option" where
  "rehash_loop T 0 empty_visits d = Some (d, False)"
| "rehash_loop T (Suc n) empty_visits d =
     (if ht_used (d_ht0 d) = 0 then Some (d, False)
      else if \<not> int (ht_size (d_ht0 d)) > rehashidx d then None
      else do {
        (idx, empty_visits, stop) \<leftarrow> rehash_skip (d_ht0 d) (nat (rehashidx d)) empty_visits;
        let d = d\<lparr>rehashidx := int idx\<rparr>;
        if stop then Some (d, True)
        else do {
          c \<leftarrow> ht_bucket (d_ht0 d) idx;
          d \<leftarrow> rehash_move T c d;
          rehash_loop T n empty_visits
            (d\<lparr>d_ht0 := ht_store (d_ht0 d) idx [], rehashidx := int idx + 1\<rparr>)
        }
      })"

definition dictRehash :: "('k, 'v) dictType \<Rightarrow> ('k, 'v) dict \<Rightarrow> nat \<Rightarrow> (('k, 'v) dict \<times> bool) option" where
  "dictRehash T d n =
     (if \<not> dictIsRehashing d then Some (d, False)
      else do {
        (d, stop) \<leftarrow> rehash_loop T n (n * 10) d;
        if stop then Some (d, True)
        else if ht_used (d_ht0 d) = 0
        then Some (d\<lparr>d_ht0 := d_ht1 d, d_ht1 := priv_dictReset, rehashidx := - 1\<rparr>, False)
        else Some (d, True)
      })"

definition priv_dictRehashStep :: "('k, 'v) dictType \<Rightarrow> ('k, 'v) dict \<Rightarrow> ('k, 'v) dict option" where
  "priv_dictRehashStep T d = (if pauserehash d = 0 then map_option fst (dictRehash T d 1) else Some d)"

subsection \<open>Lookup and update\<close>

fun chain_find :: "('k, 'v) dictType \<Rightarrow> 'k \<Rightarrow> ('k, 'v) chain \<Rightarrow> nat option" where
  "chain_find T key [] = None"
| "chain_find T key (he # rest) =
     (if key = fst he \<or> dictCompareKeys T key (fst he) then Some 0 else map_option Suc (chain_find T key rest))"

text \<open>
  The loop over the two tables that lookup, insertion and deletion share: the index of the last
  bucket searched and the entry found.
\<close>

definition search_tables ::
  "('k, 'v) dictType \<Rightarrow> ('k, 'v) dict \<Rightarrow> 'k \<Rightarrow> nat \<Rightarrow> (nat \<times> entry_ref option) option" where
  "search_tables T d key hash =
     (let idx = hash AND ht_sizemask (d_ht0 d) in do {
        c \<leftarrow> ht_bucket (d_ht0 d) idx;
        case chain_find T key c of
          Some p \<Rightarrow> Some (idx, Some (0, idx, p))
        | None \<Rightarrow>
            if \<not> dictIsRehashing d then Some (idx, None)
            else
              let idx = hash AND ht_sizemask (d_ht1 d) in do {
                c \<leftarrow> ht_bucket (d_ht1 d) idx;
                case chain_find T key c of
                  Some p \<Rightarrow> Some (idx, Some (1, idx, p))
                | None \<Rightarrow> Some (idx, None)
              }
      })"

definition entry_at :: "('k, 'v) dict \<Rightarrow> entry_ref \<Rightarrow> 'k \<times> 'v" where
  "entry_at d r = (case r of (t, i, p) \<Rightarrow> ht_table (ht_sel d t) ! i ! p)"

definition dictSetVal :: "('k, 'v) dictType \<Rightarrow> ('k, 'v) dict \<Rightarrow> entry_ref \<Rightarrow> 'v \<Rightarrow> ('k, 'v) dict" where
  "dictSetVal T d r v =
     (case r of (t, i, p) \<Rightarrow>
        let ht = ht_sel d t; c = ht_table ht ! i
        in ht_upd d t (ht_store ht i (c[p := (fst (c ! p), dictDupVal T v)])))"

text \<open>The index is \<open>None\<close> for -1; then the existing entry is returned as well.\<close>

definition priv_dictKeyIndex ::
  "('k, 'v) dictType \<Rightarrow> bool \<Rightarrow> ('k, 'v) dict \<Rightarrow> 'k \<Rightarrow> nat \<Rightarrow> (('k, 'v) dict \<times> nat option \<times> entry_ref option) option" where
  "priv_dictKeyIndex T can_resize d key hash =
     (case priv_dictExpandIfNeeded T can_resize d of (d, ok) \<Rightarrow>
        if \<not> ok then Some (d, None, None)
        else do {
          (idx, existing) \<leftarrow> search_tables T d key hash;
          case existing of
            Some e \<Rightarrow> Some (d, None, Some e)
          | None \<Rightarrow> Some (d, Some idx, None)
        })"

text \<open>
  The new entry has an undefined value, the argument \<open>uninit\<close>, until the caller sets it. The
  result is the new entry, if one was added, and the existing one.
\<close>

definition dictAddRaw ::
  "('k, 'v) dictType \<Rightarrow> bool \<Rightarrow> 'v \<Rightarrow> ('k, 'v) dict \<Rightarrow> 'k \<Rightarrow> (('k, 'v) dict \<times> entry_ref option \<times> entry_ref option) option" where
  "dictAddRaw T can_resize uninit d key = do {
     d \<leftarrow> (if dictIsRehashing d then priv_dictRehashStep T d else Some d);
     (d, index, existing) \<leftarrow> priv_dictKeyIndex T can_resize d key (hashFunction T key);
     case index of
       None \<Rightarrow> Some (d, None, existing)
     | Some index \<Rightarrow>
         let t = (if dictIsRehashing d then 1 else 0); ht = ht_sel d t in do {
           c \<leftarrow> ht_bucket ht index;
           let ht = ht_store ht index ((dictDupKey T key, uninit) # c);
           Some (ht_upd d t (ht\<lparr>ht_used := ht_used ht + 1\<rparr>), Some (t, index, 0), None)
         }
   }"

definition dictAdd ::
  "('k, 'v) dictType \<Rightarrow> bool \<Rightarrow> 'v \<Rightarrow> ('k, 'v) dict \<Rightarrow> 'k \<Rightarrow> 'v \<Rightarrow> (('k, 'v) dict \<times> bool) option" where
  "dictAdd T can_resize uninit d key v = do {
     (d, entry, _) \<leftarrow> dictAddRaw T can_resize uninit d key;
     case entry of
       None \<Rightarrow> Some (d, False)
     | Some e \<Rightarrow> Some (dictSetVal T d e v, True)
   }"

definition dictReplace ::
  "('k, 'v) dictType \<Rightarrow> bool \<Rightarrow> 'v \<Rightarrow> ('k, 'v) dict \<Rightarrow> 'k \<Rightarrow> 'v \<Rightarrow> (('k, 'v) dict \<times> bool) option" where
  "dictReplace T can_resize uninit d key v = do {
     (d, entry, existing) \<leftarrow> dictAddRaw T can_resize uninit d key;
     case entry of
       Some e \<Rightarrow> Some (dictSetVal T d e v, True)
     | None \<Rightarrow>
         (case existing of
            None \<Rightarrow> None
          | Some e \<Rightarrow> Some (dictSetVal T d e v, False))
   }"

definition dictAddOrFind ::
  "('k, 'v) dictType \<Rightarrow> bool \<Rightarrow> 'v \<Rightarrow> ('k, 'v) dict \<Rightarrow> 'k \<Rightarrow> (('k, 'v) dict \<times> entry_ref option) option" where
  "dictAddOrFind T can_resize uninit d key = do {
     (d, entry, existing) \<leftarrow> dictAddRaw T can_resize uninit d key;
     Some (d, if entry \<noteq> None then entry else existing)
   }"

definition dictGenericDelete ::
  "('k, 'v) dictType \<Rightarrow> ('k, 'v) dict \<Rightarrow> 'k \<Rightarrow> (('k, 'v) dict \<times> ('k \<times> 'v) option) option" where
  "dictGenericDelete T d key =
     (if ht_used (d_ht0 d) = 0 \<and> ht_used (d_ht1 d) = 0 then Some (d, None)
      else do {
        d \<leftarrow> (if dictIsRehashing d then priv_dictRehashStep T d else Some d);
        (idx, found) \<leftarrow> search_tables T d key (hashFunction T key);
        case found of
          None \<Rightarrow> Some (d, None)
        | Some (t, i, p) \<Rightarrow>
            let ht = ht_sel d t; c = ht_table ht ! i; ht = ht_store ht i (take p c @ drop (Suc p) c)
            in Some (ht_upd d t (ht\<lparr>ht_used := ht_used ht - 1\<rparr>), Some (c ! p))
      })"

definition dictDelete :: "('k, 'v) dictType \<Rightarrow> ('k, 'v) dict \<Rightarrow> 'k \<Rightarrow> (('k, 'v) dict \<times> bool) option" where
  "dictDelete T d key = map_option (\<lambda>(d, e). (d, e \<noteq> None)) (dictGenericDelete T d key)"

definition dictUnlink :: "('k, 'v) dictType \<Rightarrow> ('k, 'v) dict \<Rightarrow> 'k \<Rightarrow> (('k, 'v) dict \<times> ('k \<times> 'v) option) option" where
  "dictUnlink T d key = dictGenericDelete T d key"

definition dictFind :: "('k, 'v) dictType \<Rightarrow> ('k, 'v) dict \<Rightarrow> 'k \<Rightarrow> (('k, 'v) dict \<times> entry_ref option) option" where
  "dictFind T d key =
     (if dictSize d = 0 then Some (d, None)
      else do {
        d \<leftarrow> (if dictIsRehashing d then priv_dictRehashStep T d else Some d);
        (idx, found) \<leftarrow> search_tables T d key (hashFunction T key);
        Some (d, found)
      })"

definition dictFetchValue :: "('k, 'v) dictType \<Rightarrow> ('k, 'v) dict \<Rightarrow> 'k \<Rightarrow> (('k, 'v) dict \<times> 'v option) option" where
  "dictFetchValue T d key = do {
     (d, he) \<leftarrow> dictFind T d key;
     Some (d, map_option (\<lambda>r. snd (entry_at d r)) he)
   }"

text \<open>\<^verbatim>\<open>_dictClear\<close>: the loop over the buckets stops once no element is left.\<close>

function dictClear_loop :: "('k, 'v) dictht \<Rightarrow> nat \<Rightarrow> ('k, 'v) dictht option" where
  "dictClear_loop t i =
     (if i < ht_size t \<and> ht_used t > 0 then
        (case ht_bucket t i of
           None \<Rightarrow> None
         | Some c \<Rightarrow> dictClear_loop (t\<lparr>ht_used := ht_used t - length c\<rparr>) (i + 1))
      else Some t)"
  by pat_completeness auto
termination by (relation "measure (\<lambda>(t, i). ht_size t - i)") auto

declare dictClear_loop.simps [simp del]

definition priv_dictClear :: "('k, 'v) dictht \<Rightarrow> ('k, 'v) dictht option" where
  "priv_dictClear t = do { dictClear_loop t 0; Some priv_dictReset }"

definition dictEmpty :: "('k, 'v) dict \<Rightarrow> ('k, 'v) dict option" where
  "dictEmpty d = do {
     t0 \<leftarrow> priv_dictClear (d_ht0 d);
     t1 \<leftarrow> priv_dictClear (d_ht1 d);
     Some \<lparr>d_ht0 = t0, d_ht1 = t1, rehashidx = - 1, pauserehash = 0\<rparr>
   }"

subsection \<open>Bags of entries\<close>

definition key_eq :: "('k, 'v) dictType \<Rightarrow> 'k \<Rightarrow> 'k \<Rightarrow> bool" where
  "key_eq T k k' \<longleftrightarrow> k = k' \<or> dictCompareKeys T k k'"

definition type_ok :: "('k, 'v) dictType \<Rightarrow> bool" where
  "type_ok T \<longleftrightarrow> equivp (key_eq T) \<and> (\<forall>k k'. key_eq T k k' \<longrightarrow> hashFunction T k = hashFunction T k') \<and>
     (\<forall>k. key_eq T k (dictDupKey T k))"

definition bag_lookup :: "('k, 'v) dictType \<Rightarrow> ('k, 'v) chain \<Rightarrow> 'k \<Rightarrow> 'v option" where
  "bag_lookup T es k = map_option snd (find (\<lambda>e. key_eq T k (fst e)) es)"

text \<open>No two entries have equivalent keys.\<close>

definition bag_unique :: "('k, 'v) dictType \<Rightarrow> ('k, 'v) chain \<Rightarrow> bool" where
  "bag_unique T es \<longleftrightarrow> (\<forall>k. length (filter (\<lambda>e. key_eq T k (fst e)) es) \<le> 1)"

lemma length_le_1_same: "length xs \<le> 1 \<Longrightarrow> x \<in> set xs \<Longrightarrow> y \<in> set xs \<Longrightarrow> x = y"
  by (cases xs) auto

lemma bag_lookup_None: "bag_lookup T es k = None \<longleftrightarrow> (\<forall>e\<in>set es. \<not> key_eq T k (fst e))"
  by (auto simp: bag_lookup_def find_None_iff)

lemma bag_lookup_SomeD: "bag_lookup T es k = Some v \<Longrightarrow> \<exists>k'. (k', v) \<in> set es \<and> key_eq T k k'"
proof -
  assume "bag_lookup T es k = Some v"
  then obtain e where "find (\<lambda>e. key_eq T k (fst e)) es = Some e" "snd e = v" by (auto simp: bag_lookup_def)
  then have "e \<in> set es" "key_eq T k (fst e)" "e = (fst e, v)" by (auto simp: find_Some_iff)
  then show ?thesis by metis
qed

lemma bag_lookup_Some:
  assumes "bag_unique T es" and "(k', v) \<in> set es" and "key_eq T k k'"
  shows "bag_lookup T es k = Some v"
proof -
  have "bag_lookup T es k \<noteq> None" using assms(2,3) unfolding bag_lookup_None by (metis fst_conv)
  then obtain w where w: "bag_lookup T es k = Some w" by blast
  then obtain k'' where "(k'', w) \<in> set es" "key_eq T k k''" using bag_lookup_SomeD by metis
  then have "(k'', w) = (k', v)"
    using assms length_le_1_same [of "filter (\<lambda>e. key_eq T k (fst e)) es"] by (auto simp: bag_unique_def)
  with w show ?thesis by simp
qed

lemma bag_unique_perm: "mset es = mset es' \<Longrightarrow> bag_unique T es \<longleftrightarrow> bag_unique T es'"
  by (metis bag_unique_def mset_filter size_mset)

lemma bag_lookup_perm:
  assumes "mset es = mset es'" and "bag_unique T es"
  shows "bag_lookup T es = bag_lookup T es'"
proof
  fix k
  have set: "set es = set es'" using assms(1) by (metis set_mset_mset)
  show "bag_lookup T es k = bag_lookup T es' k"
  proof (cases "bag_lookup T es' k")
    case None
    then have "bag_lookup T es k = None" using set unfolding bag_lookup_None by simp
    with None show ?thesis by simp
  next
    case (Some v)
    then show ?thesis using bag_lookup_SomeD [OF Some] bag_lookup_Some [OF assms(2)] set by metis
  qed
qed

lemma bag_lookup_Cons:
  "bag_lookup T (e # es) k = (if key_eq T k (fst e) then Some (snd e) else bag_lookup T es k)"
  by (simp add: bag_lookup_def)

lemma bag_unique_Cons:
  assumes "type_ok T"
  shows "bag_unique T (e # es) \<longleftrightarrow> bag_unique T es \<and> bag_lookup T es (fst e) = None"
proof
  assume u: "bag_unique T (e # es)"
  have "key_eq T (fst e) (fst e)" by (simp add: key_eq_def)
  then have "filter (\<lambda>x. key_eq T (fst e) (fst x)) es = []"
    using u [unfolded bag_unique_def, rule_format, of "fst e"] by auto
  then have "bag_lookup T es (fst e) = None" by (auto simp: bag_lookup_None filter_empty_conv)
  moreover have "bag_unique T es" using u by (auto simp: bag_unique_def split: if_splits intro: le_trans [rotated])
  ultimately show "bag_unique T es \<and> bag_lookup T es (fst e) = None" by simp
next
  assume u: "bag_unique T es \<and> bag_lookup T es (fst e) = None"
  show "bag_unique T (e # es)"
    unfolding bag_unique_def
  proof
    fix k
    have "filter (\<lambda>x. key_eq T k (fst x)) es = []" if "key_eq T k (fst e)"
      using u that assms unfolding type_ok_def bag_lookup_None filter_empty_conv
      by (metis equivp_def)
    then show "length (filter (\<lambda>x. key_eq T k (fst x)) (e # es)) \<le> 1"
      using u by (auto simp: bag_unique_def)
  qed
qed

subsection \<open>Tables\<close>

definition ht_entries :: "('k, 'v) dictht \<Rightarrow> ('k, 'v) chain" where
  "ht_entries t = concat (ht_table t)"

definition ht_ok :: "('k, 'v) dictType \<Rightarrow> ('k, 'v) dictht \<Rightarrow> bool" where
  "ht_ok T t \<longleftrightarrow> length (ht_table t) = ht_size t \<and>
     (ht_size t = 0 \<and> ht_sizemask t = 0 \<or> (\<exists>n. ht_size t = 2 ^ n \<and> ht_sizemask t = 2 ^ n - 1)) \<and>
     ht_used t = length (ht_entries t) \<and>
     (\<forall>i < ht_size t. \<forall>e \<in> set (ht_table t ! i). hashFunction T (fst e) AND ht_sizemask t = i)"

lemma and_mask_mod: "(h :: nat) AND (2 ^ n - 1) = h mod 2 ^ n"
  by (metis mask_eq_exp_minus_1 take_bit_eq_mask take_bit_eq_mod)

lemma ht_ok_index:
  assumes "ht_ok T t" and "0 < ht_size t"
  shows "h AND ht_sizemask t < length (ht_table t)"
proof -
  from assms obtain n where "ht_size t = 2 ^ n" "ht_sizemask t = 2 ^ n - 1" "length (ht_table t) = ht_size t"
    by (auto simp: ht_ok_def)
  then show ?thesis by (simp only: and_mask_mod) simp
qed

lemma ht_ok_reset [simp]: "ht_ok T priv_dictReset" "ht_entries priv_dictReset = []"
  by (simp_all add: ht_ok_def priv_dictReset_def ht_entries_def)

lemma mset_concat_update:
  "i < length xs \<Longrightarrow> mset (concat (xs[i := c])) + mset (xs ! i) = mset (concat xs) + mset c"
proof (induction xs arbitrary: i)
  case (Cons x xs)
  then show ?case by (cases i) (auto simp: union_assoc union_commute union_lcomm)
qed simp

lemma mset_ht_store:
  "i < length (ht_table t) \<Longrightarrow> mset (ht_entries (ht_store t i c)) + mset (ht_table t ! i) = mset (ht_entries t) + mset c"
  by (simp add: ht_entries_def ht_store_def mset_concat_update)

text \<open>Replacing one bucket and adjusting the count keeps a table well formed.\<close>

lemma ht_ok_store:
  assumes "ht_ok T t" and "i < ht_size t" and "\<forall>e\<in>set c. hashFunction T (fst e) AND ht_sizemask t = i"
    and "u + length (ht_table t ! i) = ht_used t + length c"
  shows "ht_ok T ((ht_store t i c)\<lparr>ht_used := u\<rparr>)"
proof -
  have i: "i < length (ht_table t)" using assms(1,2) by (simp add: ht_ok_def)
  have "size (mset (ht_entries (ht_store t i c)) + mset (ht_table t ! i)) = size (mset (ht_entries t) + mset c)"
    using mset_ht_store [OF i, of c] by simp
  then have "u = length (ht_entries (ht_store t i c))" using assms(1,4) by (simp add: ht_ok_def)
  moreover have "ht_entries ((ht_store t i c)\<lparr>ht_used := u\<rparr>) = ht_entries (ht_store t i c)"
    by (simp add: ht_entries_def)
  ultimately show ?thesis
    using assms(1-3) by (auto simp: ht_ok_def ht_store_def nth_list_update)
qed

lemma ht_entries_used_upd [simp]: "ht_entries (t\<lparr>ht_used := u\<rparr>) = ht_entries t"
  by (simp add: ht_entries_def)

lemma ht_used_zero: "ht_ok T t \<Longrightarrow> ht_used t = 0 \<longleftrightarrow> ht_entries t = []"
  by (simp add: ht_ok_def)

subsection \<open>The invariant\<close>

definition dict_entries :: "('k, 'v) dict \<Rightarrow> ('k, 'v) chain" where
  "dict_entries d = ht_entries (d_ht0 d) @ ht_entries (d_ht1 d)"

text \<open>
  While rehashing both tables exist and the buckets of the old one below \<open>rehashidx\<close> are
  empty; otherwise the second table is reset.
\<close>

definition rehash_state :: "('k, 'v) dict \<Rightarrow> bool" where
  "rehash_state d \<longleftrightarrow> 0 \<le> rehashidx d \<and> 0 < ht_size (d_ht0 d) \<and> 0 < ht_size (d_ht1 d) \<and>
     (\<forall>i < length (ht_table (d_ht0 d)). int i < rehashidx d \<longrightarrow> ht_table (d_ht0 d) ! i = [])"

definition dict_inv :: "('k, 'v) dictType \<Rightarrow> ('k, 'v) dict \<Rightarrow> bool" where
  "dict_inv T d \<longleftrightarrow> ht_ok T (d_ht0 d) \<and> ht_ok T (d_ht1 d) \<and> bag_unique T (dict_entries d) \<and>
     (rehashidx d = - 1 \<and> d_ht1 d = priv_dictReset \<or> rehash_state d)"

text \<open>The finite map a dictionary stands for.\<close>

definition dict_map :: "('k, 'v) dictType \<Rightarrow> ('k, 'v) dict \<Rightarrow> 'k \<Rightarrow> 'v option" where
  "dict_map T d = bag_lookup T (dict_entries d)"

lemma dict_map_perm:
  "mset (dict_entries d') = mset (dict_entries d) \<Longrightarrow> dict_inv T d \<Longrightarrow> dict_map T d' = dict_map T d"
  using bag_lookup_perm [of "dict_entries d" "dict_entries d'" T] by (simp add: dict_map_def dict_inv_def)

lemma dictIsRehashing_iff: "dict_inv T d \<Longrightarrow> dictIsRehashing d \<longleftrightarrow> rehash_state d"
  by (auto simp: dict_inv_def dictIsRehashing_def rehash_state_def)

lemma dict_inv_create: "dict_inv T dictCreate" "dict_map T dictCreate = (\<lambda>k. None)"
  by (auto simp: dict_inv_def dictCreate_def dict_entries_def bag_unique_def dict_map_def bag_lookup_def fun_eq_iff)

subsection \<open>Rehashing keeps the invariant and the entries\<close>

lemma rehash_skip_correct:
  assumes "idx \<le> j" and "j < length (ht_table t)" and "ht_table t ! j \<noteq> []"
  shows "\<exists>i n stop. rehash_skip t idx ev = Some (i, n, stop) \<and> idx \<le> i \<and> i \<le> length (ht_table t) \<and>
    (\<forall>k. idx \<le> k \<and> k < i \<longrightarrow> ht_table t ! k = []) \<and>
    (if stop then idx < i else i < length (ht_table t) \<and> ht_table t ! i \<noteq> [])"
  using assms
proof (induction t idx ev rule: rehash_skip.induct)
  case (1 t idx ev)
  show ?case
  proof (cases "ht_table t ! idx = []")
    case True
    then have idx: "idx < j" using 1(2,4) by (metis le_neq_implies_less)
    then have len: "idx < length (ht_table t)" using 1(3) by simp
    show ?thesis
    proof (cases "ev - 1 = 0")
      case stop: True
      then have "rehash_skip t idx ev = Some (idx + 1, ev - 1, True)" using True len by (subst rehash_skip.simps) simp
      moreover have "\<forall>k. idx \<le> k \<and> k < idx + 1 \<longrightarrow> ht_table t ! k = []" using True by (auto simp: less_Suc_eq_le le_antisym)
      ultimately show ?thesis using len by (intro exI [of _ "idx + 1"] exI [of _ "ev - 1"] exI [of _ True]) simp
    next
      case False
      then have "rehash_skip t idx ev = rehash_skip t (idx + 1) (ev - 1)"
        using True len by (subst rehash_skip.simps) simp
      moreover from 1(1) [OF len True False _ 1(3,4)] idx obtain i n stop where
        "rehash_skip t (idx + 1) (ev - 1) = Some (i, n, stop)" "idx + 1 \<le> i" "i \<le> length (ht_table t)"
        "\<forall>k. idx + 1 \<le> k \<and> k < i \<longrightarrow> ht_table t ! k = []"
        "if stop then idx + 1 < i else i < length (ht_table t) \<and> ht_table t ! i \<noteq> []" by auto
      moreover from this(4) True have "\<forall>k. idx \<le> k \<and> k < i \<longrightarrow> ht_table t ! k = []"
        by (metis Suc_eq_plus1 le_eq_less_or_eq Suc_leI)
      ultimately show ?thesis
        by (intro exI [of _ i] exI [of _ n] exI [of _ stop]) (simp split: if_splits)
    qed
  next
    case False
    then have "rehash_skip t idx ev = Some (idx, ev, False)" using 1(2,3) by (subst rehash_skip.simps) simp
    with False 1(2,3) show ?thesis
      by - (rule exI [of _ idx], rule exI [of _ ev], rule exI [of _ False], auto)
  qed
qed

lemma rehash_move_correct:
  assumes "ht_ok T (d_ht1 d)" and "0 < ht_size (d_ht1 d)"
  shows "\<exists>d'. rehash_move T c d = Some d' \<and> d_ht0 d' = (d_ht0 d)\<lparr>ht_used := ht_used (d_ht0 d) - length c\<rparr> \<and>
    ht_ok T (d_ht1 d') \<and> ht_size (d_ht1 d') = ht_size (d_ht1 d) \<and>
    mset (ht_entries (d_ht1 d')) = mset c + mset (ht_entries (d_ht1 d)) \<and>
    rehashidx d' = rehashidx d \<and> pauserehash d' = pauserehash d"
  using assms
proof (induction c arbitrary: d)
  case (Cons de rest)
  let ?t = "d_ht1 d" and ?h = "hashFunction T (fst de) AND ht_sizemask (d_ht1 d)"
  let ?u = "(ht_store ?t ?h (de # ht_table ?t ! ?h))\<lparr>ht_used := ht_used ?t + 1\<rparr>"
  have h: "?h < length (ht_table ?t)" using ht_ok_index [OF Cons.prems] .
  have sz: "?h < ht_size ?t" using h Cons.prems(1) by (simp add: ht_ok_def)
  have ok: "ht_ok T ?u"
    by (rule ht_ok_store [OF Cons.prems(1) sz]) (use Cons.prems(1) sz in \<open>auto simp: ht_ok_def\<close>)
  have bag: "mset (ht_entries ?u) = add_mset de (mset (ht_entries ?t))"
    using mset_ht_store [OF h, of "de # ht_table ?t ! ?h"] by simp
  define d1 where "d1 = d\<lparr>d_ht0 := (d_ht0 d)\<lparr>ht_used := ht_used (d_ht0 d) - 1\<rparr>, d_ht1 := ?u\<rparr>"
  have step: "rehash_move T (de # rest) d = rehash_move T rest d1"
    using h by (simp add: d1_def ht_bucket_def Let_def ht_store_def)
  have "ht_ok T (d_ht1 d1)" "0 < ht_size (d_ht1 d1)" using ok Cons.prems(2) by (simp_all add: d1_def ht_store_def)
  from Cons.IH [OF this] step bag show ?case by (auto simp: d1_def ht_store_def)
qed simp

lemma ht_entries_nonempty:
  "ht_ok T t \<Longrightarrow> ht_used t \<noteq> 0 \<Longrightarrow> \<exists>j < length (ht_table t). ht_table t ! j \<noteq> []"
  by (auto simp: ht_ok_def ht_entries_def in_set_conv_nth)

text \<open>One round of the outer loop: the bucket at \<open>idx\<close> is emptied into the second table.\<close>

lemma rehash_round:
  assumes inv: "dict_inv T d" "rehash_state d" and idx: "idx < length (ht_table (d_ht0 d))"
    and low: "\<forall>k < length (ht_table (d_ht0 d)). k < idx \<longrightarrow> ht_table (d_ht0 d) ! k = []"
  shows "\<exists>d'. rehash_move T (ht_table (d_ht0 d) ! idx) (d\<lparr>rehashidx := int idx\<rparr>) = Some d' \<and>
    (let d2 = d'\<lparr>d_ht0 := ht_store (d_ht0 d') idx [], rehashidx := int idx + 1\<rparr> in
     dict_inv T d2 \<and> rehash_state d2 \<and> mset (dict_entries d2) = mset (dict_entries d) \<and> pauserehash d2 = pauserehash d \<and>
     ht_size (d_ht0 d2) = ht_size (d_ht0 d))"
proof -
  let ?t = "d_ht0 d" and ?c = "ht_table (d_ht0 d) ! idx"
  have ok: "ht_ok T ?t" "ht_ok T (d_ht1 d)" "bag_unique T (dict_entries d)" using inv(1) by (auto simp: dict_inv_def)
  have sz: "idx < ht_size ?t" using idx ok(1) by (simp add: ht_ok_def)
  obtain d' where d': "rehash_move T ?c (d\<lparr>rehashidx := int idx\<rparr>) = Some d'"
    "d_ht0 d' = ?t\<lparr>ht_used := ht_used ?t - length ?c\<rparr>" "ht_ok T (d_ht1 d')"
    "ht_size (d_ht1 d') = ht_size (d_ht1 d)" "mset (ht_entries (d_ht1 d')) = mset ?c + mset (ht_entries (d_ht1 d))"
    "pauserehash d' = pauserehash d"
    using rehash_move_correct [of T "d\<lparr>rehashidx := int idx\<rparr>" ?c] ok(2) inv(2) by (auto simp: rehash_state_def)
  define d2 where "d2 = d'\<lparr>d_ht0 := ht_store (d_ht0 d') idx [], rehashidx := int idx + 1\<rparr>"
  have t2: "d_ht0 d2 = (ht_store ?t idx [])\<lparr>ht_used := ht_used ?t - length ?c\<rparr>"
    by (simp add: d2_def d'(2) ht_store_def)
  have bag: "mset (ht_entries (d_ht0 d2)) + mset ?c = mset (ht_entries ?t)"
    using mset_ht_store [OF idx, of "[]"] by (simp add: t2)
  have "length ?c \<le> ht_used ?t" using arg_cong [OF bag, of size] ok(1) by (simp add: ht_ok_def)
  then have ok2: "ht_ok T (d_ht0 d2)" unfolding t2 by (intro ht_ok_store [OF ok(1) sz]) auto
  have all: "mset (dict_entries d2) = mset (dict_entries d)"
    using bag d'(5) by (simp add: dict_entries_def d2_def flip: bag)
  then have "bag_unique T (dict_entries d2)" using bag_unique_perm ok(3) by blast
  moreover have "\<forall>i < length (ht_table ?t). i \<le> idx \<longrightarrow> (ht_table ?t)[idx := []] ! i = []"
    using low idx by (auto simp: nth_list_update)
  then have "rehash_state d2"
    using inv(2) sz d'(4) by (simp add: rehash_state_def t2 ht_store_def nth_list_update) (simp add: d2_def)
  ultimately have "dict_inv T d2 \<and> rehash_state d2" using ok2 d'(3) by (simp add: dict_inv_def d2_def)
  moreover have "ht_size (d_ht0 d2) = ht_size ?t" "pauserehash d2 = pauserehash d"
    by (simp add: t2 ht_store_def) (simp add: d2_def d'(6))
  ultimately show ?thesis
    using all d'(1) by (intro exI [of _ d']) (simp add: Let_def flip: d2_def)
qed

text \<open>What a rehashing step keeps, and that it makes progress.\<close>

definition rehash_rel :: "('k, 'v) dictType \<Rightarrow> ('k, 'v) dict \<Rightarrow> ('k, 'v) dict \<Rightarrow> bool" where
  "rehash_rel T d d' \<longleftrightarrow> dict_inv T d' \<and> mset (dict_entries d') = mset (dict_entries d) \<and>
     pauserehash d' = pauserehash d"

lemma rehash_rel_trans: "rehash_rel T a b \<Longrightarrow> rehash_rel T b c \<Longrightarrow> rehash_rel T a c"
  by (simp add: rehash_rel_def)

lemma rehash_skip_state:
  assumes "dict_inv T d" and "rehash_state d" and "ht_used (d_ht0 d) \<noteq> 0"
  shows "rehashidx d < int (ht_size (d_ht0 d))"
    and "\<exists>i n stop. rehash_skip (d_ht0 d) (nat (rehashidx d)) ev = Some (i, n, stop) \<and>
      i \<le> length (ht_table (d_ht0 d)) \<and> rehashidx d \<le> int i \<and>
      (\<forall>k < length (ht_table (d_ht0 d)). k < i \<longrightarrow> ht_table (d_ht0 d) ! k = []) \<and>
      (if stop then rehashidx d < int i else i < length (ht_table (d_ht0 d)))"
proof -
  have ok: "ht_ok T (d_ht0 d)" using assms(1) by (simp add: dict_inv_def)
  obtain j where j: "j < length (ht_table (d_ht0 d))" "ht_table (d_ht0 d) ! j \<noteq> []"
    using ht_entries_nonempty [OF ok assms(3)] by blast
  have r: "0 \<le> rehashidx d" "\<forall>i < length (ht_table (d_ht0 d)). int i < rehashidx d \<longrightarrow> ht_table (d_ht0 d) ! i = []"
    using assms(2) by (auto simp: rehash_state_def)
  then have le: "rehashidx d \<le> int j" using j by (meson not_le)
  then show "rehashidx d < int (ht_size (d_ht0 d))" using j(1) ok by (simp add: ht_ok_def)
  have "nat (rehashidx d) \<le> j" using le by simp
  from rehash_skip_correct [OF this j, of ev] obtain i n stop where
    i: "rehash_skip (d_ht0 d) (nat (rehashidx d)) ev = Some (i, n, stop)" "nat (rehashidx d) \<le> i"
    "i \<le> length (ht_table (d_ht0 d))" "\<forall>k. nat (rehashidx d) \<le> k \<and> k < i \<longrightarrow> ht_table (d_ht0 d) ! k = []"
    "if stop then nat (rehashidx d) < i else i < length (ht_table (d_ht0 d)) \<and> ht_table (d_ht0 d) ! i \<noteq> []" by blast
  have "\<forall>k < length (ht_table (d_ht0 d)). k < i \<longrightarrow> ht_table (d_ht0 d) ! k = []"
    using i(4) r by (metis nat_le_iff not_le nat_less_iff zless_nat_eq_int_zless)
  moreover have "rehashidx d \<le> int i" "stop \<Longrightarrow> rehashidx d < int i" using i(2,5) r(1) by auto
  ultimately show "\<exists>i n stop. rehash_skip (d_ht0 d) (nat (rehashidx d)) ev = Some (i, n, stop) \<and>
      i \<le> length (ht_table (d_ht0 d)) \<and> rehashidx d \<le> int i \<and>
      (\<forall>k < length (ht_table (d_ht0 d)). k < i \<longrightarrow> ht_table (d_ht0 d) ! k = []) \<and>
      (if stop then rehashidx d < int i else i < length (ht_table (d_ht0 d)))"
    using i(1,3,5) by - (rule exI [of _ i], rule exI [of _ n], rule exI [of _ stop], auto)
qed

lemma rehash_state_idx:
  assumes "dict_inv T d" and "rehash_state d" and "rehashidx d \<le> int i"
    and "\<forall>k < length (ht_table (d_ht0 d)). k < i \<longrightarrow> ht_table (d_ht0 d) ! k = []"
  shows "rehash_rel T d (d\<lparr>rehashidx := int i\<rparr>) \<and> rehash_state (d\<lparr>rehashidx := int i\<rparr>)"
  using assms by (auto simp: rehash_rel_def dict_inv_def rehash_state_def dict_entries_def)

lemma rehash_loop_correct:
  assumes "dict_inv T d" and "rehash_state d"
  shows "\<exists>d' stop. rehash_loop T n ev d = Some (d', stop) \<and> rehash_rel T d d' \<and> rehash_state d' \<and>
    ht_size (d_ht0 d') = ht_size (d_ht0 d) \<and> rehashidx d \<le> rehashidx d' \<and>
    (0 < n \<and> ht_used (d_ht0 d) \<noteq> 0 \<longrightarrow> rehashidx d < rehashidx d') \<and>
    (ht_used (d_ht0 d) = 0 \<longrightarrow> d' = d \<and> \<not> stop) \<and>
    rehashidx d' \<le> max (rehashidx d) (int (ht_size (d_ht0 d)))"
  using assms
proof (induction n arbitrary: ev d)
  case 0
  then show ?case by (auto simp: rehash_rel_def)
next
  case (Suc n)
  show ?case
  proof (cases "ht_used (d_ht0 d) = 0")
    case True
    then show ?thesis using Suc.prems by (auto simp: rehash_rel_def)
  next
    case False
    note skip = rehash_skip_state [OF Suc.prems False]
    have len: "length (ht_table (d_ht0 d)) = ht_size (d_ht0 d)" using Suc.prems(1) by (simp add: dict_inv_def ht_ok_def)
    obtain i m stop where i: "rehash_skip (d_ht0 d) (nat (rehashidx d)) ev = Some (i, m, stop)"
      "i \<le> length (ht_table (d_ht0 d))" "rehashidx d \<le> int i"
      "\<forall>k < length (ht_table (d_ht0 d)). k < i \<longrightarrow> ht_table (d_ht0 d) ! k = []"
      "if stop then rehashidx d < int i else i < length (ht_table (d_ht0 d))" using skip(2) by blast
    show ?thesis
    proof (cases stop)
      case True
      then show ?thesis
        using False skip(1) i rehash_state_idx [OF Suc.prems i(3,4)] len by auto
    next
      case go: False
      then have lt: "i < length (ht_table (d_ht0 d))" using i(5) by simp
      obtain d1 where d1: "rehash_move T (ht_table (d_ht0 d) ! i) (d\<lparr>rehashidx := int i\<rparr>) = Some d1"
        and d2: "let d2 = d1\<lparr>d_ht0 := ht_store (d_ht0 d1) i [], rehashidx := int i + 1\<rparr> in
          dict_inv T d2 \<and> rehash_state d2 \<and> mset (dict_entries d2) = mset (dict_entries d) \<and>
          pauserehash d2 = pauserehash d \<and> ht_size (d_ht0 d2) = ht_size (d_ht0 d)"
        using rehash_round [OF Suc.prems lt i(4)] by blast
      define d2 where "d2 = d1\<lparr>d_ht0 := ht_store (d_ht0 d1) i [], rehashidx := int i + 1\<rparr>"
      have r2: "rehash_rel T d d2" "dict_inv T d2" "rehash_state d2" "ht_size (d_ht0 d2) = ht_size (d_ht0 d)" "rehashidx d2 = int i + 1"
        using d2 by (simp_all add: Let_def rehash_rel_def flip: d2_def) (simp add: d2_def)
      have "rehash_loop T (Suc n) ev d = rehash_loop T n m d2"
        using False skip(1) i(1) go lt d1 by (simp add: ht_bucket_def d2_def)
      with Suc.IH [OF r2(2,3), of m] r2 i(3) lt len rehash_rel_trans [OF r2(1)] show ?thesis by fastforce
    qed
  qed
qed

lemma dictRehash_correct:
  assumes "dict_inv T d"
  shows "\<exists>d' more. dictRehash T d n = Some (d', more) \<and> rehash_rel T d d' \<and> (\<not> more \<longrightarrow> rehashidx d' = - 1) \<and>
    (more \<and> 0 < n \<longrightarrow> rehashidx d < rehashidx d' \<and> ht_size (d_ht0 d') = ht_size (d_ht0 d) \<and>
      rehashidx d' \<le> max (rehashidx d) (int (ht_size (d_ht0 d))))"
proof (cases "dictIsRehashing d")
  case False
  then show ?thesis using assms by (auto simp: dictRehash_def rehash_rel_def dictIsRehashing_def)
next
  case True
  then have st: "rehash_state d" using assms by (simp add: dictIsRehashing_iff)
  from rehash_loop_correct [OF assms st, of n "n * 10"] obtain d1 stop where
    d1: "rehash_loop T n (n * 10) d = Some (d1, stop)" "rehash_rel T d d1" "rehash_state d1"
    "ht_size (d_ht0 d1) = ht_size (d_ht0 d)"
    "0 < n \<and> ht_used (d_ht0 d) \<noteq> 0 \<longrightarrow> rehashidx d < rehashidx d1"
    "ht_used (d_ht0 d) = 0 \<longrightarrow> d1 = d \<and> \<not> stop"
    "rehashidx d1 \<le> max (rehashidx d) (int (ht_size (d_ht0 d)))" by (elim exE conjE)
  have inv: "dict_inv T d1" using d1(2) by (simp add: rehash_rel_def)
  show ?thesis
  proof (cases "stop \<or> ht_used (d_ht0 d1) \<noteq> 0")
    case more: True
    then have "dictRehash T d n = Some (d1, True)" using True d1(1) by (auto simp: dictRehash_def)
    moreover have "ht_used (d_ht0 d) \<noteq> 0" using more d1(6) by auto
    ultimately show ?thesis using d1 by auto
  next
    case fin: False
    then have "dictRehash T d n =
      Some (d1\<lparr>d_ht0 := d_ht1 d1, d_ht1 := priv_dictReset, rehashidx := - 1\<rparr>, False)"
      using True d1(1) by (auto simp: dictRehash_def)
    moreover have "ht_entries (d_ht0 d1) = []" using fin inv by (auto simp: dict_inv_def ht_used_zero)
    then have "rehash_rel T d (d1\<lparr>d_ht0 := d_ht1 d1, d_ht1 := priv_dictReset, rehashidx := - 1\<rparr>)"
      using d1(2) by (auto simp: rehash_rel_def dict_inv_def dict_entries_def)
    ultimately show ?thesis by auto
  qed
qed

lemma priv_dictRehashStep_correct:
  assumes "dict_inv T d"
  shows "\<exists>d'. priv_dictRehashStep T d = Some d' \<and> rehash_rel T d d'"
  using dictRehash_correct [OF assms, of 1] assms by (auto simp: priv_dictRehashStep_def rehash_rel_def)

lemma rehash_if_needed:
  assumes "dict_inv T d"
  obtains d' where "(if dictIsRehashing d then priv_dictRehashStep T d else Some d) = Some d'" and "rehash_rel T d d'"
proof (cases "dictIsRehashing d")
  case True
  then show ?thesis using priv_dictRehashStep_correct [OF assms] that by auto
next
  case False
  then show ?thesis using assms that [of d] by (simp add: rehash_rel_def)
qed

subsection \<open>Expanding\<close>

lemma nextPower_loop_power:
  "\<exists>m. i = 2 ^ m \<Longrightarrow> \<exists>m. nextPower_loop i sz = 2 ^ m"
proof (induction i sz rule: nextPower_loop.induct)
  case (1 i sz)
  show ?case
  proof (cases "i \<ge> sz \<or> i = 0")
    case True
    then show ?thesis using 1(2) by (subst nextPower_loop.simps) simp
  next
    case False
    from 1(2) have "\<exists>m. i * 2 = 2 ^ m" by (metis power_Suc2)
    with False 1(1) show ?thesis by (subst nextPower_loop.simps) simp
  qed
qed

lemma nextPower_loop_ge: "0 < i \<Longrightarrow> sz \<le> nextPower_loop i sz"
proof (induction i sz rule: nextPower_loop.induct)
  case (1 i sz)
  then show ?case by (cases "i \<ge> sz") (simp_all add: nextPower_loop.simps [of i sz])
qed

lemma priv_dictNextPower_correct:
  "\<exists>m. priv_dictNextPower sz = 2 ^ m" "sz \<le> LONG_MAX + 1 \<Longrightarrow> sz \<le> priv_dictNextPower sz"
proof -
  have "\<exists>m. DICT_HT_INITIAL_SIZE = 2 ^ m" by (rule exI [of _ 2]) simp
  moreover have "LONG_MAX + 1 = 2 ^ 63" by simp
  ultimately show "\<exists>m. priv_dictNextPower sz = 2 ^ m"
    unfolding priv_dictNextPower_def using nextPower_loop_power by metis
  show "sz \<le> LONG_MAX + 1 \<Longrightarrow> sz \<le> priv_dictNextPower sz"
    using nextPower_loop_ge [of DICT_HT_INITIAL_SIZE sz] by (simp add: priv_dictNextPower_def)
qed

lemma ht_ok_new:
  assumes "\<exists>m. n = 2 ^ m"
  shows "ht_ok T \<lparr>ht_table = replicate n [], ht_size = n, ht_sizemask = n - 1, ht_used = 0\<rparr>"
    "ht_entries \<lparr>ht_table = replicate n [], ht_size = n, ht_sizemask = n - 1, ht_used = 0\<rparr> = []"
  using assms by (auto simp: ht_ok_def ht_entries_def)

lemma priv_dictExpand_rel:
  assumes "dict_inv T d"
  shows "rehash_rel T d (fst (priv_dictExpand d sz try))"
proof -
  let ?r = "priv_dictNextPower sz"
  let ?n = "\<lparr>ht_table = replicate ?r [], ht_size = ?r, ht_sizemask = ?r - 1, ht_used = 0\<rparr>"
  have n: "ht_ok T ?n" "ht_entries ?n = []" "0 < ?r"
    using ht_ok_new [OF priv_dictNextPower_correct(1)] priv_dictNextPower_correct(1) [of sz] by auto
  have new: "rehash_rel T d (d\<lparr>d_ht0 := ?n\<rparr>)" if "\<not> dictIsRehashing d" "ht_table (d_ht0 d) = []"
    using that assms n by (auto simp: rehash_rel_def dict_inv_def dict_entries_def ht_entries_def
      dictIsRehashing_def rehash_state_def)
  have prep: "rehash_rel T d (d\<lparr>d_ht1 := ?n, rehashidx := 0\<rparr>)" if "\<not> dictIsRehashing d" "ht_table (d_ht0 d) \<noteq> []"
  proof -
    have "d_ht1 d = priv_dictReset" using that(1) assms by (auto simp: dict_inv_def dictIsRehashing_def rehash_state_def)
    moreover have "0 < ht_size (d_ht0 d)" using that(2) assms by (auto simp: dict_inv_def ht_ok_def)
    ultimately show ?thesis
      using assms n by (auto simp: rehash_rel_def dict_inv_def dict_entries_def rehash_state_def)
  qed
  show ?thesis
    using new prep assms by (auto simp: priv_dictExpand_def Let_def rehash_rel_def)
qed

lemma dictExpand_rel: "dict_inv T d \<Longrightarrow> rehash_rel T d (fst (dictExpand d sz))"
  using priv_dictExpand_rel [of T d sz None] by (auto simp: dictExpand_def split: prod.splits)

lemma dictResize_rel: "dict_inv T d \<Longrightarrow> rehash_rel T d (fst (dictResize can_resize d))"
  using dictExpand_rel [of T d] by (auto simp: dictResize_def Let_def rehash_rel_def)

lemma priv_dictExpandIfNeeded_correct:
  assumes "dict_inv T d" and "dictSize d < LONG_MAX"
  obtains d' where "priv_dictExpandIfNeeded T can_resize d = (d', True)" and "rehash_rel T d d'"
    and "0 < ht_size (d_ht0 d')"
proof -
  have ok: "ht_ok T (d_ht0 d)" using assms(1) by (simp add: dict_inv_def)
  have used: "ht_used (d_ht0 d) < LONG_MAX" using assms(2) by (simp add: dictSize_def)
  have grow: "\<exists>d'. dictExpand d sz = (d', True) \<and> 0 < ht_size (d_ht0 d')"
    if "\<not> dictIsRehashing d" "ht_used (d_ht0 d) \<le> sz" "ht_size (d_ht0 d) < sz" "sz \<le> LONG_MAX" for sz
  proof -
    have "sz \<le> priv_dictNextPower sz" using that(4) priv_dictNextPower_correct(2) [of sz] by simp
    then show ?thesis using that ok by (auto simp: dictExpand_def priv_dictExpand_def Let_def ht_ok_def)
  qed
  consider "dictIsRehashing d" | "\<not> dictIsRehashing d" "ht_size (d_ht0 d) = 0"
    | "\<not> dictIsRehashing d" "0 < ht_size (d_ht0 d)" by auto
  then show ?thesis
  proof cases
    case 1
    then show ?thesis using assms(1) dictIsRehashing_iff [OF assms(1)]
      by (intro that [of d]) (auto simp: priv_dictExpandIfNeeded_def rehash_rel_def rehash_state_def)
  next
    case 2
    then have "ht_used (d_ht0 d) = 0" using ok by (auto simp: ht_ok_def ht_entries_def)
    with 2 show ?thesis
      using grow [of DICT_HT_INITIAL_SIZE] dictExpand_rel [OF assms(1), of DICT_HT_INITIAL_SIZE]
      by (auto simp: priv_dictExpandIfNeeded_def intro: that)
  next
    case 3
    show ?thesis
    proof (cases "ht_used (d_ht0 d) \<ge> ht_size (d_ht0 d) \<and>
        (can_resize \<or> ht_used (d_ht0 d) div ht_size (d_ht0 d) > dict_force_resize_ratio) \<and> dictTypeExpandAllowed T d")
      case True
      then obtain d' where "dictExpand d (ht_used (d_ht0 d) + 1) = (d', True)" "0 < ht_size (d_ht0 d')"
        using grow [of "ht_used (d_ht0 d) + 1"] 3 used by auto
      moreover have "rehash_rel T d d'" using dictExpand_rel [OF assms(1), of "ht_used (d_ht0 d) + 1"] calculation(1) by simp
      ultimately show ?thesis using 3 True by (intro that [of d']) (auto simp: priv_dictExpandIfNeeded_def)
    next
      case False
      then show ?thesis using 3 assms(1)
        by (intro that [of d]) (auto simp: priv_dictExpandIfNeeded_def rehash_rel_def)
    qed
  qed
qed

subsection \<open>Searching\<close>

lemma chain_find_Cons:
  "chain_find T key (he # c) = (if key_eq T key (fst he) then Some 0 else map_option Suc (chain_find T key c))"
  by (simp add: key_eq_def)

declare chain_find.simps(2) [simp del] chain_find_Cons [simp]

lemma chain_find_None: "chain_find T key c = None \<longleftrightarrow> (\<forall>e\<in>set c. \<not> key_eq T key (fst e))"
  by (induction c) auto

lemma chain_find_Some: "chain_find T key c = Some p \<Longrightarrow> p < length c \<and> key_eq T key (fst (c ! p))"
  by (induction c arbitrary: p) (auto split: if_splits)

lemma ht_no_match:
  assumes "ht_ok T t" and "type_ok T" and "\<forall>e\<in>set (ht_table t ! (hashFunction T key AND ht_sizemask t)). \<not> key_eq T key (fst e)"
  shows "\<forall>e\<in>set (ht_entries t). \<not> key_eq T key (fst e)"
proof (intro ballI notI)
  fix e assume e: "e \<in> set (ht_entries t)" "key_eq T key (fst e)"
  then obtain c where "c \<in> set (ht_table t)" "e \<in> set c" by (auto simp: ht_entries_def)
  then obtain i where i: "i < length (ht_table t)" "e \<in> set (ht_table t ! i)" by (metis in_set_conv_nth)
  then have "hashFunction T (fst e) AND ht_sizemask t = i" using assms(1) by (simp add: ht_ok_def)
  moreover have "hashFunction T (fst e) = hashFunction T key" using e(2) assms(2) by (simp add: type_ok_def)
  ultimately show False using assms(3) i(2) e(2) by auto
qed

text \<open>A pointer to an existing entry.\<close>

definition ref_ok :: "('k, 'v) dict \<Rightarrow> entry_ref \<Rightarrow> bool" where
  "ref_ok d r \<longleftrightarrow> (case r of (t, i, p) \<Rightarrow> (t = 0 \<or> t = 1 \<and> dictIsRehashing d) \<and>
     i < length (ht_table (ht_sel d t)) \<and> p < length (ht_table (ht_sel d t) ! i))"

lemma entry_at_in:
  assumes "ref_ok d r"
  shows "entry_at d r \<in> set (dict_entries d)"
proof -
  obtain t i p where r: "r = (t, i, p)" by (cases r)
  then have "ht_table (ht_sel d t) ! i \<in> set (ht_table (ht_sel d t))"
    "ht_table (ht_sel d t) ! i ! p \<in> set (ht_table (ht_sel d t) ! i)"
    using assms by (auto simp: ref_ok_def)
  then have "entry_at d r \<in> set (ht_entries (ht_sel d t))" by (auto simp: entry_at_def r ht_entries_def)
  then show ?thesis by (auto simp: dict_entries_def ht_sel_def split: if_splits)
qed

lemma search_tables_correct:
  assumes "dict_inv T d" and "type_ok T" and "0 < ht_size (d_ht0 d)"
  obtains idx found where "search_tables T d key (hashFunction T key) = Some (idx, found)"
    and "case found of
        None \<Rightarrow> dict_map T d key = None \<and>
          idx = hashFunction T key AND ht_sizemask (ht_sel d (if dictIsRehashing d then 1 else 0))
      | Some r \<Rightarrow> ref_ok d r \<and> key_eq T key (fst (entry_at d r))"
proof -
  have ok: "ht_ok T (d_ht0 d)" "ht_ok T (d_ht1 d)" using assms(1) by (auto simp: dict_inv_def)
  let ?i0 = "hashFunction T key AND ht_sizemask (d_ht0 d)" and ?i1 = "hashFunction T key AND ht_sizemask (d_ht1 d)"
  have i0: "?i0 < length (ht_table (d_ht0 d))" using ht_ok_index [OF ok(1) assms(3)] .
  have i1: "?i1 < length (ht_table (d_ht1 d))" if "dictIsRehashing d"
    using ht_ok_index [OF ok(2)] that dictIsRehashing_iff [OF assms(1)] by (simp add: rehash_state_def)
  have reset: "ht_entries (d_ht1 d) = []" if "\<not> dictIsRehashing d"
    using that assms(1) by (auto simp: dict_inv_def dictIsRehashing_def rehash_state_def)
  show ?thesis
  proof (cases "chain_find T key (ht_table (d_ht0 d) ! ?i0)")
    case (Some p)
    then show ?thesis
      using i0 chain_find_Some [OF Some]
      by (intro that [of ?i0 "Some (0, ?i0, p)"])
         (auto simp: search_tables_def Let_def ht_bucket_def ref_ok_def entry_at_def ht_sel_def)
  next
    case None
    then have no0: "\<forall>e\<in>set (ht_entries (d_ht0 d)). \<not> key_eq T key (fst e)"
      using ht_no_match [OF ok(1) assms(2)] by (simp add: chain_find_None)
    show ?thesis
    proof (cases "dictIsRehashing d")
      case False
      then show ?thesis
        using None no0 i0 reset
        by (intro that [of ?i0 None])
           (auto simp: search_tables_def Let_def ht_bucket_def dict_map_def bag_lookup_None dict_entries_def ht_sel_def)
    next
      case reh: True
      show ?thesis
      proof (cases "chain_find T key (ht_table (d_ht1 d) ! ?i1)")
        case (Some p)
        then show ?thesis
          using None i0 i1 [OF reh] reh chain_find_Some [OF Some]
          by (intro that [of ?i1 "Some (1, ?i1, p)"])
             (auto simp: search_tables_def Let_def ht_bucket_def ref_ok_def entry_at_def ht_sel_def)
      next
        case None1: None
        then have "\<forall>e\<in>set (ht_entries (d_ht1 d)). \<not> key_eq T key (fst e)"
          using ht_no_match [OF ok(2) assms(2)] by (simp add: chain_find_None)
        then show ?thesis
          using None None1 no0 i0 i1 [OF reh] reh
          by (intro that [of ?i1 None])
             (auto simp: search_tables_def Let_def ht_bucket_def dict_map_def bag_lookup_None dict_entries_def ht_sel_def)
      qed
    qed
  qed
qed

lemma dict_map_entry:
  "dict_inv T d \<Longrightarrow> ref_ok d r \<Longrightarrow> key_eq T key (fst (entry_at d r)) \<Longrightarrow> dict_map T d key = Some (snd (entry_at d r))"
  using bag_lookup_Some [of T "dict_entries d" "fst (entry_at d r)" "snd (entry_at d r)" key] entry_at_in [of d r]
  by (simp add: dict_map_def dict_inv_def)

lemma dictSize_zero:
  assumes "dict_inv T d" and "dictSize d = 0"
  shows "dict_map T d = (\<lambda>k. None)"
proof -
  have "dict_entries d = []" using assms by (auto simp: dict_inv_def dictSize_def dict_entries_def ht_ok_def)
  then show ?thesis by (simp add: dict_map_def bag_lookup_def fun_eq_iff)
qed

lemma ht0_exists:
  assumes "dict_inv T d" and "dictSize d \<noteq> 0"
  shows "0 < ht_size (d_ht0 d)"
proof (cases "dictIsRehashing d")
  case True
  then show ?thesis using dictIsRehashing_iff [OF assms(1)] by (simp add: rehash_state_def)
next
  case False
  then have "d_ht1 d = priv_dictReset" using assms(1) by (auto simp: dict_inv_def dictIsRehashing_def rehash_state_def)
  then show ?thesis using assms by (auto simp: dict_inv_def dictSize_def ht_ok_def ht_entries_def priv_dictReset_def)
qed

lemma dictSize_entries: "dict_inv T d \<Longrightarrow> dictSize d = size (mset (dict_entries d))"
  by (simp add: dict_inv_def dictSize_def dict_entries_def ht_ok_def)

lemma rehash_rel_size: "dict_inv T d \<Longrightarrow> rehash_rel T d d' \<Longrightarrow> dictSize d' = dictSize d"
  using dictSize_entries [of T d] dictSize_entries [of T d'] by (simp add: rehash_rel_def)

lemma rehash_rel_map: "dict_inv T d \<Longrightarrow> rehash_rel T d d' \<Longrightarrow> dict_map T d' = dict_map T d"
  using dict_map_perm [of d' d T] by (simp add: rehash_rel_def)

lemma dictFind_lookup:
  assumes "dict_inv T d" and "type_ok T"
  shows "\<exists>d' r. dictFind T d key = Some (d', r) \<and> rehash_rel T d d' \<and>
    (case r of None \<Rightarrow> dict_map T d key = None
     | Some e \<Rightarrow> ref_ok d' e \<and> key_eq T key (fst (entry_at d' e)) \<and> dict_map T d key = Some (snd (entry_at d' e)))"
proof (cases "dictSize d = 0")
  case True
  then show ?thesis using assms(1) dictSize_zero [OF assms(1)] by (auto simp: dictFind_def rehash_rel_def)
next
  case False
  obtain d' where d': "(if dictIsRehashing d then priv_dictRehashStep T d else Some d) = Some d'" "rehash_rel T d d'"
    using rehash_if_needed [OF assms(1)] .
  then have inv: "dict_inv T d'" "dictSize d' \<noteq> 0" "dict_map T d' = dict_map T d"
    using False rehash_rel_size [OF assms(1)] rehash_rel_map [OF assms(1)] by (auto simp: rehash_rel_def)
  obtain idx found where f: "search_tables T d' key (hashFunction T key) = Some (idx, found)"
    "case found of None \<Rightarrow> dict_map T d' key = None \<and> idx = hashFunction T key AND ht_sizemask (ht_sel d' (if dictIsRehashing d' then 1 else 0))
      | Some r \<Rightarrow> ref_ok d' r \<and> key_eq T key (fst (entry_at d' r))"
    using search_tables_correct [OF inv(1) assms(2) ht0_exists [OF inv(1,2)]] .
  have "dictFind T d key = Some (d', found)" using False d'(1) f(1) by (simp add: dictFind_def)
  then show ?thesis
    using d'(2) f(2) inv dict_map_entry [OF inv(1)] by (auto split: option.splits)
qed

subsection \<open>Changing one bucket\<close>

definition set_bucket :: "('k, 'v) dict \<Rightarrow> nat \<Rightarrow> nat \<Rightarrow> ('k, 'v) chain \<Rightarrow> nat \<Rightarrow> ('k, 'v) dict" where
  "set_bucket d t i c u = ht_upd d t ((ht_store (ht_sel d t) i c)\<lparr>ht_used := u\<rparr>)"

lemma set_bucket_simps:
  "rehashidx (set_bucket d t i c u) = rehashidx d" "pauserehash (set_bucket d t i c u) = pauserehash d"
  by (simp_all add: set_bucket_def ht_upd_def)

lemma mset_set_bucket:
  assumes "t = 0 \<or> t = 1" and "i < length (ht_table (ht_sel d t))"
  shows "mset (dict_entries (set_bucket d t i c u)) + mset (ht_table (ht_sel d t) ! i) =
    mset (dict_entries d) + mset c"
  using assms mset_ht_store [OF assms(2), of c]
  by (auto simp: set_bucket_def ht_upd_def ht_sel_def dict_entries_def union_ac split: if_splits)

text \<open>
  A changed bucket keeps the invariant if its entries belong there, the count is adjusted, the
  keys stay unique, and no bucket that rehashing has passed is filled again.
\<close>

lemma set_bucket_inv:
  assumes inv: "dict_inv T d" and t: "t = 0 \<or> t = 1 \<and> dictIsRehashing d"
    and i: "i < length (ht_table (ht_sel d t))"
    and c: "\<forall>e\<in>set c. hashFunction T (fst e) AND ht_sizemask (ht_sel d t) = i"
    and u: "u + length (ht_table (ht_sel d t) ! i) = ht_used (ht_sel d t) + length c"
    and keep: "dictIsRehashing d \<Longrightarrow> t = 0 \<Longrightarrow> ht_table (ht_sel d t) ! i \<noteq> []"
    and uniq: "bag_unique T (dict_entries (set_bucket d t i c u))"
  shows "dict_inv T (set_bucket d t i c u)"
proof -
  let ?h = "ht_sel d t" and ?d = "set_bucket d t i c u"
  have ok: "ht_ok T ?h" using inv by (auto simp: dict_inv_def ht_sel_def)
  have sz: "i < ht_size ?h" using i ok by (simp add: ht_ok_def)
  have new: "ht_ok T ((ht_store ?h i c)\<lparr>ht_used := u\<rparr>)" using ht_ok_store [OF ok sz c u] .
  have ok2: "ht_ok T (d_ht0 ?d)" "ht_ok T (d_ht1 ?d)"
    using new inv by (auto simp: set_bucket_def ht_upd_def dict_inv_def)
  have "rehash_state ?d" if r: "rehash_state d"
  proof -
    have "dictIsRehashing d" using r by (simp add: dictIsRehashing_iff [OF inv])
    then have "t = 0 \<Longrightarrow> \<not> int i < rehashidx d"
      using keep i r by (auto simp: rehash_state_def ht_sel_def)
    then show ?thesis
      using r by (auto simp: rehash_state_def set_bucket_def ht_upd_def ht_sel_def ht_store_def nth_list_update)
  qed
  moreover have "d_ht1 ?d = d_ht1 d" if "rehashidx d = - 1"
    using that t by (auto simp: set_bucket_def ht_upd_def dictIsRehashing_def)
  ultimately show ?thesis
    using ok2 uniq inv by (auto simp: dict_inv_def set_bucket_simps)
qed

lemma mset_remove_nth: "p < length c \<Longrightarrow> mset c = add_mset (c ! p) (mset (take p c @ drop (Suc p) c))"
  by (metis add_mset_add_single append_take_drop_id Cons_nth_drop_Suc mset.simps(2) mset_append union_mset_add_mset_right)

lemma mset_update_nth:
  assumes "p < length c"
  shows "mset (c[p := e]) = add_mset e (mset (take p c @ drop (Suc p) c))"
  using assms by (simp add: upd_conv_take_nth_drop)

lemma ref_hash:
  assumes "dict_inv T d" and "ref_ok d (t, i, p)" and "e \<in> set (ht_table (ht_sel d t) ! i)"
  shows "hashFunction T (fst e) AND ht_sizemask (ht_sel d t) = i"
proof -
  have "ht_ok T (ht_sel d t)" using assms(1) by (auto simp: dict_inv_def ht_sel_def)
  then show ?thesis using assms(2,3) by (auto simp: ref_ok_def ht_ok_def)
qed

text \<open>Taking an entry out of the bag of entries, and putting another value in its place.\<close>

lemma remove_entry:
  assumes "dict_inv T d" and "type_ok T" and "ref_ok d (t, i, p)"
  defines "c \<equiv> ht_table (ht_sel d t) ! i"
  defines "d' \<equiv> set_bucket d t i (take p c @ drop (Suc p) c) (ht_used (ht_sel d t) - 1)"
  shows "dict_inv T d'" and "mset (dict_entries d) = add_mset (c ! p) (mset (dict_entries d'))"
proof -
  have r: "t = 0 \<or> t = 1 \<and> dictIsRehashing d" "i < length (ht_table (ht_sel d t))" "p < length c"
    using assms(3) by (auto simp: ref_ok_def c_def)
  have t: "t = 0 \<or> t = 1" using r(1) by auto
  have bag: "mset (dict_entries d') + mset c = mset (dict_entries d) + mset (take p c @ drop (Suc p) c)"
    unfolding d'_def c_def by (rule mset_set_bucket [OF t r(2)])
  then show eq: "mset (dict_entries d) = add_mset (c ! p) (mset (dict_entries d'))"
    unfolding mset_remove_nth [OF r(3)] by simp
  have "ht_ok T (ht_sel d t)" using assms(1) by (auto simp: dict_inv_def ht_sel_def)
  moreover have "length c \<le> length (ht_entries (ht_sel d t))"
    using mset_ht_store [OF r(2), of "[]"] unfolding c_def
    by (metis add.right_neutral mset.simps(1) mset_subset_eq_add_right size_mset size_mset_mono)
  ultimately have "length c \<le> ht_used (ht_sel d t)" by (simp add: ht_ok_def)
  then have u: "ht_used (ht_sel d t) - 1 + length c = ht_used (ht_sel d t) + length (take p c @ drop (Suc p) c)"
    using r(3) by simp
  have "bag_unique T (c ! p # dict_entries d')"
    using assms(1) eq bag_unique_perm [of "dict_entries d" "c ! p # dict_entries d'" T] by (simp add: dict_inv_def)
  then have "bag_unique T (dict_entries d')" using bag_unique_Cons [OF assms(2)] by blast
  then show "dict_inv T d'"
    unfolding d'_def
  proof (rule set_bucket_inv [OF assms(1) r(1,2), rotated 3])
    show "\<forall>e\<in>set (take p c @ drop (Suc p) c). hashFunction T (fst e) AND ht_sizemask (ht_sel d t) = i"
      using ref_hash [OF assms(1,3)] c_def by (auto dest: in_set_takeD in_set_dropD)
  qed (use u r(3) c_def in auto)
qed

lemma update_entry:
  fixes v :: 'v
  assumes "dict_inv T d" and "type_ok T" and "ref_ok d (t, i, p)"
  defines "c \<equiv> ht_table (ht_sel d t) ! i"
  defines "d' \<equiv> set_bucket d t i (c[p := (fst (c ! p), v)]) (ht_used (ht_sel d t))"
  shows "dict_inv T d'" and "dict_map T d' k = (if key_eq T k (fst (c ! p)) then Some v else dict_map T d k)"
proof -
  have r: "t = 0 \<or> t = 1 \<and> dictIsRehashing d" "i < length (ht_table (ht_sel d t))" "p < length c"
    using assms(3) by (auto simp: ref_ok_def c_def)
  have t: "t = 0 \<or> t = 1" using r(1) by auto
  define d0 where "d0 = set_bucket d t i (take p c @ drop (Suc p) c) (ht_used (ht_sel d t) - 1)"
  have d0: "dict_inv T d0" "mset (dict_entries d) = mset (c ! p # dict_entries d0)"
    using remove_entry [OF assms(1-3)] by (simp_all add: d0_def c_def)
  have "mset (dict_entries d') + mset c = mset (dict_entries d) + mset (c[p := (fst (c ! p), v)])"
    unfolding d'_def c_def by (rule mset_set_bucket [OF t r(2)])
  then have eq: "mset (dict_entries d') = mset ((fst (c ! p), v) # dict_entries d0)"
    unfolding mset_remove_nth [OF r(3)] mset_update_nth [OF r(3)] d0(2) by simp
  have u: "bag_unique T (c ! p # dict_entries d0)"
    using assms(1) bag_unique_perm [OF d0(2), of T] by (simp add: dict_inv_def)
  then have u': "bag_unique T ((fst (c ! p), v) # dict_entries d0)" by (simp add: bag_unique_Cons [OF assms(2)])
  have uniq: "bag_unique T (dict_entries d')" using bag_unique_perm [OF eq, of T] u' by simp
  show inv: "dict_inv T d'"
    unfolding d'_def
  proof (rule set_bucket_inv [OF assms(1) r(1,2), rotated 3])
    show "\<forall>e\<in>set (c[p := (fst (c ! p), v)]). hashFunction T (fst e) AND ht_sizemask (ht_sel d t) = i"
    proof
      fix e assume "e \<in> set (c[p := (fst (c ! p), v)])"
      then have "e = (fst (c ! p), v) \<or> e \<in> set c" using set_update_subset_insert by fastforce
      then have "\<exists>e'\<in>set c. fst e = fst e'" using nth_mem [OF r(3)] by (metis fst_conv)
      then show "hashFunction T (fst e) AND ht_sizemask (ht_sel d t) = i"
        using ref_hash [OF assms(1,3)] unfolding c_def by metis
    qed
  qed (use r(3) c_def uniq d'_def in auto)
  show "dict_map T d' k = (if key_eq T k (fst (c ! p)) then Some v else dict_map T d k)"
    using bag_lookup_perm [OF eq uniq] bag_lookup_perm [OF d0(2), of T] assms(1)
    by (auto simp: dict_map_def dict_inv_def bag_lookup_Cons)
qed

subsection \<open>The operations as map operations\<close>

lemma key_eq_same:
  assumes "type_ok T" and "key_eq T k k'"
  shows "key_eq T k = key_eq T k'"
  using assms unfolding type_ok_def by (metis equivp_def)

lemma key_eq_sym: "type_ok T \<Longrightarrow> key_eq T k k' \<longleftrightarrow> key_eq T k' k"
  unfolding type_ok_def by (metis equivp_symp)

lemma dict_map_equiv: "type_ok T \<Longrightarrow> key_eq T k k' \<Longrightarrow> dict_map T d k = dict_map T d k'"
  using key_eq_same [of T k k'] by (simp add: dict_map_def bag_lookup_def)

lemma insert_entry:
  fixes v :: 'v
  assumes "dict_inv T d" and "type_ok T" and "0 < ht_size (d_ht0 d)" and "dict_map T d key = None"
  defines "t \<equiv> if dictIsRehashing d then 1 else 0"
  defines "i \<equiv> hashFunction T key AND ht_sizemask (ht_sel d t)"
  defines "d' \<equiv> set_bucket d t i ((dictDupKey T key, v) # ht_table (ht_sel d t) ! i) (ht_used (ht_sel d t) + 1)"
  shows "i < length (ht_table (ht_sel d t))" and "dict_inv T d'"
    and "mset (dict_entries d') = add_mset (dictDupKey T key, v) (mset (dict_entries d))"
    and "dict_map T d' k = (if key_eq T k key then Some v else dict_map T d k)"
    and "ref_ok d' (t, i, 0)" and "entry_at d' (t, i, 0) = (dictDupKey T key, v)"
proof -
  have ok: "ht_ok T (ht_sel d t)" using assms(1) by (auto simp: dict_inv_def ht_sel_def)
  have "0 < ht_size (ht_sel d t)"
    using assms(3) dictIsRehashing_iff [OF assms(1)] by (auto simp: t_def ht_sel_def rehash_state_def)
  then show i: "i < length (ht_table (ht_sel d t))" unfolding i_def by (rule ht_ok_index [OF ok])
  have t: "t = 0 \<or> t = 1" "t = 0 \<or> t = 1 \<and> dictIsRehashing d" by (auto simp: t_def)
  have dup: "key_eq T key (dictDupKey T key)" using assms(2) by (simp add: type_ok_def)
  then have hashdup: "hashFunction T (dictDupKey T key) = hashFunction T key"
    using assms(2) unfolding type_ok_def by metis
  from dup have dup_iff: "key_eq T k (dictDupKey T key) \<longleftrightarrow> key_eq T k key" for k
    using key_eq_same [OF assms(2)] key_eq_sym [OF assms(2)] by metis
  have eq: "mset (dict_entries d') = mset ((dictDupKey T key, v) # dict_entries d)"
    using mset_set_bucket [OF t(1) i, of "(dictDupKey T key, v) # ht_table (ht_sel d t) ! i" "ht_used (ht_sel d t) + 1"]
    by (simp add: d'_def)
  then show "mset (dict_entries d') = add_mset (dictDupKey T key, v) (mset (dict_entries d))" by simp
  have "bag_lookup T (dict_entries d) (dictDupKey T key) = None"
    using assms(4) dict_map_equiv [OF assms(2) dup] by (simp add: dict_map_def)
  then have "bag_unique T ((dictDupKey T key, v) # dict_entries d)"
    using assms(1) by (simp add: bag_unique_Cons [OF assms(2)] dict_inv_def)
  then have uniq: "bag_unique T (dict_entries d')" using bag_unique_perm [OF eq, of T] by simp
  show "dict_inv T d'"
    unfolding d'_def
  proof (rule set_bucket_inv [OF assms(1) t(2) i])
    show "\<forall>e\<in>set ((dictDupKey T key, v) # ht_table (ht_sel d t) ! i). hashFunction T (fst e) AND ht_sizemask (ht_sel d t) = i"
      using ok i hashdup by (auto simp: ht_ok_def i_def)
  qed (use uniq d'_def t_def in auto)
  show "dict_map T d' k = (if key_eq T k key then Some v else dict_map T d k)"
    using bag_lookup_perm [OF eq uniq] dup_iff by (simp add: dict_map_def bag_lookup_Cons)
  show "ref_ok d' (t, i, 0)" "entry_at d' (t, i, 0) = (dictDupKey T key, v)"
    using i t(1) by (auto simp: ref_ok_def entry_at_def d'_def set_bucket_def ht_upd_def ht_sel_def ht_store_def
      dictIsRehashing_def t_def split: if_splits)
qed

lemma dictAddRaw_correct:
  assumes "dict_inv T d" and "type_ok T" and "dictSize d < LONG_MAX"
  shows "\<exists>d' entry existing. dictAddRaw T cr uninit d key = Some (d', entry, existing) \<and> dict_inv T d' \<and>
    (case dict_map T d key of
       None \<Rightarrow> (\<exists>e. entry = Some e \<and> ref_ok d' e \<and> entry_at d' e = (dictDupKey T key, uninit)) \<and>
         dict_map T d' = (\<lambda>k. if key_eq T k key then Some uninit else dict_map T d k) \<and> dictSize d' = dictSize d + 1
     | Some v \<Rightarrow> entry = None \<and> rehash_rel T d d' \<and>
         (\<exists>e. existing = Some e \<and> ref_ok d' e \<and> key_eq T key (fst (entry_at d' e))))"
proof -
  obtain d1 where d1: "(if dictIsRehashing d then priv_dictRehashStep T d else Some d) = Some d1" "rehash_rel T d d1"
    using rehash_if_needed [OF assms(1)] .
  have inv1: "dict_inv T d1" "dictSize d1 < LONG_MAX"
    using d1(2) rehash_rel_size [OF assms(1) d1(2)] assms(3) by (auto simp: rehash_rel_def)
  obtain d2 where d2: "priv_dictExpandIfNeeded T cr d1 = (d2, True)" "rehash_rel T d1 d2" "0 < ht_size (d_ht0 d2)"
    using priv_dictExpandIfNeeded_correct [OF inv1] .
  have rel: "rehash_rel T d d2" using d1(2) d2(2) by (rule rehash_rel_trans)
  then have inv2: "dict_inv T d2" "dict_map T d2 = dict_map T d" "dictSize d2 = dictSize d"
    using rehash_rel_map [OF assms(1)] rehash_rel_size [OF assms(1)] by (auto simp: rehash_rel_def)
  obtain idx found where f: "search_tables T d2 key (hashFunction T key) = Some (idx, found)"
    "case found of None \<Rightarrow> dict_map T d2 key = None \<and> idx = hashFunction T key AND ht_sizemask (ht_sel d2 (if dictIsRehashing d2 then 1 else 0))
      | Some r \<Rightarrow> ref_ok d2 r \<and> key_eq T key (fst (entry_at d2 r))"
    using search_tables_correct [OF inv2(1) assms(2) d2(3)] .
  show ?thesis
  proof (cases found)
    case (Some e)
    then have "dictAddRaw T cr uninit d key = Some (d2, None, Some e)"
      using d1(1) d2(1) f(1) by (simp add: dictAddRaw_def priv_dictKeyIndex_def)
    moreover have "dict_map T d key \<noteq> None"
      using dict_map_entry [OF inv2(1), of e key] Some f(2) inv2(2) by simp
    ultimately show ?thesis using Some f(2) inv2(1) rel by auto
  next
    case None
    let ?t = "if dictIsRehashing d2 then 1 else 0"
    have none: "dict_map T d2 key = None" using None f(2) by simp
    note ins = insert_entry(1) [OF inv2(1) assms(2) d2(3) none]
      insert_entry(2-) [OF inv2(1) assms(2) d2(3) none, where v = uninit]
    let ?d = "set_bucket d2 ?t idx ((dictDupKey T key, uninit) # ht_table (ht_sel d2 ?t) ! idx) (ht_used (ht_sel d2 ?t) + 1)"
    have idx: "idx = hashFunction T key AND ht_sizemask (ht_sel d2 ?t)" using None f(2) by simp
    have "dictAddRaw T cr uninit d key = Some (?d, Some (?t, idx, 0), None)"
      using d1(1) d2(1) f(1) None ins(1) [folded idx]
      by (simp add: dictAddRaw_def priv_dictKeyIndex_def Let_def ht_bucket_def set_bucket_def ht_store_def)
    moreover have "dictSize ?d = dictSize d + 1"
      unfolding dictSize_entries [OF ins(2) [folded idx]] ins(3) [folded idx]
      using dictSize_entries [OF inv2(1)] inv2(3) by simp
    ultimately show ?thesis
      using ins [folded idx] none inv2 by (auto simp: fun_eq_iff)
  qed
qed

lemma dictSetVal_set_bucket:
  "dictSetVal T d (t, i, p) v =
    set_bucket d t i ((ht_table (ht_sel d t) ! i)[p := (fst (ht_table (ht_sel d t) ! i ! p), dictDupVal T v)]) (ht_used (ht_sel d t))"
  by (simp add: dictSetVal_def set_bucket_def Let_def ht_store_def ht_upd_def ht_sel_def)

lemma dictSetVal_correct:
  assumes "dict_inv T d" and "type_ok T" and "ref_ok d r"
  shows "dict_inv T (dictSetVal T d r v)" and "dict_map T (dictSetVal T d r v) k =
    (if key_eq T k (fst (entry_at d r)) then Some (dictDupVal T v) else dict_map T d k)"
    and "dictSize (dictSetVal T d r v) = dictSize d"
proof -
  obtain t i p where r: "r = (t, i, p)" by (cases r)
  show "dict_inv T (dictSetVal T d r v)" "dict_map T (dictSetVal T d r v) k =
    (if key_eq T k (fst (entry_at d r)) then Some (dictDupVal T v) else dict_map T d k)"
    using update_entry [OF assms(1,2), of t i p] assms(3) r by (simp_all add: dictSetVal_set_bucket entry_at_def)
  show "dictSize (dictSetVal T d r v) = dictSize d"
    by (simp add: r dictSetVal_def Let_def dictSize_def ht_upd_def ht_sel_def ht_store_def)
qed

lemma dictAdd_map:
  assumes "dict_inv T d" and "type_ok T" and "dictSize d < LONG_MAX"
  shows "\<exists>d'. dictAdd T cr uninit d key v = Some (d', dict_map T d key = None) \<and> dict_inv T d' \<and>
    dict_map T d' = (if dict_map T d key = None
      then (\<lambda>k. if key_eq T k key then Some (dictDupVal T v) else dict_map T d k) else dict_map T d) \<and>
    dictSize d' = dictSize d + (if dict_map T d key = None then 1 else 0)"
proof -
  obtain d' entry existing where r: "dictAddRaw T cr uninit d key = Some (d', entry, existing)" "dict_inv T d'"
    and c: "case dict_map T d key of
       None \<Rightarrow> (\<exists>e. entry = Some e \<and> ref_ok d' e \<and> entry_at d' e = (dictDupKey T key, uninit)) \<and>
         dict_map T d' = (\<lambda>k. if key_eq T k key then Some uninit else dict_map T d k) \<and> dictSize d' = dictSize d + 1
     | Some v \<Rightarrow> entry = None \<and> rehash_rel T d d' \<and>
         (\<exists>e. existing = Some e \<and> ref_ok d' e \<and> key_eq T key (fst (entry_at d' e)))"
    using dictAddRaw_correct [OF assms] by blast
  show ?thesis
  proof (cases "dict_map T d key")
    case None
    with c obtain e where e: "entry = Some e" "ref_ok d' e" "entry_at d' e = (dictDupKey T key, uninit)" by auto
    have "key_eq T key (dictDupKey T key)" using assms(2) by (simp add: type_ok_def)
    then have "key_eq T k (dictDupKey T key) \<longleftrightarrow> key_eq T k key" for k
      using key_eq_same [OF assms(2)] key_eq_sym [OF assms(2)] by metis
    with None c e r dictSetVal_correct [OF r(2) assms(2) e(2), of v] show ?thesis
      by (auto simp: dictAdd_def fun_eq_iff)
  next
    case (Some w)
    with c r rehash_rel_map [OF assms(1)] rehash_rel_size [OF assms(1)] show ?thesis
      by (auto simp: dictAdd_def)
  qed
qed

lemma dictReplace_map:
  assumes "dict_inv T d" and "type_ok T" and "dictSize d < LONG_MAX"
  shows "\<exists>d'. dictReplace T cr uninit d key v = Some (d', dict_map T d key = None) \<and> dict_inv T d' \<and>
    dict_map T d' = (\<lambda>k. if key_eq T k key then Some (dictDupVal T v) else dict_map T d k) \<and>
    dictSize d' = dictSize d + (if dict_map T d key = None then 1 else 0)"
proof -
  obtain d' entry existing where r: "dictAddRaw T cr uninit d key = Some (d', entry, existing)" "dict_inv T d'"
    and c: "case dict_map T d key of
       None \<Rightarrow> (\<exists>e. entry = Some e \<and> ref_ok d' e \<and> entry_at d' e = (dictDupKey T key, uninit)) \<and>
         dict_map T d' = (\<lambda>k. if key_eq T k key then Some uninit else dict_map T d k) \<and> dictSize d' = dictSize d + 1
     | Some v \<Rightarrow> entry = None \<and> rehash_rel T d d' \<and>
         (\<exists>e. existing = Some e \<and> ref_ok d' e \<and> key_eq T key (fst (entry_at d' e)))"
    using dictAddRaw_correct [OF assms] by blast
  show ?thesis
  proof (cases "dict_map T d key")
    case None
    with c obtain e where e: "entry = Some e" "ref_ok d' e" "entry_at d' e = (dictDupKey T key, uninit)" by auto
    have "key_eq T key (dictDupKey T key)" using assms(2) by (simp add: type_ok_def)
    then have "key_eq T k (dictDupKey T key) \<longleftrightarrow> key_eq T k key" for k
      using key_eq_same [OF assms(2)] key_eq_sym [OF assms(2)] by metis
    with None c e r dictSetVal_correct [OF r(2) assms(2) e(2), of v] show ?thesis
      by (auto simp: dictReplace_def fun_eq_iff)
  next
    case (Some w)
    with c obtain e where e: "entry = None" "existing = Some e" "ref_ok d' e" "key_eq T key (fst (entry_at d' e))"
      "rehash_rel T d d'" by auto
    then have "key_eq T k (fst (entry_at d' e)) \<longleftrightarrow> key_eq T k key" for k
      using key_eq_same [OF assms(2)] key_eq_sym [OF assms(2)] by metis
    with Some e r dictSetVal_correct [OF r(2) assms(2) e(3), of v] rehash_rel_map [OF assms(1) e(5)]
      rehash_rel_size [OF assms(1) e(5)] show ?thesis
      by (auto simp: dictReplace_def fun_eq_iff)
  qed
qed

lemma dictGenericDelete_map:
  assumes "dict_inv T d" and "type_ok T"
  shows "\<exists>d' e. dictGenericDelete T d key = Some (d', e) \<and> dict_inv T d' \<and>
    dict_map T d' = (\<lambda>k. if key_eq T k key then None else dict_map T d k) \<and>
    map_option snd e = dict_map T d key \<and> dictSize d = dictSize d' + (if e = None then 0 else 1)"
proof -
  have none: "dict_map T d = (\<lambda>k. if key_eq T k key then None else dict_map T d k)" if "dict_map T d key = None"
    using that dict_map_equiv [OF assms(2)] by (auto simp: fun_eq_iff)
  show ?thesis
  proof (cases "dictSize d = 0")
    case True
    then have "dict_map T d key = None" using dictSize_zero [OF assms(1)] by (simp add: fun_eq_iff)
    with True assms(1) none show ?thesis by (auto simp: dictGenericDelete_def dictSize_def)
  next
    case False
    obtain d1 where d1: "(if dictIsRehashing d then priv_dictRehashStep T d else Some d) = Some d1" "rehash_rel T d d1"
      using rehash_if_needed [OF assms(1)] .
    then have inv: "dict_inv T d1" "dictSize d1 = dictSize d" "dict_map T d1 = dict_map T d"
      using rehash_rel_size [OF assms(1)] rehash_rel_map [OF assms(1)] by (auto simp: rehash_rel_def)
    have pos: "0 < ht_size (d_ht0 d1)" using ht0_exists [OF inv(1)] False inv(2) by simp
    obtain idx found where f: "search_tables T d1 key (hashFunction T key) = Some (idx, found)"
      "case found of None \<Rightarrow> dict_map T d1 key = None \<and> idx = hashFunction T key AND ht_sizemask (ht_sel d1 (if dictIsRehashing d1 then 1 else 0))
        | Some r \<Rightarrow> ref_ok d1 r \<and> key_eq T key (fst (entry_at d1 r))"
      using search_tables_correct [OF inv(1) assms(2) pos] .
    have nz: "\<not> (ht_used (d_ht0 d) = 0 \<and> ht_used (d_ht1 d) = 0)" using False by (simp add: dictSize_def)
    show ?thesis
    proof (cases found)
      case None
      have "dictGenericDelete T d key = Some (d1, None)"
        unfolding dictGenericDelete_def if_not_P [OF nz] using f(1) None d1(1) by simp
      with None f(2) inv none show ?thesis by auto
    next
      case (Some r)
      obtain t i p where r: "r = (t, i, p)" by (cases r)
      let ?c = "ht_table (ht_sel d1 t) ! i"
      let ?d = "set_bucket d1 t i (take p ?c @ drop (Suc p) ?c) (ht_used (ht_sel d1 t) - 1)"
      have ok: "ref_ok d1 (t, i, p)" "key_eq T key (fst (?c ! p))"
        using f(2) Some r by (auto simp: entry_at_def)
      have rm: "dict_inv T ?d" "mset (dict_entries d1) = mset (?c ! p # dict_entries ?d)"
        using remove_entry [OF inv(1) assms(2) ok(1)] by simp_all
      have del: "dictGenericDelete T d key = Some (?d, Some (?c ! p))"
        unfolding dictGenericDelete_def if_not_P [OF nz]
        using f(1) Some r d1(1) by (simp add: Let_def set_bucket_def ht_store_def)
      have u: "bag_unique T (?c ! p # dict_entries ?d)"
        using inv(1) bag_unique_perm [OF rm(2), of T] by (simp add: dict_inv_def)
      have "bag_unique T (dict_entries d1)" using inv(1) by (simp add: dict_inv_def)
      then have "dict_map T d = bag_lookup T (?c ! p # dict_entries ?d)"
        using bag_lookup_perm [OF rm(2)] inv(3) unfolding dict_map_def by metis
      then have look: "dict_map T d k = (if key_eq T k (fst (?c ! p)) then Some (snd (?c ! p)) else dict_map T ?d k)" for k
        unfolding dict_map_def bag_lookup_Cons by (simp add: bag_lookup_Cons)
      have gone: "dict_map T ?d (fst (?c ! p)) = None" using u by (simp add: bag_unique_Cons [OF assms(2)] dict_map_def)
      have eqk: "key_eq T k (fst (?c ! p)) \<longleftrightarrow> key_eq T k key" for k
        using ok(2) key_eq_same [OF assms(2)] key_eq_sym [OF assms(2)] by metis
      have "dict_map T ?d k = (if key_eq T k key then None else dict_map T d k)" for k
        using look [of k] gone eqk [of k] dict_map_equiv [OF assms(2), of k "fst (?c ! p)" ?d] by simp
      then have "dict_map T ?d = (\<lambda>k. if key_eq T k key then None else dict_map T d k)" by blast
      moreover have "dictSize d = dictSize ?d + 1"
        using dictSize_entries [OF rm(1)] dictSize_entries [OF inv(1)] arg_cong [OF rm(2), of size] inv(2) by simp
      moreover have "dict_map T d key = Some (snd (?c ! p))" using look ok(2) by simp
      ultimately show ?thesis using rm(1) del by (cases "?c ! p") simp
    qed
  qed
qed

lemma dictClear_loop_total: "length (ht_table t) = ht_size t \<Longrightarrow> \<exists>t'. dictClear_loop t i = Some t'"
proof (induction t i rule: dictClear_loop.induct)
  case (1 t i)
  show ?case
  proof (cases "i < ht_size t \<and> ht_used t > 0")
    case True
    then have "ht_bucket t i = Some (ht_table t ! i)" using 1(2) by (simp add: ht_bucket_def)
    with 1(1) [OF True this] 1(2) True show ?thesis by (simp add: dictClear_loop.simps [of t i])
  next
    case False
    then show ?thesis by (subst dictClear_loop.simps) auto
  qed
qed

lemma dictEmpty_map:
  assumes "dict_inv T d"
  shows "dictEmpty d = Some dictCreate"
  using assms dictClear_loop_total [of "d_ht0 d" 0] dictClear_loop_total [of "d_ht1 d" 0]
  by (auto simp: dictEmpty_def priv_dictClear_def dictCreate_def dict_inv_def ht_ok_def)

end
