(* ===== verification/Dict_Map.thy ===== *)
theory Dict_Map
  imports Dict
begin

text \<open>
  What the rest of the server uses of \<^verbatim>\<open>dict.c\<close>: the interface of a keyed store, which the
  dictionary implements for every type of keys that are compared by their contents; the iterators;
  and that incremental rehashing comes to an end.
\<close>

subsection \<open>The keyed store interface\<close>

locale keyed_store =
  fixes inv :: "'s \<Rightarrow> bool" and abs :: "'s \<Rightarrow> 'k \<Rightarrow> 'v option" and entries :: "'s \<Rightarrow> nat" and room :: nat
    and fetch :: "'s \<Rightarrow> 'k \<Rightarrow> ('s \<times> 'v option) option"
    and add :: "'s \<Rightarrow> 'k \<Rightarrow> 'v \<Rightarrow> ('s \<times> bool) option"
    and replace :: "'s \<Rightarrow> 'k \<Rightarrow> 'v \<Rightarrow> ('s \<times> bool) option"
    and remove :: "'s \<Rightarrow> 'k \<Rightarrow> ('s \<times> bool) option"
  assumes fetch: "inv s \<Longrightarrow> \<exists>s'. fetch s k = Some (s', abs s k) \<and> inv s' \<and> abs s' = abs s"
    and add: "inv s \<Longrightarrow> entries s < room \<Longrightarrow> \<exists>s'. add s k v = Some (s', abs s k = None) \<and> inv s' \<and>
      abs s' = (if abs s k = None then (abs s)(k \<mapsto> v) else abs s)"
    and replace: "inv s \<Longrightarrow> entries s < room \<Longrightarrow> \<exists>s'. replace s k v = Some (s', abs s k = None) \<and> inv s' \<and>
      abs s' = (abs s)(k \<mapsto> v)"
    and remove: "inv s \<Longrightarrow> \<exists>s'. remove s k = Some (s', abs s k \<noteq> None) \<and> inv s' \<and> abs s' = (abs s)(k := None)"
    and entries: "inv s \<Longrightarrow> finite (dom (abs s)) \<and> entries s = card (dom (abs s))"










text \<open>A dictionary type whose keys are compared by value and that copies nothing.\<close>

definition plain_type :: "('k, 'v) dictType \<Rightarrow> bool" where
  "plain_type T \<longleftrightarrow> key_eq T = (=) \<and> keyDup T = None \<and> valDup T = None"

lemma plain_type_ok: "plain_type T \<Longrightarrow> type_ok T"
  by (auto simp: plain_type_def type_ok_def dictDupKey_def identity_equivp)

lemma plain_dup: "plain_type T \<Longrightarrow> dictDupVal T v = v"
  by (simp add: plain_type_def dictDupVal_def)

lemma distinct_keys: "(\<And>k. length (filter (\<lambda>e. k = fst e) xs) \<le> 1) \<Longrightarrow> distinct (map fst xs)"
proof (induction xs)
  case (Cons x xs)
  have "filter (\<lambda>e. fst x = fst e) xs = []" using Cons.prems [of "fst x"] by simp
  then have "fst x \<notin> fst ` set xs" by (auto simp: filter_empty_conv)
  moreover have "length (filter (\<lambda>e. k = fst e) xs) \<le> 1" for k
    using Cons.prems [of k] by (simp split: if_splits)
  ultimately show ?case using Cons.IH by simp
qed simp

lemma dict_map_dom:
  assumes "plain_type T" and "dict_inv T d"
  shows "finite (dom (dict_map T d))" and "dictSize d = card (dom (dict_map T d))"
proof -
  have eq: "key_eq T = (=)" using assms(1) by (simp add: plain_type_def)
  have dom: "dom (dict_map T d) = set (map fst (dict_entries d))"
    unfolding dict_map_def dom_def using eq by (force simp: bag_lookup_None [unfolded eq] simp flip: not_None_eq)
  have "length (filter (\<lambda>e. k = fst e) (dict_entries d)) \<le> 1" for k
    using assms(2) eq by (simp add: dict_inv_def bag_unique_def)
  then have "distinct (map fst (dict_entries d))" by (rule distinct_keys)
  then show "finite (dom (dict_map T d))" "dictSize d = card (dom (dict_map T d))"
    using dictSize_entries [OF assms(2)] by (simp_all add: dom distinct_card flip: set_map)
qed

text \<open>The laws of the dictionary for such types, over ordinary map update.\<close>

lemma dictFetchValue_map:
  assumes "dict_inv T d" and "type_ok T"
  shows "\<exists>d'. dictFetchValue T d k = Some (d', dict_map T d k) \<and> dict_inv T d' \<and> dict_map T d' = dict_map T d \<and>
    dictSize d' = dictSize d"
proof -
  obtain d' r where d': "dictFind T d k = Some (d', r)" "rehash_rel T d d'"
    and r: "case r of None \<Rightarrow> dict_map T d k = None
     | Some e \<Rightarrow> ref_ok d' e \<and> key_eq T k (fst (entry_at d' e)) \<and> dict_map T d k = Some (snd (entry_at d' e))"
    using dictFind_lookup [OF assms, of k] by (elim exE conjE)
  have "dict_inv T d'" using d'(2) by (simp add: rehash_rel_def)
  then show ?thesis
    using d'(1) r rehash_rel_map [OF assms(1) d'(2)] rehash_rel_size [OF assms(1) d'(2)]
    by (cases r) (simp_all add: dictFetchValue_def)
qed

lemma plain_update: "plain_type T \<Longrightarrow> (\<lambda>k. if key_eq T k key then v else m k) = m(key := v)"
  by (auto simp: plain_type_def)

lemma dictDelete_map:
  assumes "dict_inv T d" and "type_ok T"
  shows "\<exists>d'. dictDelete T d key = Some (d', dict_map T d key \<noteq> None) \<and> dict_inv T d' \<and>
    dict_map T d' = (\<lambda>k. if key_eq T k key then None else dict_map T d k) \<and>
    dictSize d = dictSize d' + (if dict_map T d key = None then 0 else 1)"
proof -
  obtain d' e where d': "dictGenericDelete T d key = Some (d', e)" "dict_inv T d'"
    "dict_map T d' = (\<lambda>k. if key_eq T k key then None else dict_map T d k)"
    and e: "map_option snd e = dict_map T d key" "dictSize d = dictSize d' + (if e = None then 0 else 1)"
    using dictGenericDelete_map [OF assms, of key] by (elim exE conjE)
  have "e = None \<longleftrightarrow> dict_map T d key = None" using e(1) [symmetric] by simp
  with d' e(2) show ?thesis by (intro exI [of _ d']) (simp add: dictDelete_def del: not_None_eq)
qed

interpretation dict_store: keyed_store "\<lambda>d. plain_type T \<and> dict_inv T d" "dict_map T" dictSize LONG_MAX
  "dictFetchValue T" "dictAdd T can_resize uninit" "dictReplace T can_resize uninit" "dictDelete T"
  for T :: "('k, 'v) dictType" and can_resize :: bool and uninit :: 'v
proof (standard, goal_cases)
  case (1 d k)
  then have T: "plain_type T" "dict_inv T d" by simp_all
  obtain d' where "dictFetchValue T d k = Some (d', dict_map T d k)" "dict_inv T d'" "dict_map T d' = dict_map T d"
    using dictFetchValue_map [OF T(2) plain_type_ok [OF T(1)], of k] by (elim exE conjE)
  with T show ?case by (intro exI [of _ d']) simp
next
  case (2 d k v)
  then have T: "plain_type T" "dict_inv T d" by simp_all
  obtain d' where d': "dictAdd T can_resize uninit d k v = Some (d', dict_map T d k = None)" "dict_inv T d'"
    "dict_map T d' = (if dict_map T d k = None
      then (\<lambda>k'. if key_eq T k' k then Some (dictDupVal T v) else dict_map T d k') else dict_map T d)"
    using dictAdd_map [OF T(2) plain_type_ok [OF T(1)] 2(2), of can_resize uninit k v] by (elim exE conjE)
  from d'(3) have "dict_map T d' = (if dict_map T d k = None then (dict_map T d)(k \<mapsto> v) else dict_map T d)"
    unfolding plain_update [OF T(1)] plain_dup [OF T(1)] .
  with d' T show ?case by (intro exI [of _ d']) simp
next
  case (3 d k v)
  then have T: "plain_type T" "dict_inv T d" by simp_all
  obtain d' where d': "dictReplace T can_resize uninit d k v = Some (d', dict_map T d k = None)" "dict_inv T d'"
    "dict_map T d' = (\<lambda>k'. if key_eq T k' k then Some (dictDupVal T v) else dict_map T d k')"
    using dictReplace_map [OF T(2) plain_type_ok [OF T(1)] 3(2), of can_resize uninit k v] by (elim exE conjE)
  from d'(3) have "dict_map T d' = (dict_map T d)(k \<mapsto> v)"
    unfolding plain_update [OF T(1)] plain_dup [OF T(1)] .
  with d' T show ?case by (intro exI [of _ d']) simp
next
  case (4 d k)
  then have T: "plain_type T" "dict_inv T d" by simp_all
  obtain d' where d': "dictDelete T d k = Some (d', dict_map T d k \<noteq> None)" "dict_inv T d'"
    "dict_map T d' = (\<lambda>k'. if key_eq T k' k then None else dict_map T d k')"
    using dictDelete_map [OF T(2) plain_type_ok [OF T(1)], of k] by (elim exE conjE)
  from d'(3) have "dict_map T d' = (dict_map T d)(k := None)" unfolding plain_update [OF T(1)] .
  with d' T show ?case by (intro exI [of _ d']) simp
next
  case (5 d)
  then show ?case by (simp add: dict_map_dom)
qed





subsection \<open>Iterators\<close>

text \<open>
  An entry pointer of an iterator is the rest of the chain that starts with the entry; \<open>[]\<close> is
  the null pointer. The addresses of the two tables, which enter the fingerprint of an unsafe
  iterator, are arguments.
\<close>

record ('k, 'v) dictIterator =
  it_index :: int
  it_table :: nat
  it_safe :: bool
  it_entry :: "('k, 'v) chain"
  it_nextEntry :: "('k, 'v) chain"
  it_fingerprint :: "64 word"

definition fingerprint_step :: "64 word \<Rightarrow> 64 word" where
  "fingerprint_step h0 =
     (let h = NOT h0 + push_bit 21 h0;
          h = h XOR signed_drop_bit 24 h;
          h = (h + push_bit 3 h) + push_bit 8 h;
          h = h XOR signed_drop_bit 14 h;
          h = (h + push_bit 2 h) + push_bit 4 h;
          h = h XOR signed_drop_bit 28 h
      in h + push_bit 31 h)"

definition dictFingerprint :: "64 word \<Rightarrow> 64 word \<Rightarrow> ('k, 'v) dict \<Rightarrow> 64 word" where
  "dictFingerprint addr0 addr1 d =
     fold (\<lambda>i h. fingerprint_step (h + i))
       [addr0, of_nat (ht_size (d_ht0 d)), of_nat (ht_used (d_ht0 d)),
        addr1, of_nat (ht_size (d_ht1 d)), of_nat (ht_used (d_ht1 d))] 0"

definition dictGetIterator :: "('k, 'v) dictIterator" where
  "dictGetIterator = \<lparr>it_index = - 1, it_table = 0, it_safe = False, it_entry = [], it_nextEntry = [], it_fingerprint = 0\<rparr>"

definition dictGetSafeIterator :: "('k, 'v) dictIterator" where
  "dictGetSafeIterator = dictGetIterator\<lparr>it_safe := True\<rparr>"

text \<open>
  \<^verbatim>\<open>dictNext\<close> is a loop. The first half of its body selects the next chain: the flag tells
  that the loop is left, and a safe iterator pauses the rehashing of the dictionary when it starts.
\<close>

definition next_select ::
  "64 word \<Rightarrow> 64 word \<Rightarrow> ('k, 'v) dict \<Rightarrow> ('k, 'v) dictIterator \<Rightarrow>
    (bool \<times> ('k, 'v) dict \<times> ('k, 'v) dictIterator) option" where
  "next_select addr0 addr1 d iter =
     (if it_entry iter = [] then
        let start = (it_index iter = - 1 \<and> it_table iter = 0);
            (d, iter) = (if start \<and> it_safe iter then (d\<lparr>pauserehash := pauserehash d + 1\<rparr>, iter)
                         else if start then (d, iter\<lparr>it_fingerprint := dictFingerprint addr0 addr1 d\<rparr>)
                         else (d, iter));
            iter = iter\<lparr>it_index := it_index iter + 1\<rparr>
        in if it_index iter \<ge> int (ht_size (ht_sel d (it_table iter))) then
             if dictIsRehashing d \<and> it_table iter = 0 then
               map_option (\<lambda>c. (False, d, iter\<lparr>it_table := 1, it_index := 0, it_entry := c\<rparr>)) (ht_bucket (d_ht1 d) 0)
             else Some (True, d, iter)
           else map_option (\<lambda>c. (False, d, iter\<lparr>it_entry := c\<rparr>))
                  (ht_bucket (ht_sel d (it_table iter)) (nat (it_index iter)))
      else Some (False, d, iter\<lparr>it_entry := it_nextEntry iter\<rparr>))"

partial_function (option) dictNext ::
  "64 word \<Rightarrow> 64 word \<Rightarrow> ('k, 'v) dict \<Rightarrow> ('k, 'v) dictIterator \<Rightarrow>
    (('k \<times> 'v) option \<times> ('k, 'v) dictIterator \<times> ('k, 'v) dict) option" where
  [code]: "dictNext addr0 addr1 d iter = do {
     (stop, d, iter) \<leftarrow> next_select addr0 addr1 d iter;
     if stop then Some (None, iter, d)
     else if it_entry iter \<noteq> [] then
       Some (Some (hd (it_entry iter)), iter\<lparr>it_nextEntry := tl (it_entry iter)\<rparr>, d)
     else dictNext addr0 addr1 d iter
   }"

definition dictReleaseIterator ::
  "64 word \<Rightarrow> 64 word \<Rightarrow> ('k, 'v) dict \<Rightarrow> ('k, 'v) dictIterator \<Rightarrow> ('k, 'v) dict option" where
  "dictReleaseIterator addr0 addr1 d iter =
     (if \<not> (it_index iter = - 1 \<and> it_table iter = 0) then
        if it_safe iter then Some (d\<lparr>pauserehash := pauserehash d - 1\<rparr>)
        else if it_fingerprint iter = dictFingerprint addr0 addr1 d then Some d
        else None
      else Some d)"

text \<open>The entries an iterator has still to return: the rest of its chain, then the buckets left.\<close>

definition bucket_rest :: "('k, 'v) dict \<Rightarrow> ('k, 'v) dictIterator \<Rightarrow> ('k, 'v) chain" where
  "bucket_rest d it = concat (drop (nat (it_index it + 1)) (ht_table (ht_sel d (it_table it)))) @
     (if it_table it = 0 \<and> dictIsRehashing d then ht_entries (d_ht1 d) else [])"

definition iter_rest :: "('k, 'v) dict \<Rightarrow> ('k, 'v) dictIterator \<Rightarrow> ('k, 'v) chain" where
  "iter_rest d it = (if it_entry it = [] then [] else it_nextEntry it) @ bucket_rest d it"

definition buckets_left :: "('k, 'v) dict \<Rightarrow> ('k, 'v) dictIterator \<Rightarrow> nat" where
  "buckets_left d it = (length (ht_table (ht_sel d (it_table it))) - nat (it_index it + 1)) +
     (if it_table it = 0 \<and> dictIsRehashing d then length (ht_table (d_ht1 d)) else 0)"

definition iter_started :: "('k, 'v) dictIterator \<Rightarrow> bool" where
  "iter_started it \<longleftrightarrow> \<not> (it_index it = - 1 \<and> it_table it = 0)"

definition iter_ok :: "('k, 'v) dictIterator \<Rightarrow> bool" where
  "iter_ok it \<longleftrightarrow> - 1 \<le> it_index it \<and> it_table it \<le> 1 \<and> (it_entry it = [] \<or> iter_started it)"

text \<open>The effect of one call on the dictionary and on the fingerprint of the iterator.\<close>

definition iter_pause :: "('k, 'v) dict \<Rightarrow> ('k, 'v) dictIterator \<Rightarrow> ('k, 'v) dict" where
  "iter_pause d it = (if \<not> iter_started it \<and> it_safe it then d\<lparr>pauserehash := pauserehash d + 1\<rparr> else d)"

definition iter_print :: "64 word \<Rightarrow> 64 word \<Rightarrow> ('k, 'v) dict \<Rightarrow> ('k, 'v) dictIterator \<Rightarrow> 64 word" where
  "iter_print addr0 addr1 d it = (if \<not> iter_started it \<and> \<not> it_safe it
     then dictFingerprint addr0 addr1 d else it_fingerprint it)"

lemma drop_nth_concat: "i < length xs \<Longrightarrow> concat (drop i xs) = xs ! i @ concat (drop (Suc i) xs)"
  by (simp add: Cons_nth_drop_Suc [symmetric])

lemma pause_same [simp]:
  "ht_sel (d\<lparr>pauserehash := p\<rparr>) t = ht_sel d t" "dictIsRehashing (d\<lparr>pauserehash := p\<rparr>) = dictIsRehashing d"
  "bucket_rest (d\<lparr>pauserehash := p\<rparr>) it = bucket_rest d it" "buckets_left (d\<lparr>pauserehash := p\<rparr>) it = buckets_left d it"
  "iter_rest (d\<lparr>pauserehash := p\<rparr>) it = iter_rest d it" "dict_inv T (d\<lparr>pauserehash := p\<rparr>) = dict_inv T d"
  "dictFingerprint addr0 addr1 (d\<lparr>pauserehash := p\<rparr>) = dictFingerprint addr0 addr1 d"
  by (simp_all add: ht_sel_def dictIsRehashing_def bucket_rest_def buckets_left_def iter_rest_def dict_inv_def
      dict_entries_def rehash_state_def dictFingerprint_def)

lemma iter_pause_same [simp]:
  "ht_sel (iter_pause d it') t = ht_sel d t" "dictIsRehashing (iter_pause d it') = dictIsRehashing d"
  "bucket_rest (iter_pause d it') it = bucket_rest d it" "buckets_left (iter_pause d it') it = buckets_left d it"
  "iter_rest (iter_pause d it') it = iter_rest d it" "dict_inv T (iter_pause d it') = dict_inv T d"
  "dictFingerprint addr0 addr1 (iter_pause d it') = dictFingerprint addr0 addr1 d"
  by (simp_all add: iter_pause_def)

definition iter_step :: "64 word \<Rightarrow> 64 word \<Rightarrow> ('k, 'v) dict \<Rightarrow> ('k, 'v) dictIterator \<Rightarrow> ('k, 'v) dictIterator" where
  "iter_step addr0 addr1 d it =
     it\<lparr>it_fingerprint := iter_print addr0 addr1 d it, it_index := it_index it + 1\<rparr>"

lemma iter_step_sel [simp]:
  "it_index (iter_step addr0 addr1 d it) = it_index it + 1" "it_table (iter_step addr0 addr1 d it) = it_table it"
  "it_safe (iter_step addr0 addr1 d it) = it_safe it" "it_entry (iter_step addr0 addr1 d it) = it_entry it"
  "it_fingerprint (iter_step addr0 addr1 d it) = iter_print addr0 addr1 d it"
  by (simp_all add: iter_step_def)

lemma next_select_open:
  assumes "it_entry it = []"
  shows "next_select addr0 addr1 d it =
    (if it_index it + 1 \<ge> int (ht_size (ht_sel d (it_table it))) then
       if dictIsRehashing d \<and> it_table it = 0
       then map_option (\<lambda>c. (False, iter_pause d it, (iter_step addr0 addr1 d it)\<lparr>it_table := 1, it_index := 0, it_entry := c\<rparr>))
              (ht_bucket (d_ht1 d) 0)
       else Some (True, iter_pause d it, iter_step addr0 addr1 d it)
     else map_option (\<lambda>c. (False, iter_pause d it, (iter_step addr0 addr1 d it)\<lparr>it_entry := c\<rparr>))
            (ht_bucket (ht_sel d (it_table it)) (nat (it_index it + 1))))"
proof (cases "iter_started it")
  case True
  then have st: "(it_index it = - 1 \<and> it_table it = 0) = False" by (simp add: iter_started_def)
  show ?thesis
    unfolding next_select_def iter_pause_def iter_print_def st iter_step_def if_P [OF assms] using True
    by (simp add: Let_def)
next
  case False
  then show ?thesis using assms
    by (cases "it_safe it") (simp_all add: Let_def next_select_def iter_pause_def iter_print_def iter_started_def iter_step_def)
qed

lemma next_select_bucket:
  assumes "dict_inv T d" and "iter_ok it" and "it_entry it = []"
  shows "\<exists>stop it'. next_select addr0 addr1 d it = Some (stop, iter_pause d it, it') \<and> iter_ok it' \<and> iter_started it' \<and>
    it_safe it' = it_safe it \<and> it_fingerprint it' = iter_print addr0 addr1 d it \<and>
    (if stop then bucket_rest d it = [] \<and> bucket_rest d it' = [] \<and> it_entry it' = []
     else bucket_rest d it = it_entry it' @ bucket_rest d it' \<and> buckets_left d it' < buckets_left d it)"
proof -
  have len: "length (ht_table (ht_sel d t)) = ht_size (ht_sel d t)" for t
    using assms(1) by (simp add: dict_inv_def ht_ok_def ht_sel_def)
  have one: "dictIsRehashing d \<Longrightarrow> 0 < length (ht_table (d_ht1 d))"
    using assms(1) len [of 1] by (simp add: dictIsRehashing_iff rehash_state_def ht_sel_def)
  define i where "i = nat (it_index it + 1)"
  have i: "it_index it + 1 = int i" "nat (int i + 1) = Suc i" using assms(2) by (auto simp: i_def iter_ok_def)
  have t: "it_table it \<le> 1" using assms(2) by (simp add: iter_ok_def)
  note sel = next_select_open [OF assms(3), of addr0 addr1 d, unfolded i(1) nat_int of_nat_le_iff]
  consider (stop) "ht_size (ht_sel d (it_table it)) \<le> i" "\<not> (dictIsRehashing d \<and> it_table it = 0)"
    | (switch) "ht_size (ht_sel d (it_table it)) \<le> i" "dictIsRehashing d" "it_table it = 0"
    | (bucket) "i < ht_size (ht_sel d (it_table it))" by linarith
  then show ?thesis
  proof cases
    case stop
    then have "bucket_rest d it = []" "bucket_rest d (iter_step addr0 addr1 d it) = []"
      using len [of "it_table it"] by (auto simp: bucket_rest_def i)
    moreover have "iter_ok (iter_step addr0 addr1 d it)" "iter_started (iter_step addr0 addr1 d it)"
      using t i by (simp_all add: iter_ok_def iter_started_def)
    ultimately show ?thesis using stop sel assms(3) by (intro exI [of _ True] exI [of _ "iter_step addr0 addr1 d it"]) simp
  next
    case switch
    let ?it = "(iter_step addr0 addr1 d it)\<lparr>it_table := 1, it_index := 0, it_entry := ht_table (d_ht1 d) ! 0\<rparr>"
    have b: "ht_bucket (d_ht1 d) 0 = Some (ht_table (d_ht1 d) ! 0)" using one switch by (simp add: ht_bucket_def)
    have "ht_entries (d_ht1 d) = ht_table (d_ht1 d) ! 0 @ concat (drop (Suc 0) (ht_table (d_ht1 d)))"
      using drop_nth_concat [of 0 "ht_table (d_ht1 d)"] one switch by (simp add: ht_entries_def)
    then have "bucket_rest d it = it_entry ?it @ bucket_rest d ?it" "buckets_left d ?it < buckets_left d it"
      using switch len [of 0] one by (simp_all add: bucket_rest_def buckets_left_def ht_sel_def i)
    moreover have "iter_ok ?it" "iter_started ?it" by (simp_all add: iter_ok_def iter_started_def)
    ultimately show ?thesis using switch sel b by (intro exI [of _ False] exI [of _ ?it]) simp
  next
    case bucket
    let ?t = "ht_table (ht_sel d (it_table it))"
    let ?it = "(iter_step addr0 addr1 d it)\<lparr>it_entry := ?t ! i\<rparr>"
    have il: "i < length ?t" using bucket len by simp
    then have b: "ht_bucket (ht_sel d (it_table it)) i = Some (?t ! i)" by (simp add: ht_bucket_def)
    have "bucket_rest d it = it_entry ?it @ bucket_rest d ?it" "buckets_left d ?it < buckets_left d it"
      using drop_nth_concat [OF il] il by (simp_all add: bucket_rest_def buckets_left_def i)
    moreover have "iter_ok ?it" "iter_started ?it" using t by (simp_all add: iter_ok_def iter_started_def i)
    ultimately show ?thesis using bucket sel b by (intro exI [of _ False] exI [of _ ?it]) simp
  qed
qed

text \<open>Calls return the entries left, in order, then null; the loop always ends.\<close>

lemma dictNext_step:
  assumes "dict_inv T d" and "iter_ok it"
  shows "\<exists>it'. dictNext addr0 addr1 d it = Some (if iter_rest d it = [] then None else Some (hd (iter_rest d it)), it', iter_pause d it) \<and>
    iter_ok it' \<and> iter_started it' \<and> it_safe it' = it_safe it \<and> it_fingerprint it' = iter_print addr0 addr1 d it \<and>
    iter_rest d it' = tl (iter_rest d it)"
  using assms
proof (induction "2 * buckets_left d it + (if it_entry it = [] then 0 else 1)" arbitrary: d it rule: less_induct)
  case less
  obtain stop it1 where sel: "next_select addr0 addr1 d it = Some (stop, iter_pause d it, it1)"
    and ok: "iter_ok it1" "iter_started it1" "it_safe it1 = it_safe it" "it_fingerprint it1 = iter_print addr0 addr1 d it"
    and rest: "if stop then iter_rest d it = [] \<and> bucket_rest d it1 = [] \<and> it_entry it1 = []
     else iter_rest d it = it_entry it1 @ bucket_rest d it1"
    and dec: "\<not> stop \<and> it_entry it1 = [] \<Longrightarrow>
      2 * buckets_left d it1 < 2 * buckets_left d it + (if it_entry it = [] then 0 else 1)"
  proof (cases "it_entry it = []")
    case True
    then show ?thesis
      using next_select_bucket [OF less.prems True, of addr0 addr1] that by (auto simp: iter_rest_def)
  next
    case False
    let ?it = "it\<lparr>it_entry := it_nextEntry it\<rparr>"
    have st: "iter_started it" using less.prems(2) False by (simp add: iter_ok_def)
    then have "next_select addr0 addr1 d it = Some (False, iter_pause d it, ?it)"
      using False by (simp add: next_select_def iter_pause_def)
    moreover have "iter_ok ?it" "iter_started ?it" using less.prems(2) st by (simp_all add: iter_ok_def iter_started_def)
    moreover have "bucket_rest d ?it = bucket_rest d it" "buckets_left d ?it = buckets_left d it"
      by (simp_all add: bucket_rest_def buckets_left_def)
    ultimately show ?thesis using that [of False ?it] False st by (simp add: iter_rest_def iter_print_def buckets_left_def)
  qed
  consider (stop) stop | (found) "\<not> stop" "it_entry it1 \<noteq> []" | (again) "\<not> stop" "it_entry it1 = []" by blast
  then show ?case
  proof cases
    case stop
    with sel have "dictNext addr0 addr1 d it = Some (None, it1, iter_pause d it)" by (subst dictNext.simps) simp
    with stop rest ok show ?thesis by (intro exI [of _ it1]) (simp add: iter_rest_def)
  next
    case found
    let ?it = "it1\<lparr>it_nextEntry := tl (it_entry it1)\<rparr>"
    from found sel have "dictNext addr0 addr1 d it = Some (Some (hd (it_entry it1)), ?it, iter_pause d it)"
      by (subst dictNext.simps) simp
    moreover have "bucket_rest d ?it = bucket_rest d it1" "iter_ok ?it" "iter_started ?it"
      using ok by (simp_all add: bucket_rest_def iter_ok_def iter_started_def)
    ultimately show ?thesis using found rest ok by (intro exI [of _ ?it]) (simp add: iter_rest_def)
  next
    case again
    then have r: "iter_rest d it = iter_rest d it1" using rest by (simp add: iter_rest_def)
    have "iter_pause (iter_pause d it) it1 = iter_pause d it" "iter_print addr0 addr1 (iter_pause d it) it1 = it_fingerprint it1"
      using ok(2) by (simp_all add: iter_pause_def iter_print_def)
    with less.hyps [of "iter_pause d it" it1] dec again less.prems(1) ok r
    obtain it' where "dictNext addr0 addr1 (iter_pause d it) it1 =
        Some (if iter_rest d it = [] then None else Some (hd (iter_rest d it)), it', iter_pause d it)"
      "iter_ok it'" "iter_started it'" "it_safe it' = it_safe it" "it_fingerprint it' = iter_print addr0 addr1 d it"
      "iter_rest d it' = tl (iter_rest d it)" by auto
    moreover have "dictNext addr0 addr1 d it = dictNext addr0 addr1 (iter_pause d it) it1"
      using sel again by (subst dictNext.simps) simp
    ultimately show ?thesis by (intro exI [of _ it']) simp
  qed
qed

text \<open>A complete iteration: the given number of calls, and what they return.\<close>

primrec dict_iterate ::
  "64 word \<Rightarrow> 64 word \<Rightarrow> nat \<Rightarrow> ('k, 'v) dict \<Rightarrow> ('k, 'v) dictIterator \<Rightarrow>
    (('k \<times> 'v) option list \<times> ('k, 'v) dictIterator \<times> ('k, 'v) dict) option" where
  "dict_iterate addr0 addr1 0 d it = Some ([], it, d)"
| "dict_iterate addr0 addr1 (Suc n) d it = do {
     (e, it, d) \<leftarrow> dictNext addr0 addr1 d it;
     (es, it, d) \<leftarrow> dict_iterate addr0 addr1 n d it;
     Some (e # es, it, d)
   }"

lemma dict_iterate_rest:
  assumes "dict_inv T d" and "iter_ok it" and "length (iter_rest d it) = n"
  shows "\<exists>it'. dict_iterate addr0 addr1 (Suc n) d it = Some (map Some (iter_rest d it) @ [None], it', iter_pause d it) \<and>
    iter_ok it' \<and> iter_started it' \<and> it_safe it' = it_safe it \<and> it_fingerprint it' = iter_print addr0 addr1 d it"
  using assms
proof (induction n arbitrary: d it)
  case 0
  then show ?case using dictNext_step [OF 0(1,2), of addr0 addr1] by auto
next
  case (Suc n)
  have ne: "iter_rest d it \<noteq> []" using Suc.prems(3) by auto
  obtain it1 where n1: "dictNext addr0 addr1 d it = Some (Some (hd (iter_rest d it)), it1, iter_pause d it)"
    and ok: "iter_ok it1" "iter_started it1" "it_safe it1 = it_safe it" "it_fingerprint it1 = iter_print addr0 addr1 d it"
      "iter_rest d it1 = tl (iter_rest d it)"
    using dictNext_step [OF Suc.prems(1,2), of addr0 addr1] ne unfolding if_not_P [OF ne] by (elim exE conjE)
  have same: "iter_pause (iter_pause d it) it1 = iter_pause d it"
    "iter_print addr0 addr1 (iter_pause d it) it1 = it_fingerprint it1"
    using ok(2) by (simp_all add: iter_pause_def iter_print_def)
  obtain it' where it': "dict_iterate addr0 addr1 (Suc n) (iter_pause d it) it1 =
      Some (map Some (tl (iter_rest d it)) @ [None], it', iter_pause d it)"
    "iter_ok it'" "iter_started it'" "it_safe it' = it_safe it" "it_fingerprint it' = iter_print addr0 addr1 d it"
    using Suc.IH [of "iter_pause d it" it1] Suc.prems(1,3) ok same by auto
  have "map Some (iter_rest d it) = Some (hd (iter_rest d it)) # map Some (tl (iter_rest d it))"
    using Suc.prems(3) by (cases "iter_rest d it") auto
  then show ?case using it' n1 by (simp del: dict_iterate.simps(2) add: dict_iterate.simps(2) [of _ _ "Suc n"])
qed

subsection \<open>The end of rehashing\<close>

text \<open>
  \<^verbatim>\<open>dictRehashMilliseconds\<close>: the argument \<open>clock\<close> gives the successive readings of
  \<^verbatim>\<open>timeInMilliseconds\<close>, the first of which is \<open>start\<close>.
\<close>

partial_function (option) rehash_ms_loop ::
  "('k, 'v) dictType \<Rightarrow> (nat \<Rightarrow> int) \<Rightarrow> int \<Rightarrow> nat \<Rightarrow> int \<Rightarrow> ('k, 'v) dict \<Rightarrow> (('k, 'v) dict \<times> int) option" where
  [code]: "rehash_ms_loop T clock ms i rehashes d = do {
     (d, more) \<leftarrow> dictRehash T d 100;
     if more then
       (if clock (Suc i) - clock 0 > ms then Some (d, rehashes + 100)
        else rehash_ms_loop T clock ms (Suc i) (rehashes + 100) d)
     else Some (d, rehashes)
   }"

definition dictRehashMilliseconds ::
  "('k, 'v) dictType \<Rightarrow> (nat \<Rightarrow> int) \<Rightarrow> ('k, 'v) dict \<Rightarrow> int \<Rightarrow> (('k, 'v) dict \<times> int) option" where
  "dictRehashMilliseconds T clock d ms =
     (if pauserehash d > 0 then Some (d, 0) else rehash_ms_loop T clock ms 0 0 d)"

text \<open>The buckets of the old table that are still to be visited.\<close>

definition rehash_todo :: "('k, 'v) dict \<Rightarrow> nat" where
  "rehash_todo d = (if dictIsRehashing d then Suc (nat (int (ht_size (d_ht0 d)) - rehashidx d)) else 0)"

lemma dictRehash_progress:
  assumes "dict_inv T d" and "0 < n"
  obtains d' more where "dictRehash T d n = Some (d', more)" and "rehash_rel T d d'"
    and "more \<Longrightarrow> rehash_todo d' < rehash_todo d" and "\<not> more \<Longrightarrow> rehash_todo d' = 0"
proof -
  obtain d' more where d': "dictRehash T d n = Some (d', more)" "rehash_rel T d d'" "\<not> more \<longrightarrow> rehashidx d' = - 1"
    "more \<longrightarrow> rehashidx d < rehashidx d' \<and> ht_size (d_ht0 d') = ht_size (d_ht0 d) \<and>
      rehashidx d' \<le> max (rehashidx d) (int (ht_size (d_ht0 d)))"
    using dictRehash_correct [OF assms(1), of n] assms(2) by auto
  have "rehash_todo d' < rehash_todo d" if more
    using d'(1,4) that by (cases "dictIsRehashing d") (auto simp: dictRehash_def rehash_todo_def)
  with d' show thesis using that by (simp add: rehash_todo_def dictIsRehashing_def)
qed

lemma rehash_ms_loop_total:
  assumes "dict_inv T d"
  shows "\<exists>d' r. rehash_ms_loop T clock ms i rehashes d = Some (d', r) \<and> rehash_rel T d d' \<and>
    ((\<forall>j. clock j - clock 0 \<le> ms) \<longrightarrow> \<not> dictIsRehashing d')"
  using assms
proof (induction "rehash_todo d" arbitrary: d i rehashes rule: less_induct)
  case less
  obtain d1 more where d1: "dictRehash T d 100 = Some (d1, more)" "rehash_rel T d d1"
    and todo: "more \<Longrightarrow> rehash_todo d1 < rehash_todo d" "\<not> more \<Longrightarrow> rehash_todo d1 = 0"
    using dictRehash_progress [OF less.prems, of 100] by auto
  have inv: "dict_inv T d1" using d1(2) by (simp add: rehash_rel_def)
  consider (finished) "\<not> more" | (late) "more" "clock (Suc i) - clock 0 > ms" | (again) "more" "\<not> clock (Suc i) - clock 0 > ms"
    by blast
  then show ?case
  proof cases
    case finished
    then have "rehash_ms_loop T clock ms i rehashes d = Some (d1, rehashes)" using d1(1) by (subst rehash_ms_loop.simps) simp
    then show ?thesis using d1(2) todo(2) finished by (auto simp: rehash_todo_def split: if_splits)
  next
    case late
    then have "rehash_ms_loop T clock ms i rehashes d = Some (d1, rehashes + 100)"
      using d1(1) by (subst rehash_ms_loop.simps) simp
    moreover have "\<not> (\<forall>j. clock j - clock 0 \<le> ms)" using late(2) by (auto simp: not_le intro: exI [of _ "Suc i"])
    ultimately show ?thesis using d1(2) by auto
  next
    case again
    then have "rehash_ms_loop T clock ms i rehashes d = rehash_ms_loop T clock ms (Suc i) (rehashes + 100) d1"
      using d1(1) by (subst rehash_ms_loop.simps) simp
    then show ?thesis using less.hyps [OF todo(1) inv] again rehash_rel_trans [OF d1(2)] by fastforce
  qed
qed

text \<open>The single steps that ordinary commands perform finish the rehashing as well.\<close>

primrec rehash_steps :: "('k, 'v) dictType \<Rightarrow> nat \<Rightarrow> ('k, 'v) dict \<Rightarrow> ('k, 'v) dict option" where
  "rehash_steps T 0 d = Some d"
| "rehash_steps T (Suc n) d = Option.bind (priv_dictRehashStep T d) (rehash_steps T n)"

lemma rehash_steps_finish:
  assumes "dict_inv T d" and "pauserehash d = 0" and "rehash_todo d \<le> n"
  shows "\<exists>d'. rehash_steps T n d = Some d' \<and> rehash_rel T d d' \<and> \<not> dictIsRehashing d'"
  using assms
proof (induction n arbitrary: d)
  case 0
  then show ?case by (auto simp: rehash_todo_def rehash_rel_def split: if_splits)
next
  case (Suc n)
  obtain d1 more where d1: "dictRehash T d 1 = Some (d1, more)" "rehash_rel T d d1"
    and todo: "more \<Longrightarrow> rehash_todo d1 < rehash_todo d" "\<not> more \<Longrightarrow> rehash_todo d1 = 0"
    using dictRehash_progress [OF Suc.prems(1), of 1] by auto
  have "rehash_todo d1 \<le> n" using todo Suc.prems(3) by (cases more) auto
  moreover have "dict_inv T d1" "pauserehash d1 = 0" using d1(2) Suc.prems(2) by (simp_all add: rehash_rel_def)
  ultimately obtain d' where "rehash_steps T n d1 = Some d'" "rehash_rel T d1 d'" "\<not> dictIsRehashing d'"
    using Suc.IH by blast
  then show ?case using d1 Suc.prems(2) rehash_rel_trans [OF d1(2)] by (auto simp: priv_dictRehashStep_def)
qed

subsection \<open>The properties of the dictionary\<close>

lemma nextPower_loop_lt: "0 < i \<Longrightarrow> i < 2 * max i sz \<Longrightarrow> nextPower_loop i sz < 2 * max i sz"
proof (induction i sz rule: nextPower_loop.induct)
  case (1 i sz)
  show ?case
  proof (cases "i \<ge> sz")
    case True
    then show ?thesis using 1(2) by (subst nextPower_loop.simps) simp
  next
    case False
    then have "nextPower_loop i sz = nextPower_loop (i * 2) sz" using 1(2) by (subst nextPower_loop.simps) simp
    moreover have "nextPower_loop (i * 2) sz < 2 * sz" if "i * 2 \<ge> sz"
      using that False by (subst nextPower_loop.simps) simp
    ultimately show ?thesis using 1(1) 1(2) False by (cases "i * 2 \<ge> sz") (auto simp: max_def)
  qed
qed

lemma nextPower_loop_mono: "i \<le> nextPower_loop i sz"
proof (induction i sz rule: nextPower_loop.induct)
  case (1 i sz)
  then show ?case by (cases "i \<ge> sz \<or> i = 0") (auto simp: nextPower_loop.simps [of i sz])
qed

definition nat_dictType :: "(nat, nat) dictType" where
  "nat_dictType = \<lparr>hashFunction = (\<lambda>k. k mod 2 ^ 64), keyDup = None, valDup = None, keyCompare = None, expandAllowed = None\<rparr>"


text \<open>A dictionary in the middle of rehashing, with its rehashing index at the first bucket.\<close>

definition rehashing_dict :: "(nat, nat) dict" where
  "rehashing_dict =
     \<lparr>d_ht0 = \<lparr>ht_table = [[(4, 40), (8, 80)], [(1, 10)], [], []], ht_size = 4, ht_sizemask = 3, ht_used = 3\<rparr>,
      d_ht1 = \<lparr>ht_table = [[], [], [(2, 20)], [], [], [], [], []], ht_size = 8, ht_sizemask = 7, ht_used = 1\<rparr>,
      rehashidx = 0, pauserehash = 0\<rparr>"

lemma rehashing_dict_inv: "dict_inv nat_dictType rehashing_dict"
proof -
  have "ht_ok nat_dictType (d_ht0 rehashing_dict)" "ht_ok nat_dictType (d_ht1 rehashing_dict)"
    by (auto simp: ht_ok_def rehashing_dict_def nat_dictType_def ht_entries_def all_less_numeral All_less_Suc
        intro: exI [of _ 2] exI [of _ 3])
  moreover have "bag_unique nat_dictType (dict_entries rehashing_dict)"
    by (simp add: bag_unique_def rehashing_dict_def dict_entries_def ht_entries_def nat_dictType_def key_eq_def dictCompareKeys_def)
  moreover have "rehash_state rehashing_dict" by (simp add: rehash_state_def rehashing_dict_def)
  ultimately show ?thesis by (simp add: dict_inv_def)
qed



text \<open>
  C31. A rehashing step with any budget keeps the invariant, the entries and the number of elements;
  it reports that it is done only when a single table is left, and otherwise has advanced the index
  of the next bucket to migrate, never past the end of the old table.
\<close>

theorem dictRehash_keeps:
  assumes "dict_inv T d"
  shows "\<exists>d' more. dictRehash T d n = Some (d', more) \<and> dict_inv T d' \<and> dict_map T d' = dict_map T d \<and>
    dictSize d' = dictSize d \<and> (\<not> more \<longrightarrow> \<not> dictIsRehashing d' \<and> ht_used (d_ht1 d') = 0) \<and>
    (more \<and> 0 < n \<longrightarrow> rehashidx d < rehashidx d' \<and> rehashidx d' \<le> max (rehashidx d) (int (ht_size (d_ht0 d))))"
proof -
  obtain d' more where d': "dictRehash T d n = Some (d', more)" "rehash_rel T d d'" "\<not> more \<longrightarrow> rehashidx d' = - 1"
    "more \<and> 0 < n \<longrightarrow> rehashidx d < rehashidx d' \<and> ht_size (d_ht0 d') = ht_size (d_ht0 d) \<and>
      rehashidx d' \<le> max (rehashidx d) (int (ht_size (d_ht0 d)))"
    using dictRehash_correct [OF assms, of n] by (elim exE conjE)
  have inv: "dict_inv T d'" using d'(2) by (simp add: rehash_rel_def)
  have "\<not> more \<longrightarrow> \<not> dictIsRehashing d' \<and> ht_used (d_ht1 d') = 0"
    using d'(3) inv by (auto simp: dict_inv_def dictIsRehashing_def rehash_state_def priv_dictReset_def)
  then show ?thesis
    using d' inv rehash_rel_map [OF assms d'(2)] rehash_rel_size [OF assms d'(2)]
    by (intro exI [of _ d'] exI [of _ more]) simp
qed

theorem dictRehash_keeps_witness:
  "\<exists>d' more. dictRehash nat_dictType rehashing_dict 1 = Some (d', more) \<and> dict_inv nat_dictType d' \<and>
     dict_map nat_dictType d' = dict_map nat_dictType rehashing_dict \<and> dictSize d' = 4"
proof -
  have "dictSize rehashing_dict = 4" by (simp add: dictSize_def rehashing_dict_def)
  then show ?thesis using dictRehash_keeps [OF rehashing_dict_inv, of 1] by auto
qed

text \<open>
  C11. Rehashing comes to an end: when it is not paused, the single steps performed by at most one
  more command than the old table has buckets leave one table, with the same contents.
\<close>

theorem rehashing_finishes:
  assumes "dict_inv T d" and "pauserehash d = 0" and "ht_size (d_ht0 d) < n"
  shows "\<exists>d'. rehash_steps T n d = Some d' \<and> \<not> dictIsRehashing d' \<and> dict_inv T d' \<and> dict_map T d' = dict_map T d"
proof -
  have "rehash_todo d \<le> n" using assms(1,3) by (auto simp: rehash_todo_def dictIsRehashing_iff rehash_state_def)
  then obtain d' where d': "rehash_steps T n d = Some d'" "rehash_rel T d d'" "\<not> dictIsRehashing d'"
    using rehash_steps_finish [OF assms(1,2)] by blast
  then show ?thesis using rehash_rel_map [OF assms(1) d'(2)] by (auto simp: rehash_rel_def)
qed

theorem rehashing_finishes_witness:
  "\<exists>d'. rehash_steps nat_dictType 5 rehashing_dict = Some d' \<and> \<not> dictIsRehashing d' \<and>
     dict_map nat_dictType d' = dict_map nat_dictType rehashing_dict"
  using rehashing_finishes [OF rehashing_dict_inv, of 5] by (auto simp: rehashing_dict_def)

text \<open>
  C32. The timed rehashing of the cron job always returns, whatever the clock does, with the same
  contents; if the time allowed is never exceeded, rehashing is complete.
\<close>

theorem dictRehashMilliseconds_returns:
  assumes "dict_inv T d"
  shows "\<exists>d' r. dictRehashMilliseconds T clock d ms = Some (d', r) \<and> dict_inv T d' \<and> dict_map T d' = dict_map T d \<and>
    (pauserehash d \<le> 0 \<and> (\<forall>j. clock j - clock 0 \<le> ms) \<longrightarrow> \<not> dictIsRehashing d')"
proof (cases "pauserehash d > 0")
  case True
  then show ?thesis using assms by (simp add: dictRehashMilliseconds_def)
next
  case False
  obtain d' r where d': "rehash_ms_loop T clock ms 0 0 d = Some (d', r)" "rehash_rel T d d'"
    "(\<forall>j. clock j - clock 0 \<le> ms) \<longrightarrow> \<not> dictIsRehashing d'"
    using rehash_ms_loop_total [OF assms, of clock ms 0 0] by (elim exE conjE)
  have "dict_inv T d'" using d'(2) by (simp add: rehash_rel_def)
  then show ?thesis using d' False rehash_rel_map [OF assms d'(2)]
    by (intro exI [of _ d'] exI [of _ r]) (simp add: dictRehashMilliseconds_def)
qed

theorem dictRehashMilliseconds_returns_witness:
  "\<exists>d' r. dictRehashMilliseconds nat_dictType (\<lambda>j. 7) rehashing_dict 1 = Some (d', r) \<and> \<not> dictIsRehashing d'"
  using dictRehashMilliseconds_returns [OF rehashing_dict_inv, of "\<lambda>j. 7" 1] by (auto simp: rehashing_dict_def)

text \<open>
  C20. An iterator, safe or not, returns every entry exactly once and then null, also in the middle
  of rehashing; releasing it restores the dictionary and finds the fingerprint unchanged.
\<close>

theorem dictIterator_visits_all:
  assumes "dict_inv T d" and "it = (if safe then dictGetSafeIterator else dictGetIterator)"
  shows "\<exists>it' d'. dict_iterate addr0 addr1 (Suc (dictSize d)) d it = Some (map Some (dict_entries d) @ [None], it', d') \<and>
    dictReleaseIterator addr0 addr1 d' it' = Some d \<and> (safe \<longrightarrow> pauserehash d' = pauserehash d + 1)"
proof -
  have "\<not> dictIsRehashing d \<Longrightarrow> d_ht1 d = priv_dictReset"
    using assms(1) by (auto simp: dict_inv_def dictIsRehashing_def rehash_state_def)
  then have rest: "iter_rest d it = dict_entries d"
    using assms(2) by (auto simp: iter_rest_def bucket_rest_def dict_entries_def dictGetSafeIterator_def
        dictGetIterator_def ht_sel_def ht_entries_def priv_dictReset_def)
  have ok: "iter_ok it" "\<not> iter_started it" "it_safe it = safe"
    using assms(2) by (auto simp: iter_ok_def iter_started_def dictGetSafeIterator_def dictGetIterator_def)
  obtain it' where it': "dict_iterate addr0 addr1 (Suc (dictSize d)) d it =
      Some (map Some (dict_entries d) @ [None], it', iter_pause d it)"
    "iter_started it'" "it_safe it' = safe" "it_fingerprint it' = iter_print addr0 addr1 d it"
    using dict_iterate_rest [OF assms(1) ok(1) refl, of addr0 addr1] dictSize_entries [OF assms(1)]
    unfolding rest ok(3) by auto
  have "dictReleaseIterator addr0 addr1 (iter_pause d it) it' = Some d"
    using it'(2-4) ok(2,3)
    by (cases safe) (simp_all add: dictReleaseIterator_def iter_started_def iter_pause_def iter_print_def)
  with it'(1) ok(2,3) show ?thesis by (auto simp: iter_pause_def)
qed

theorem dictIterator_visits_all_witness:
  "\<exists>it' d'. dict_iterate 64 128 5 rehashing_dict dictGetSafeIterator =
     Some ([Some (4, 40), Some (8, 80), Some (1, 10), Some (2, 20), None], it', d') \<and>
     dictReleaseIterator 64 128 d' it' = Some rehashing_dict \<and> pauserehash d' = 1"
  using dictIterator_visits_all [OF rehashing_dict_inv refl, of 64 128 True]
  by (simp add: rehashing_dict_def dictSize_def dict_entries_def ht_entries_def del: dict_iterate.simps)

text \<open>
  C33. The size of a table is the least power of two that is at least the size asked for and at
  least 4, and never exceeds \<^verbatim>\<open>LONG_MAX + 1\<close>: the doubling does not overflow.
\<close>

theorem dictNextPower_bounds:
  assumes "sz \<le> LONG_MAX + 1"
  shows "\<exists>m. priv_dictNextPower sz = 2 ^ m \<and> 2 \<le> m \<and> m \<le> 63 \<and> sz \<le> 2 ^ m \<and> (m = 2 \<or> 2 ^ (m - 1) < sz)"
proof -
  obtain m where m: "priv_dictNextPower sz = 2 ^ m" using priv_dictNextPower_correct(1) by blast
  have ge: "sz \<le> 2 ^ m" using priv_dictNextPower_correct(2) [OF assms] m by simp
  have lt: "(2::nat) ^ m < 2 * max 4 sz"
  proof (cases "sz \<ge> LONG_MAX")
    case True
    then show ?thesis using m by (simp add: priv_dictNextPower_def flip: m)
  next
    case False
    then show ?thesis using m nextPower_loop_lt [of 4 sz] by (simp add: priv_dictNextPower_def flip: m)
  qed
  have m2: "2 \<le> m"
  proof (rule ccontr)
    assume "\<not> 2 \<le> m"
    then have "m = 0 \<or> m = 1" by auto
    then have "priv_dictNextPower sz < 4" using m by auto
    moreover have "4 \<le> nextPower_loop 4 sz" using nextPower_loop_mono [of 4 sz] by simp
    ultimately show False by (auto simp: priv_dictNextPower_def split: if_splits)
  qed
  then have half: "(2::nat) ^ m = 2 * 2 ^ (m - 1)" by (cases m) auto
  have "m \<le> 63"
  proof (rule ccontr)
    assume "\<not> m \<le> 63"
    then have "(2::nat) ^ 64 \<le> 2 ^ m" by (intro power_increasing) auto
    then show False using lt assms by simp
  qed
  moreover have "m = 2 \<or> 2 ^ (m - 1) < sz"
  proof (cases "4 < sz")
    case True
    then show ?thesis using lt half by simp
  next
    case False
    then have "(2::nat) ^ m < 2 ^ 3" using lt by simp
    then have "m < 3" by (rule power_less_imp_less_exp [rotated]) simp
    then show ?thesis using m2 by simp
  qed
  ultimately show ?thesis using m m2 ge by blast
qed

theorem dictNextPower_bounds_witness: "\<exists>m. priv_dictNextPower 100 = 2 ^ m \<and> 2 ^ (m - 1) < (100 :: nat) \<and> 100 \<le> (2 :: nat) ^ m"
  using dictNextPower_bounds [of 100] by (auto simp: numeral_2_eq_2)

end
