(* ===== verification/Dict_Scan.thy ===== *)
theory Dict_Scan
  imports Dict_Map "HOL-Library.Word"
begin

text \<open>
  \<^verbatim>\<open>dictScan\<close> and \<^verbatim>\<open>rev\<close> of \<^verbatim>\<open>dict.c\<close>: the stateless cursor that
  counts on reversed bits, and its guarantee when the tables are resized between the calls.
\<close>

unbundle bit_operations_syntax

function rev_loop :: "nat \<Rightarrow> 64 word \<Rightarrow> 64 word \<Rightarrow> 64 word" where
  "rev_loop s msk v =
     (let s = s div 2 in
      if s > 0 then
        let msk = msk XOR push_bit s msk;
            v = (drop_bit s v AND msk) OR (push_bit s v AND NOT msk)
        in rev_loop s msk v
      else v)"
  by pat_completeness auto
termination by (relation "measure (\<lambda>(s, _, _). s)") auto

declare rev_loop.simps [simp del]

definition rev_bits :: "64 word \<Rightarrow> 64 word" where
  "rev_bits v = rev_loop 64 (NOT 0) v"

definition scan_increment :: "64 word \<Rightarrow> 64 word \<Rightarrow> 64 word" where
  "scan_increment m v = rev_bits (rev_bits (v OR NOT m) + 1)"

text \<open>The loop over the expansions of the cursor in the larger table, which collects the buckets.\<close>

partial_function (option) scan_larger ::
  "('k, 'v) dictht \<Rightarrow> 64 word \<Rightarrow> 64 word \<Rightarrow> 64 word \<Rightarrow> (('k, 'v) chain list \<times> 64 word) option" where
  [code]: "scan_larger t1 m0 m1 v = do {
     c \<leftarrow> ht_bucket t1 (unat (v AND m1));
     let v = scan_increment m1 v;
     if v AND (m0 XOR m1) \<noteq> 0 then do {
       (cs, v) \<leftarrow> scan_larger t1 m0 m1 v;
       Some (c # cs, v)
     } else Some ([c], v)
   }"

text \<open>
  The result is the sequence of buckets handed to \<^verbatim>\<open>bucketfn\<close>, whose entries are those
  handed to \<^verbatim>\<open>fn\<close> in this order, the next cursor, and the dictionary.
\<close>

definition dictScan :: "('k, 'v) dict \<Rightarrow> 64 word \<Rightarrow> (('k, 'v) chain list \<times> 64 word \<times> ('k, 'v) dict) option" where
  "dictScan d v =
     (if dictSize d = 0 then Some ([], 0, d)
      else
        let d = d\<lparr>pauserehash := pauserehash d + 1\<rparr> in
        if \<not> dictIsRehashing d then
          let t0 = d_ht0 d; m0 = of_nat (ht_sizemask t0) in do {
            c \<leftarrow> ht_bucket t0 (unat (v AND m0));
            Some ([c], scan_increment m0 v, d\<lparr>pauserehash := pauserehash d - 1\<rparr>)
          }
        else
          let (t0, t1) = (if ht_size (d_ht0 d) > ht_size (d_ht1 d) then (d_ht1 d, d_ht0 d) else (d_ht0 d, d_ht1 d));
              m0 = of_nat (ht_sizemask t0); m1 = of_nat (ht_sizemask t1)
          in do {
            c \<leftarrow> ht_bucket t0 (unat (v AND m0));
            (cs, v) \<leftarrow> scan_larger t1 m0 m1 v;
            Some (c # cs, v, d\<lparr>pauserehash := pauserehash d - 1\<rparr>)
          })"

subsection \<open>Bit reversal\<close>

definition swap_blocks :: "nat \<Rightarrow> 64 word \<Rightarrow> 64 word \<Rightarrow> 64 word" where
  "swap_blocks s m v = (drop_bit s v AND m) OR (push_bit s v AND NOT m)"

lemma bit_swap_blocks:
  "n < 64 \<Longrightarrow> bit (swap_blocks s m v) n = (if bit m n then bit v (n + s) else s \<le> n \<and> bit v (n - s))"
  by (auto simp: swap_blocks_def bit_simps add.commute)

lemma rev_loop_step:
  "s div 2 > 0 \<Longrightarrow> rev_loop s m v = rev_loop (s div 2) (m XOR push_bit (s div 2) m) (swap_blocks (s div 2) (m XOR push_bit (s div 2) m) v)"
  by (subst rev_loop.simps) (simp add: Let_def swap_blocks_def)

lemma rev_masks:
  "NOT 0 XOR push_bit 32 (NOT 0) = (0x00000000FFFFFFFF :: 64 word)"
  "0x00000000FFFFFFFF XOR push_bit 16 0x00000000FFFFFFFF = (0x0000FFFF0000FFFF :: 64 word)"
  "0x0000FFFF0000FFFF XOR push_bit 8 0x0000FFFF0000FFFF = (0x00FF00FF00FF00FF :: 64 word)"
  "0x00FF00FF00FF00FF XOR push_bit 4 0x00FF00FF00FF00FF = (0x0F0F0F0F0F0F0F0F :: 64 word)"
  "0x0F0F0F0F0F0F0F0F XOR push_bit 2 0x0F0F0F0F0F0F0F0F = (0x3333333333333333 :: 64 word)"
  "0x3333333333333333 XOR push_bit 1 0x3333333333333333 = (0x5555555555555555 :: 64 word)"
  by code_simp+

lemma rev_bits_unfold:
  "rev_bits v =
     swap_blocks 1 0x5555555555555555 (swap_blocks 2 0x3333333333333333 (swap_blocks 4 0x0F0F0F0F0F0F0F0F
      (swap_blocks 8 0x00FF00FF00FF00FF (swap_blocks 16 0x0000FFFF0000FFFF (swap_blocks 32 0x00000000FFFFFFFF v)))))"
proof -
  have step: "rev_loop (2 * s) m v = rev_loop s m' (swap_blocks s m' v)" if "0 < s" "m XOR push_bit s m = m'" for s m m' v
    using that rev_loop_step [of "2 * s" m v] by simp
  have last: "rev_loop 1 m v = v" for m v by (subst rev_loop.simps) simp
  show ?thesis
    unfolding rev_bits_def
    using step [OF _ rev_masks(1)] step [OF _ rev_masks(2)] step [OF _ rev_masks(3)] step [OF _ rev_masks(4)]
      step [OF _ rev_masks(5)] step [OF _ rev_masks(6)] last by (simp only: mult_2 numeral_plus_numeral one_add_one zero_less_numeral zero_less_one add_num_simps)
qed

lemma rev_bits_64: "n < 64 \<Longrightarrow> bit (rev_bits v) n \<longleftrightarrow> bit v (63 - n)"
proof -
  have "\<forall>n<64. bit (rev_bits v) n \<longleftrightarrow> bit v (63 - n)"
    unfolding rev_bits_unfold by (simp add: all_less_numeral All_less_Suc bit_swap_blocks)
  then show "n < 64 \<Longrightarrow> ?thesis" by simp
qed

lemma rev_bits_rev_bits [simp]: "rev_bits (rev_bits v) = v"
  by (rule bit_word_eqI) (simp add: rev_bits_64)

subsection \<open>Positions of the cursor\<close>

text \<open>
  The position of a cursor is the reversed cursor as a number. The hashes of one bucket of a table
  with \<open>2 ^ k\<close> buckets have positions that form an interval of length \<open>2 ^ (64 - k)\<close>.
\<close>

definition pos :: "64 word \<Rightarrow> nat" where
  "pos v = unat (rev_bits v)"

lemma pos_0 [simp]: "pos 0 = 0" "pos v = 0 \<longleftrightarrow> v = 0"
proof -
  have "rev_bits 0 = 0" by (rule bit_word_eqI) (simp add: rev_bits_64)
  then show "pos 0 = 0" "pos v = 0 \<longleftrightarrow> v = 0"
    by (auto simp: pos_def unat_eq_0) (metis rev_bits_rev_bits)
qed

lemma pos_less: "pos v < 2 ^ 64"
  using unsigned_less [of "rev_bits v"] by (simp add: pos_def)

lemma rev_range:
  fixes a b :: nat
  assumes "b \<le> 64"
  shows "(\<forall>n. a \<le> n \<and> n < b \<longrightarrow> P (63 - n)) \<longleftrightarrow> (\<forall>n. 64 - b \<le> n \<and> n < 64 - a \<longrightarrow> P n)"
proof (intro iffI allI impI)
  fix n assume P: "\<forall>n. a \<le> n \<and> n < b \<longrightarrow> P (63 - n)" and n: "64 - b \<le> n \<and> n < 64 - a"
  have "P (63 - (63 - n))" by (rule P [rule_format]) (use n assms in auto)
  moreover have "63 - (63 - n) = n" using n by arith
  ultimately show "P n" by simp
next
  fix n assume P: "\<forall>n. 64 - b \<le> n \<and> n < 64 - a \<longrightarrow> P n" and n: "a \<le> n \<and> n < b"
  show "P (63 - n)" by (rule P [rule_format]) (use n assms in auto)
qed

lemma drop_bit_same:
  "drop_bit j (u :: 64 word) = drop_bit j v \<longleftrightarrow> (\<forall>n. j \<le> n \<and> n < 64 \<longrightarrow> bit u n = bit v n)"
proof (rule iffI)
  assume drop: "drop_bit j u = drop_bit j v"
  show "\<forall>n. j \<le> n \<and> n < 64 \<longrightarrow> bit u n = bit v n"
  proof (rule allI, rule impI)
    fix n assume n: "j \<le> n \<and> n < 64"
    from drop have "bit (drop_bit j u) (n - j) = bit (drop_bit j v) (n - j)" by simp
    with n show "bit u n = bit v n" by (simp add: bit_drop_bit_eq)
  qed
next
  assume same: "\<forall>n. j \<le> n \<and> n < 64 \<longrightarrow> bit u n = bit v n"
  have "bit u (j + n) = bit v (j + n)" for n
    using same bit_imp_le_length [of u "j + n"] bit_imp_le_length [of v "j + n"] by auto
  then show "drop_bit j u = drop_bit j v" by (intro bit_word_eqI) (simp add: bit_drop_bit_eq)
qed

lemma same_bucket:
  assumes "k \<le> 64"
  shows "unat u mod 2 ^ k = unat v mod 2 ^ k \<longleftrightarrow> pos u div 2 ^ (64 - k) = pos v div 2 ^ (64 - k)"
proof -
  have "unat u mod 2 ^ k = unat v mod 2 ^ k \<longleftrightarrow> take_bit k u = take_bit k v"
    by (simp add: word_unat_eq_iff unsigned_take_bit_eq flip: take_bit_eq_mod)
  also have "\<dots> \<longleftrightarrow> (\<forall>n < k. bit u n \<longleftrightarrow> bit v n)"
    using assms by (simp add: bit_eq_iff bit_simps) (meson less_le_trans)
  also have "\<dots> \<longleftrightarrow> (\<forall>n < k. bit (rev_bits u) (63 - n) \<longleftrightarrow> bit (rev_bits v) (63 - n))"
    using assms by (simp add: rev_bits_64)
  also have "\<dots> \<longleftrightarrow> (\<forall>n. 64 - k \<le> n \<and> n < 64 \<longrightarrow> bit (rev_bits u) n = bit (rev_bits v) n)"
    using rev_range [of k 0 "\<lambda>n. bit (rev_bits u) n = bit (rev_bits v) n"] assms by simp
  also have "\<dots> \<longleftrightarrow> drop_bit (64 - k) (rev_bits u) = drop_bit (64 - k) (rev_bits v)"
    by (simp only: drop_bit_same)
  also have "\<dots> \<longleftrightarrow> pos u div 2 ^ (64 - k) = pos v div 2 ^ (64 - k)"
    using pos_less [of u] pos_less [of v]
    by (simp add: word_unat_eq_iff unsigned_drop_bit_eq pos_def take_bit_nat_eq_self flip: drop_bit_eq_div)
  finally show ?thesis .
qed

lemma or_mask_nat: "(n :: nat) OR mask j = (n div 2 ^ j) * 2 ^ j + (2 ^ j - 1)"
proof -
  have "n OR mask j = push_bit j (drop_bit j n) OR mask j" by (rule bit_eqI) (auto simp: bit_simps)
  also have "\<dots> = push_bit j (drop_bit j n) + mask j"
    by (rule disjunctive_add_eq_or [symmetric]) (rule bit_eqI, auto simp: bit_simps)
  finally show ?thesis by (simp add: push_bit_eq_mult drop_bit_eq_div mask_eq_exp_minus_1)
qed

lemma pos_increment:
  assumes "k \<le> 64"
  shows "pos (scan_increment (mask k) v) = ((pos v div 2 ^ (64 - k) + 1) * 2 ^ (64 - k)) mod 2 ^ 64"
proof -
  let ?j = "64 - k"
  have m: "unat (mask ?j :: 64 word) = mask ?j" by (rule bit_eqI) (auto simp: bit_simps)
  have r: "rev_bits (v OR NOT (mask k)) = rev_bits v OR mask ?j"
    by (rule bit_word_eqI) (auto simp: rev_bits_64 bit_simps)
  have "pos (scan_increment (mask k) v) = unat ((rev_bits v OR mask ?j) + 1)"
    by (simp add: pos_def scan_increment_def r)
  also have "\<dots> = (unat (rev_bits v OR mask ?j) + 1) mod 2 ^ 64" by (simp add: unat_word_ariths)
  also have "unat (rev_bits v OR mask ?j) = (pos v div 2 ^ ?j) * 2 ^ ?j + (2 ^ ?j - 1)"
    by (simp add: unsigned_or_eq m or_mask_nat pos_def)
  also have "\<dots> + 1 = (pos v div 2 ^ ?j + 1) * 2 ^ ?j" by simp
  finally show ?thesis .
qed

text \<open>The end of the interval of the bucket that a cursor designates.\<close>

definition bucket_end :: "nat \<Rightarrow> 64 word \<Rightarrow> nat" where
  "bucket_end k v = (pos v div 2 ^ (64 - k) + 1) * 2 ^ (64 - k)"

lemma bucket_end:
  assumes "k \<le> 64"
  shows "pos v < bucket_end k v" "bucket_end k v \<le> 2 ^ 64" "2 ^ (64 - k) dvd bucket_end k v"
    "pos (scan_increment (mask k) v) = bucket_end k v mod 2 ^ 64"
proof -
  let ?j = "2 ^ (64 - k) :: nat"
  show "pos v < bucket_end k v" using dividend_less_div_times [of ?j "pos v"] by (simp add: bucket_end_def)
  have "(2 :: nat) ^ 64 = 2 ^ k * ?j" using assms by (simp flip: power_add)
  then have "pos v div ?j < 2 ^ k" using pos_less [of v] by (simp add: less_mult_imp_div_less)
  then have "(pos v div ?j + 1) * ?j \<le> 2 ^ k * ?j" by (intro mult_right_mono) auto
  then show "bucket_end k v \<le> 2 ^ 64" using \<open>2 ^ 64 = 2 ^ k * ?j\<close> by (simp add: bucket_end_def)
  show "?j dvd bucket_end k v" by (simp add: bucket_end_def)
  show "pos (scan_increment (mask k) v) = bucket_end k v mod 2 ^ 64"
    using pos_increment [OF assms] by (simp add: bucket_end_def)
qed

lemma bucket_end_interval:
  assumes "pos v \<le> x" and "x < bucket_end k v"
  shows "x div 2 ^ (64 - k) = pos v div 2 ^ (64 - k)"
proof -
  let ?j = "2 ^ (64 - k) :: nat"
  have "pos v div ?j \<le> x div ?j" using assms(1) by (rule div_le_mono)
  moreover have "x div ?j < pos v div ?j + 1" using assms(2) by (simp add: bucket_end_def less_mult_imp_div_less)
  ultimately show ?thesis by simp
qed

subsection \<open>One call\<close>

text \<open>The position of the hash of a key; sizes and hashes are those of 64-bit words.\<close>

definition hash_pos :: "('k, 'v) dictType \<Rightarrow> 'k \<Rightarrow> nat" where
  "hash_pos T k = pos (of_nat (hashFunction T k))"

definition scan_fits :: "('k, 'v) dictType \<Rightarrow> ('k, 'v) dict \<Rightarrow> bool" where
  "scan_fits T d \<longleftrightarrow> ht_size (d_ht0 d) < 2 ^ 64 \<and> ht_size (d_ht1 d) < 2 ^ 64 \<and> (\<forall>k. hashFunction T k < 2 ^ 64)"

lemma ht_scan:
  assumes "ht_ok T t" and "0 < ht_size t" and "ht_size t < 2 ^ 64"
  obtains k where "k < 64" and "ht_size t = 2 ^ k" and "of_nat (ht_sizemask t) = (mask k :: 64 word)"
proof -
  from assms(1,2) obtain k where k: "ht_size t = 2 ^ k" "ht_sizemask t = 2 ^ k - 1" by (auto simp: ht_ok_def)
  have "(2 :: nat) ^ k < 2 ^ 64" using k(1) assms(3) by simp
  then have "k < 64" by (rule power_less_imp_less_exp [rotated]) simp
  moreover have "of_nat (2 ^ k - 1) = (mask k :: 64 word)" by (simp add: mask_eq_exp_minus_1 of_nat_diff)
  ultimately show thesis using that k by simp
qed

lemma scan_bucket:
  assumes t: "ht_ok T t" "ht_size t = 2 ^ k" "k < 64" and h: "\<forall>k. hashFunction T k < 2 ^ 64"
  obtains c where "ht_bucket t (unat (v AND mask k)) = Some c"
    and "\<And>e. e \<in> set (ht_entries t) \<Longrightarrow> pos v \<le> hash_pos T (fst e) \<Longrightarrow> hash_pos T (fst e) < bucket_end k v \<Longrightarrow> e \<in> set c"
proof -
  let ?i = "unat (v AND mask k)"
  have i: "?i = unat v mod 2 ^ k"
    by (metis take_bit_eq_mask take_bit_eq_mod unsigned_take_bit_eq)
  then have lt: "?i < length (ht_table t)" using t by (simp add: ht_ok_def)
  have "e \<in> set (ht_table t ! ?i)"
    if e: "e \<in> set (ht_entries t)" "pos v \<le> hash_pos T (fst e)" "hash_pos T (fst e) < bucket_end k v" for e
  proof -
    let ?h = "hashFunction T (fst e)"
    from e(1) obtain b where b: "b < ht_size t" "e \<in> set (ht_table t ! b)"
      using t(1) by (metis (no_types, lifting) UN_E ht_entries_def ht_ok_def in_set_conv_nth set_concat)
    have "ht_sizemask t = 2 ^ k - 1" using t(1,2) by (auto simp: ht_ok_def)
    moreover have "?h AND ht_sizemask t = b" using t(1) b by (simp add: ht_ok_def)
    ultimately have "b = ?h mod 2 ^ k" by (simp add: and_mask_mod [unfolded One_nat_def])
    moreover have "unat (of_nat ?h :: 64 word) = ?h" using h by (simp add: unat_of_nat)
    ultimately have "b = unat (of_nat ?h :: 64 word) mod 2 ^ k" by simp
    also have "\<dots> = unat v mod 2 ^ k"
      using bucket_end_interval [OF e(2,3)] t(3) by (simp add: same_bucket hash_pos_def)
    finally show ?thesis using b(2) i by simp
  qed
  with lt show thesis using that by (auto simp: ht_bucket_def)
qed

lemma masks_differ:
  assumes "k0 \<le> k1" and "k1 \<le> 64" and "2 ^ (64 - k1) dvd pos v"
  shows "v AND (mask k0 XOR mask k1) = 0 \<longleftrightarrow> 2 ^ (64 - k0) dvd pos v"
proof -
  have dvd: "2 ^ j dvd pos v \<longleftrightarrow> (\<forall>n < j. \<not> bit (rev_bits v) n)" if "j \<le> 64" for j
  proof -
    have "2 ^ j dvd pos v \<longleftrightarrow> take_bit j (rev_bits v) = 0"
      by (simp add: pos_def word_unat_eq_iff unsigned_take_bit_eq dvd_eq_mod_eq_0 flip: take_bit_eq_mod)
    also have "\<dots> \<longleftrightarrow> (\<forall>n < j. \<not> bit (rev_bits v) n)"
      using that by (simp add: bit_eq_iff bit_simps) (meson less_le_trans)
    finally show ?thesis .
  qed
  have "v AND (mask k0 XOR mask k1) = 0 \<longleftrightarrow> (\<forall>n. k0 \<le> n \<and> n < k1 \<longrightarrow> \<not> bit v n)"
    using assms(1,2) by (auto simp: bit_eq_iff bit_simps) (meson leD less_le_trans, meson not_le)
  also have "\<dots> \<longleftrightarrow> (\<forall>n. 64 - k1 \<le> n \<and> n < 64 - k0 \<longrightarrow> \<not> bit (rev_bits v) n)"
    using rev_range [OF assms(2), of k0 "\<lambda>n. \<not> bit (rev_bits v) n"] assms(2) by (simp add: rev_bits_64)
  also have "\<dots> \<longleftrightarrow> (\<forall>n < 64 - k0. \<not> bit (rev_bits v) n)"
    using assms(3) dvd [of "64 - k1"] by (meson not_le diff_le_self)
  finally show ?thesis using dvd [of "64 - k0"] by simp
qed

lemma next_multiple:
  assumes "0 < (j :: nat)" and "j dvd q" and "x < q"
  shows "(x div j + 1) * j \<le> q"
proof -
  from assms(2) obtain m where q: "q = m * j" by (metis dvd_def mult.commute)
  then have "x div j < m" using assms(3) by (simp add: less_mult_imp_div_less)
  then show ?thesis using q by (metis Suc_eq_plus1 Suc_leI mult_le_mono1)
qed

text \<open>The loop over the larger table stops at the end of the bucket of the smaller one.\<close>

lemma scan_larger_correct:
  assumes t: "ht_ok T t" "ht_size t = 2 ^ k1" "k1 < 64" and k0: "k0 \<le> k1" and h: "\<forall>k. hashFunction T k < 2 ^ 64"
  shows "\<exists>cs v'. scan_larger t (mask k0) (mask k1) v = Some (cs, v') \<and> pos v' = bucket_end k0 v mod 2 ^ 64 \<and>
    (\<forall>e \<in> set (ht_entries t). pos v \<le> hash_pos T (fst e) \<and> hash_pos T (fst e) < bucket_end k0 v \<longrightarrow> e \<in> set (concat cs))"
proof (induction "bucket_end k0 v - pos v" arbitrary: v rule: less_induct)
  case less
  let ?q = "bucket_end k0 v" and ?p = "bucket_end k1 v" and ?v = "scan_increment (mask k1) v"
  note q = bucket_end [of k0 v] and p = bucket_end [of k1 v]
  obtain c where c: "ht_bucket t (unat (v AND mask k1)) = Some c"
    and in_c: "\<And>e. e \<in> set (ht_entries t) \<Longrightarrow> pos v \<le> hash_pos T (fst e) \<Longrightarrow> hash_pos T (fst e) < ?p \<Longrightarrow> e \<in> set c"
    using scan_bucket [OF t h] by metis
  have nxt: "bucket_end k w \<le> m" if "2 ^ (64 - k) dvd m" "pos w < m" for k w m
    using next_multiple [OF _ that] by (simp add: bucket_end_def)
  have "(2 :: nat) ^ (64 - k1) dvd 2 ^ (64 - k0)" using k0 by (simp add: le_imp_power_dvd)
  then have le: "?p \<le> ?q" using nxt [of k1 ?q v] q t(3) k0 dvd_trans by auto
  have dvd: "2 ^ (64 - k0) dvd ?p \<longleftrightarrow> ?p = ?q"
  proof
    assume "2 ^ (64 - k0) dvd ?p"
    then have "?q \<le> ?p" using nxt [of k0 ?p v] p(1) t(3) by simp
    then show "?p = ?q" using le by simp
  next
    assume "?p = ?q"
    then show "2 ^ (64 - k0) dvd ?p" using q(3) t(3) k0 by simp
  qed
  have dvd64: "2 ^ (64 - k) dvd pos ?v \<longleftrightarrow> 2 ^ (64 - k) dvd ?p" for k
    using p(4) t(3) dvd_mod_iff [OF le_imp_power_dvd [of "64 - k" 64 "2 :: nat"], of ?p] by simp
  then have stop: "?v AND (mask k0 XOR mask k1) = 0 \<longleftrightarrow> ?p = ?q"
    using masks_differ [of k0 k1 ?v] k0 t(3) p(3) dvd by simp
  show ?case
  proof (cases "?p = ?q")
    case True
    then have "scan_larger t (mask k0) (mask k1) v = Some ([c], ?v)"
      using c stop by (subst scan_larger.simps) simp
    then show ?thesis using in_c True p t(3) by auto
  next
    case False
    then have lt: "?p < ?q" using le by simp
    then have pos: "pos ?v = ?p" using p(4) q(2) t(3) k0 by simp
    have same: "bucket_end k0 ?v = ?q"
    proof (rule antisym)
      show "bucket_end k0 ?v \<le> ?q" by (rule nxt) (use q(3) pos lt t(3) k0 in simp_all)
      show "?q \<le> bucket_end k0 ?v"
        by (rule nxt) (use bucket_end(1,3) [of k0 ?v] pos lt p(1) t(3) k0 in linarith | simp)+
    qed
    have "?q - pos ?v < ?q - pos v" using pos lt p(1) t(3) by simp
    then obtain cs v' where cs: "scan_larger t (mask k0) (mask k1) ?v = Some (cs, v')" "pos v' = ?q mod 2 ^ 64"
      "\<forall>e \<in> set (ht_entries t). ?p \<le> hash_pos T (fst e) \<and> hash_pos T (fst e) < ?q \<longrightarrow> e \<in> set (concat cs)"
      using less [of ?v] same pos by auto
    have "scan_larger t (mask k0) (mask k1) v = Some (c # cs, v')"
      using c stop False cs(1) by (subst scan_larger.simps) simp
    moreover have "e \<in> set (concat (c # cs))"
      if "e \<in> set (ht_entries t)" "pos v \<le> hash_pos T (fst e)" "hash_pos T (fst e) < ?q" for e
      using that in_c [of e] cs(3) by (cases "hash_pos T (fst e) < ?p") auto
    ultimately show ?thesis using cs(2) by auto
  qed
qed

text \<open>
  One call returns every entry whose position lies between the old and the new cursor, which has
  advanced, or wrapped around to 0 at the end.
\<close>

lemma dictScan_step:
  assumes inv: "dict_inv T d" and fits: "scan_fits T d"
    and K: "dictSlots d \<le> 2 ^ K" "K < 64"
  shows "\<exists>cs v' q. dictScan d v = Some (cs, v', d) \<and> pos v < q \<and> q \<le> 2 ^ 64 \<and> pos v' = q mod 2 ^ 64 \<and> 2 ^ (64 - K) dvd q \<and>
    (\<forall>e \<in> set (dict_entries d). pos v \<le> hash_pos T (fst e) \<and> hash_pos T (fst e) < q \<longrightarrow> e \<in> set (concat cs))"
proof (cases "dictSize d = 0")
  case True
  then have "dict_entries d = []" using dictSize_entries [OF inv] by simp
  moreover have "(2 :: nat) ^ (64 - K) dvd 2 ^ 64" by (rule le_imp_power_dvd) simp
  ultimately show ?thesis
    using True pos_less [of v] by (intro exI [of _ "[]"] exI [of _ 0] exI [of _ "2 ^ 64"]) (simp add: dictScan_def)
next
  case False
  have h: "\<forall>k. hashFunction T k < 2 ^ 64" using fits by (simp add: scan_fits_def)
  have ok: "ht_ok T (d_ht0 d)" "ht_ok T (d_ht1 d)" using inv by (simp_all add: dict_inv_def)
  have end_dvd: "2 ^ (64 - K) dvd bucket_end k v" if "2 ^ k \<le> (2 :: nat) ^ K" "k < 64" for k
  proof -
    have "k \<le> K" using that(1) by (rule power_le_imp_le_exp [rotated]) simp
    then have "(2 :: nat) ^ (64 - K) dvd 2 ^ (64 - k)" by (intro le_imp_power_dvd) simp
    then show ?thesis using bucket_end(3) [of k v] that(2) dvd_trans by auto
  qed
  show ?thesis
  proof (cases "dictIsRehashing d")
    case single: False
    then have one: "d_ht1 d = priv_dictReset" using inv by (auto simp: dict_inv_def dictIsRehashing_def rehash_state_def)
    then have entries: "dict_entries d = ht_entries (d_ht0 d)" by (simp add: dict_entries_def)
    have "0 < ht_size (d_ht0 d)" using ht0_exists [OF inv] False by simp
    then obtain k where k: "k < 64" "ht_size (d_ht0 d) = 2 ^ k" "of_nat (ht_sizemask (d_ht0 d)) = (mask k :: 64 word)"
      using ht_scan [OF ok(1)] fits by (auto simp: scan_fits_def)
    obtain c where c: "ht_bucket (d_ht0 d) (unat (v AND mask k)) = Some c"
      and in_c: "\<And>e. e \<in> set (ht_entries (d_ht0 d)) \<Longrightarrow> pos v \<le> hash_pos T (fst e) \<Longrightarrow>
        hash_pos T (fst e) < bucket_end k v \<Longrightarrow> e \<in> set c"
      using scan_bucket [OF ok(1) k(2,1) h, of v] by blast
    have "dictScan d v = Some ([c], scan_increment (mask k) v, d)"
      using False single k(3) c by (simp add: dictScan_def Let_def)
    then show ?thesis
      using bucket_end [of k v] end_dvd [of k] k K in_c one entries
      by (intro exI [of _ "[c]"] exI [of _ "scan_increment (mask k) v"] exI [of _ "bucket_end k v"])
        (simp add: dictSlots_def priv_dictReset_def)
  next
    case True
    then have st: "rehash_state d" using inv by (simp add: dictIsRehashing_iff)
    define t0 where "t0 = (if ht_size (d_ht0 d) > ht_size (d_ht1 d) then d_ht1 d else d_ht0 d)"
    define t1 where "t1 = (if ht_size (d_ht0 d) > ht_size (d_ht1 d) then d_ht0 d else d_ht1 d)"
    have t: "ht_ok T t0" "ht_ok T t1" "0 < ht_size t0" "0 < ht_size t1" "ht_size t0 < 2 ^ 64" "ht_size t1 < 2 ^ 64"
      "ht_size t0 \<le> ht_size t1" "ht_size t0 \<le> dictSlots d" "set (dict_entries d) = set (ht_entries t0) \<union> set (ht_entries t1)"
      using ok st fits by (auto simp: t0_def t1_def rehash_state_def scan_fits_def dictSlots_def dict_entries_def)
    obtain k0 where k0: "k0 < 64" "ht_size t0 = 2 ^ k0" "of_nat (ht_sizemask t0) = (mask k0 :: 64 word)"
      using ht_scan [OF t(1,3,5)] .
    obtain k1 where k1: "k1 < 64" "ht_size t1 = 2 ^ k1" "of_nat (ht_sizemask t1) = (mask k1 :: 64 word)"
      using ht_scan [OF t(2,4,6)] .
    have "(2 :: nat) ^ k0 \<le> 2 ^ k1" using t(7) k0(2) k1(2) by simp
    then have le: "k0 \<le> k1" by (rule power_le_imp_le_exp [rotated]) simp
    obtain c where c: "ht_bucket t0 (unat (v AND mask k0)) = Some c"
      and in_c: "\<And>e. e \<in> set (ht_entries t0) \<Longrightarrow> pos v \<le> hash_pos T (fst e) \<Longrightarrow>
        hash_pos T (fst e) < bucket_end k0 v \<Longrightarrow> e \<in> set c"
      using scan_bucket [OF t(1) k0(2,1) h, of v] by blast
    obtain cs v' where cs: "scan_larger t1 (mask k0) (mask k1) v = Some (cs, v')" "pos v' = bucket_end k0 v mod 2 ^ 64"
      "\<forall>e \<in> set (ht_entries t1). pos v \<le> hash_pos T (fst e) \<and> hash_pos T (fst e) < bucket_end k0 v \<longrightarrow> e \<in> set (concat cs)"
      using scan_larger_correct [OF t(2) k1(2,1) le h, of v] by (elim exE conjE)
    have "dictScan d v = Some (c # cs, v', d)"
      using False True k0(3) k1(3) c cs(1) by (simp add: dictScan_def Let_def t0_def t1_def split: if_splits)
    moreover have "(2 :: nat) ^ k0 \<le> 2 ^ K" using t(8) k0(2) K(1) by linarith
    then have "2 ^ (64 - K) dvd bucket_end k0 v" using end_dvd k0(1) by blast
    moreover have "\<forall>e \<in> set (dict_entries d). pos v \<le> hash_pos T (fst e) \<and> hash_pos T (fst e) < bucket_end k0 v \<longrightarrow>
        e \<in> set (concat (c # cs))"
      using t(9) in_c cs(3) by auto
    ultimately show ?thesis
      using bucket_end(1,2) [of k0 v] k0(1) cs(2) by (intro exI [of _ "c # cs"] exI [of _ v'] exI [of _ "bucket_end k0 v"]) simp
  qed
qed

subsection \<open>A complete scan\<close>

text \<open>
  The client calls with cursor 0, then with the cursor returned, until that is 0. Between two calls
  the dictionary may change: the list gives the dictionary that each call finds. The result is
  the entries returned and the last cursor.
\<close>

fun scan_session :: "('k, 'v) dict list \<Rightarrow> 64 word \<Rightarrow> (('k, 'v) chain \<times> 64 word) option" where
  "scan_session [] v = Some ([], v)"
| "scan_session (d # ds) v = do {
     (cs, v, d) \<leftarrow> dictScan d v;
     if v = 0 then Some (concat cs, 0)
     else do {
       (es, v) \<leftarrow> scan_session ds v;
       Some (concat cs @ es, v)
     }
   }"

definition scannable :: "('k, 'v) dictType \<Rightarrow> nat \<Rightarrow> ('k, 'v) dict \<Rightarrow> bool" where
  "scannable T K d \<longleftrightarrow> dict_inv T d \<and> scan_fits T d \<and> dictSlots d \<le> 2 ^ K"

lemma scan_session_correct:
  assumes "\<forall>d \<in> set ds. scannable T K d" and "K < 64" and "2 ^ (64 - K) dvd pos v"
  shows "\<exists>es v'. scan_session ds v = Some (es, v') \<and>
    (ds \<noteq> [] \<and> v' = 0 \<longrightarrow> (\<forall>k. pos v \<le> hash_pos T k \<and> (\<forall>d \<in> set ds. k \<in> fst ` set (dict_entries d)) \<longrightarrow> k \<in> fst ` set es)) \<and>
    (ds \<noteq> [] \<and> 2 ^ 64 \<le> pos v + length ds * 2 ^ (64 - K) \<longrightarrow> v' = 0)"
  using assms
proof (induction ds arbitrary: v)
  case (Cons d ds)
  have d: "dict_inv T d" "scan_fits T d" "dictSlots d \<le> 2 ^ K" using Cons.prems(1) by (simp_all add: scannable_def)
  obtain cs v1 q where c: "dictScan d v = Some (cs, v1, d)" "pos v < q" "q \<le> 2 ^ 64" "pos v1 = q mod 2 ^ 64" "2 ^ (64 - K) dvd q"
    "\<forall>e \<in> set (dict_entries d). pos v \<le> hash_pos T (fst e) \<and> hash_pos T (fst e) < q \<longrightarrow> e \<in> set (concat cs)"
    using dictScan_step [OF d Cons.prems(2), of v] by (elim exE conjE)
  have in_cs: "k \<in> fst ` set (concat cs)"
    if "k \<in> fst ` set (dict_entries d)" "pos v \<le> hash_pos T k" "hash_pos T k < q" for k
  proof -
    from that(1) obtain e where "e \<in> set (dict_entries d)" "k = fst e" by blast
    then show ?thesis using that(2,3) c(6) by blast
  qed
  show ?case
  proof (cases "v1 = 0")
    case True
    then have "q mod 2 ^ 64 = 0" using c(4) by simp
    then have q: "q = 2 ^ 64" using c(2,3) by (metis gr_implies_not0 le_neq_implies_less mod_less)
    have "hash_pos T k < q" for k using pos_less by (simp add: hash_pos_def q)
    then show ?thesis using True c(1) in_cs by auto
  next
    case False
    then have ne: "q \<noteq> 2 ^ 64" using c(4) pos_0(2) [of v1] by auto
    then have q: "pos v1 = q" using c(3,4) by simp
    have rest: "\<forall>d \<in> set ds. scannable T K d" using Cons.prems(1) by simp
    obtain es v' where es: "scan_session ds v1 = Some (es, v')"
      "ds \<noteq> [] \<and> v' = 0 \<longrightarrow> (\<forall>k. q \<le> hash_pos T k \<and> (\<forall>d \<in> set ds. k \<in> fst ` set (dict_entries d)) \<longrightarrow> k \<in> fst ` set es)"
      "ds \<noteq> [] \<and> 2 ^ 64 \<le> q + length ds * 2 ^ (64 - K) \<longrightarrow> v' = 0"
      using Cons.IH [OF rest Cons.prems(2), of v1, unfolded q, OF c(5)] by (elim exE conjE)
    have run: "scan_session (d # ds) v = Some (concat cs @ es, v')" using c(1) es(1) False by simp
    have "k \<in> fst ` set (concat cs @ es)"
      if "v' = 0" "pos v \<le> hash_pos T k" "\<forall>d \<in> set (d # ds). k \<in> fst ` set (dict_entries d)" for k
    proof (cases "hash_pos T k < q")
      case True
      then show ?thesis using that in_cs [of k] by (simp add: image_Un)
    next
      case False
      moreover have "ds \<noteq> []" using that(1) es(1) \<open>v1 \<noteq> 0\<close> by auto
      ultimately show ?thesis using that es(2) by (simp add: image_Un)
    qed
    moreover have "v' = 0" if "2 ^ 64 \<le> pos v + length (d # ds) * 2 ^ (64 - K)"
    proof -
      have "pos v + 2 ^ (64 - K) \<le> q"
        using next_multiple [OF _ c(5) c(2)] Cons.prems(3) by simp
      then have "2 ^ 64 \<le> q + length ds * 2 ^ (64 - K)" using that by simp
      moreover have "ds \<noteq> []" using calculation c(3) ne by auto
      ultimately show ?thesis using es(3) by simp
    qed
    ultimately show ?thesis using run by auto
  qed
qed simp

text \<open>A scan during which the dictionary starts rehashing to a larger table.\<close>

definition scan_dicts :: "(nat, nat) dict list" where
  "scan_dicts = rehashing_dict\<lparr>d_ht1 := priv_dictReset, rehashidx := - 1\<rparr> # replicate 15 rehashing_dict"

lemma scan_dicts_scannable: "\<forall>d \<in> set scan_dicts. scannable nat_dictType 4 d"
proof -
  let ?d = "rehashing_dict\<lparr>d_ht1 := priv_dictReset, rehashidx := - 1\<rparr>"
  have "bag_unique nat_dictType (dict_entries ?d)"
    by (simp add: bag_unique_def rehashing_dict_def dict_entries_def ht_entries_def priv_dictReset_def
        nat_dictType_def key_eq_def dictCompareKeys_def)
  then have "dict_inv nat_dictType ?d" using rehashing_dict_inv by (simp add: dict_inv_def)
  then show ?thesis using rehashing_dict_inv
    by (simp add: scan_dicts_def scannable_def scan_fits_def dictSlots_def)
      (simp add: rehashing_dict_def priv_dictReset_def nat_dictType_def)
qed

lemma scan_dicts_end: "\<exists>es. scan_session scan_dicts 0 = Some (es, 0)"
  using scan_session_correct [OF scan_dicts_scannable, of 0] by (auto simp: scan_dicts_def)

text \<open>
  C2. The guarantee of \<^verbatim>\<open>SCAN\<close>: however the dictionary is resized, rehashed or modified
  between the calls, when the cursor comes back to 0 every key that was present during the whole
  scan has been returned; no call leaves the tables.
\<close>

theorem scan_returns_all:
  assumes "\<forall>d \<in> set ds. dict_inv T d \<and> scan_fits T d \<and> dictSlots d \<le> 2 ^ 63" and "ds \<noteq> []"
  shows "\<exists>es v. scan_session ds 0 = Some (es, v) \<and>
    (v = 0 \<longrightarrow> (\<forall>k. (\<forall>d \<in> set ds. k \<in> fst ` set (dict_entries d)) \<longrightarrow> k \<in> fst ` set es))"
  using scan_session_correct [of ds T 63 0] assms by (auto simp: scannable_def)

theorem scan_returns_all_witness:
  "\<exists>es. scan_session scan_dicts 0 = Some (es, 0) \<and> {1, 4, 8} \<subseteq> fst ` set es"
proof -
  have sc: "\<forall>d \<in> set scan_dicts. dict_inv nat_dictType d \<and> scan_fits nat_dictType d \<and> dictSlots d \<le> 2 ^ 63"
    using scan_dicts_scannable by (auto simp: scannable_def)
  have "\<forall>d \<in> set scan_dicts. k \<in> fst ` set (dict_entries d)" if "k \<in> {1, 4, 8}" for k
    using that by (auto simp: scan_dicts_def rehashing_dict_def dict_entries_def ht_entries_def priv_dictReset_def)
  then show ?thesis using scan_returns_all [OF sc] scan_dicts_end by (auto simp: scan_dicts_def)
qed

text \<open>
  C23. A scan ends: if the tables never have more than \<open>2 ^ K\<close> buckets, the cursor is 0 after at
  most \<open>2 ^ K\<close> calls.
\<close>

theorem scan_terminates:
  assumes "\<forall>d \<in> set ds. dict_inv T d \<and> scan_fits T d \<and> dictSlots d \<le> 2 ^ K" and "K < 64" and "length ds = 2 ^ K"
  shows "\<exists>es. scan_session ds 0 = Some (es, 0)"
proof -
  have "(2 :: nat) ^ 64 = 2 ^ K * 2 ^ (64 - K)" using assms(2) by (simp flip: power_add)
  moreover have "ds \<noteq> []" using assms(3) by auto
  ultimately show ?thesis using scan_session_correct [of ds T K 0] assms by (auto simp: scannable_def)
qed

theorem scan_terminates_witness: "\<exists>es. scan_session scan_dicts 0 = Some (es, 0)"
  using scan_terminates [of scan_dicts nat_dictType 4] scan_dicts_scannable
  by (auto simp: scannable_def scan_dicts_def)

end
