(* ===== verification/Bitops.thy ===== *)
theory Bitops
  imports Redis_Prelude "HOL-Library.Monad_Syntax"
begin

text \<open>
  The bit counting and bit search routines of \<^verbatim>\<open>bitops.c\<close>. A bitmap is a list of bytes; the
  address it starts at is an argument, since both routines first advance to an aligned address.
  Reading outside the bitmap is \<open>None\<close>.
\<close>

unbundle bit_operations_syntax

subsection \<open>Population count\<close>

definition bitsinbyte :: "nat list" where
  "bitsinbyte =
    [0,1,1,2,1,2,2,3,1,2,2,3,2,3,3,4,1,2,2,3,2,3,3,4,2,3,3,4,3,4,4,5,1,2,2,3,2,3,3,4,2,3,3,4,3,4,4,5,2,3,3,4,3,4,4,5,3,4,4,5,4,5,5,6,1,2,2,3,2,3,3,4,2,3,3,4,3,4,4,5,2,3,3,4,3,4,4,5,3,4,4,5,4,5,5,6,2,3,3,4,3,4,4,5,3,4,4,5,4,5,5,6,3,4,4,5,4,5,5,6,4,5,5,6,5,6,6,7,1,2,2,3,2,3,3,4,2,3,3,4,3,4,4,5,2,3,3,4,3,4,4,5,3,4,4,5,4,5,5,6,2,3,3,4,3,4,4,5,3,4,4,5,4,5,5,6,3,4,4,5,4,5,5,6,4,5,5,6,5,6,6,7,2,3,3,4,3,4,4,5,3,4,4,5,4,5,5,6,3,4,4,5,4,5,5,6,4,5,5,6,5,6,6,7,3,4,4,5,4,5,5,6,4,5,5,6,5,6,6,7,4,5,5,6,5,6,6,7,5,6,6,7,6,7,7,8]"

text \<open>The loop over the bytes before an aligned address: the bits counted, the rest and its length.\<close>

fun popcount_head :: "nat \<Rightarrow> bytes \<Rightarrow> nat \<Rightarrow> nat \<Rightarrow> (nat \<times> bytes \<times> nat) option" where
  "popcount_head addr p 0 bits = Some (bits, p, 0)"
| "popcount_head addr p (Suc count) bits =
     (if addr AND 3 \<noteq> 0 then
        (case p of [] \<Rightarrow> None | b # p \<Rightarrow> popcount_head (addr + 1) p count (bits + bitsinbyte ! unat b))
      else Some (bits, p, Suc count))"

definition load32 :: "bytes \<Rightarrow> nat \<Rightarrow> 32 word" where
  "load32 p i = word_of_int (le_uint (take 4 (drop (4 * i) p)))"

definition popcount_pairs :: "32 word \<Rightarrow> 32 word" where
  "popcount_pairs aux =
     (let aux = aux - (drop_bit 1 aux AND 0x55555555)
      in (aux AND 0x33333333) + (drop_bit 2 aux AND 0x33333333))"

definition popcount_bytes :: "32 word \<Rightarrow> 32 word" where
  "popcount_bytes aux = (aux + drop_bit 4 aux) AND 0x0F0F0F0F"

function popcount_28 :: "bytes \<Rightarrow> nat \<Rightarrow> nat \<Rightarrow> (nat \<times> bytes \<times> nat) option" where
  "popcount_28 p count bits =
     (if count \<ge> 28 then
        if length p < 28 then None
        else
          let aux1 = popcount_pairs (load32 p 0); aux2 = popcount_pairs (load32 p 1);
              aux3 = popcount_pairs (load32 p 2); aux4 = popcount_pairs (load32 p 3);
              aux5 = popcount_pairs (load32 p 4); aux6 = popcount_pairs (load32 p 5);
              aux7 = popcount_pairs (load32 p 6)
          in popcount_28 (drop 28 p) (count - 28)
               (bits + unat (drop_bit 24 ((popcount_bytes aux1 + popcount_bytes aux2 + popcount_bytes aux3 +
                  popcount_bytes aux4 + popcount_bytes aux5 + popcount_bytes aux6 + popcount_bytes aux7) * 0x01010101)))
      else Some (bits, p, count))"
  by pat_completeness auto
termination by (relation "measure (\<lambda>(p, count, bits). count)") auto

declare popcount_28.simps [simp del]

fun popcount_tail :: "bytes \<Rightarrow> nat \<Rightarrow> nat \<Rightarrow> nat option" where
  "popcount_tail p 0 bits = Some bits"
| "popcount_tail p (Suc count) bits =
     (case p of [] \<Rightarrow> None | b # p \<Rightarrow> popcount_tail p count (bits + bitsinbyte ! unat b))"

definition redisPopcount :: "nat \<Rightarrow> bytes \<Rightarrow> nat \<Rightarrow> nat option" where
  "redisPopcount addr p count = do {
     (bits, p, count) \<leftarrow> popcount_head addr p count 0;
     (bits, p, count) \<leftarrow> popcount_28 p count bits;
     popcount_tail p count bits
   }"

text \<open>The reference: the number of bits set.\<close>

definition popcount_byte :: "byte \<Rightarrow> nat" where
  "popcount_byte b = (\<Sum>i<8. of_bool (bit b i))"

lemma popcount_byte_sum:
  "popcount_byte b = of_bool (bit b 0) + of_bool (bit b 1) + of_bool (bit b 2) + of_bool (bit b 3) +
     of_bool (bit b 4) + of_bool (bit b 5) + of_bool (bit b 6) + of_bool (bit b 7)"
  by (simp add: popcount_byte_def numeral_eq_Suc)

lemma bitsinbyte_correct: "bitsinbyte ! unat b = popcount_byte b"
  by (rule byte_cases) (simp add: all_less_numeral All_less_Suc bitsinbyte_def popcount_byte_sum)

text \<open>A 32-bit word as the four bytes it is loaded from.\<close>

definition join4 :: "byte \<Rightarrow> byte \<Rightarrow> byte \<Rightarrow> byte \<Rightarrow> 32 word" where
  "join4 a b c d = ucast a OR push_bit 8 (ucast b) OR push_bit 16 (ucast c) OR push_bit 24 (ucast d)"

lemma bit_join4:
  "bit (join4 a b c d) n =
     (if n < 8 then bit a n else if n < 16 then bit b (n - 8) else if n < 24 then bit c (n - 16) else n < 32 \<and> bit d (n - 24))"
  by (auto simp: join4_def bit_simps dest: bit_imp_le_length)

lemma join4_and: "join4 a b c d AND join4 a' b' c' d' = join4 (a AND a') (b AND b') (c AND c') (d AND d')"
  by (rule bit_word_eqI) (simp add: bit_join4 bit_simps)

lemma or_push_bit_nat: "x < 2 ^ n \<Longrightarrow> x OR push_bit n y = x + 2 ^ n * (y :: nat)"
proof -
  assume "x < 2 ^ n"
  then have "take_bit n x = x" by (simp add: take_bit_nat_eq_self)
  then have "\<not> (n \<le> i \<and> bit x i)" for i by (metis bit_take_bit_iff not_le)
  then have "x AND push_bit n y = 0" by (intro bit_eqI) (auto simp: bit_simps)
  then show ?thesis using disjunctive_add_eq_or [of x "push_bit n y"] by (simp add: push_bit_eq_mult mult.commute)
qed

lemma unat_join4: "unat (join4 a b c d) = unat a + 256 * unat b + 65536 * unat c + 16777216 * unat d"
proof -
  have lt: "unat a < 2 ^ 8" "unat b < 2 ^ 8" "unat c < 2 ^ 8" "unat d < 2 ^ 8" for a b c d :: byte
    by (simp_all add: unat_byte)
  have push: "unat (push_bit k (ucast x :: 32 word)) = push_bit k (unat x)" if "k \<le> 24" for k and x :: byte
    using that by (intro bit_eqI) (auto simp: bit_simps dest: bit_imp_le_length)
  have "take_bit 32 (unat a) = unat a" by (rule take_bit_nat_eq_self) (use unat_byte [of a] in simp)
  then have "unat (join4 a b c d) = unat a OR push_bit 8 (unat b OR push_bit 8 (unat c OR push_bit 8 (unat d)))"
    by (simp add: join4_def unsigned_or_eq push unsigned_ucast_eq or.assoc)
  also have "\<dots> = unat a + 2 ^ 8 * (unat b + 2 ^ 8 * (unat c + 2 ^ 8 * unat d))"
    using lt by (simp add: or_push_bit_nat)
  finally show ?thesis by simp
qed

lemma join4_masks:
  "0x55555555 = join4 0x55 0x55 0x55 0x55" "0x33333333 = join4 0x33 0x33 0x33 0x33" "0x0F0F0F0F = join4 0x0F 0x0F 0x0F 0x0F"
  by code_simp+


lemma load32_join4:
  assumes "length p = 4"
  shows "word_of_int (le_uint p) = join4 (p ! 0) (p ! 1) (p ! 2) (p ! 3)"
proof -
  from assms obtain a b c d where p: "p = [a, b, c, d]" by (auto simp: length_Suc_conv numeral_eq_Suc)
  have "unat (word_of_int (le_uint p) :: 32 word) = nat (le_uint p mod 2 ^ 32)"
    by (simp only: unat_eq_nat_uint uint_word_of_int len_num1 len_num0 len_bit0) simp
  also have "le_uint p mod 2 ^ 32 = le_uint p" using le_uint_bound [of p] assms by simp
  also have "nat (le_uint p) = unat (join4 a b c d)"
    by (simp add: p unat_join4 nat_add_distrib nat_mult_distrib)
  finally show ?thesis by (simp add: p word_unat_eq_iff)
qed

text \<open>Sums and differences without carries between the bytes are bytewise.\<close>

lemma join4_add:
  assumes "unat a + unat a' < 256" "unat b + unat b' < 256" "unat c + unat c' < 256" "unat d + unat d' < 256"
  shows "join4 a b c d + join4 a' b' c' d' = join4 (a + a') (b + b') (c + c') (d + d')"
  using assms by (simp add: word_unat_eq_iff unat_word_ariths unat_join4)

lemma join4_diff:
  assumes "unat a' \<le> unat a" "unat b' \<le> unat b" "unat c' \<le> unat c" "unat d' \<le> unat d"
  shows "join4 a b c d - join4 a' b' c' d' = join4 (a - a') (b - b') (c - c') (d - d')"
proof -
  have "join4 (a - a') (b - b') (c - c') (d - d') + join4 a' b' c' d' = join4 a b c d"
    using assms unat_byte [of a] unat_byte [of b] unat_byte [of c] unat_byte [of d]
    by (subst join4_add) (simp_all add: unat_sub word_le_nat_alt)
  then show ?thesis by (metis add_diff_cancel)
qed

lemma word32_eqI: "(\<forall>n < 32. bit a n \<longleftrightarrow> bit b n) \<Longrightarrow> a = (b :: 32 word)"
  by (rule bit_word_eqI) simp

lemma join4_shift:
  "drop_bit 1 (join4 a b c d) = join4 (drop_bit 1 a OR push_bit 7 b) (drop_bit 1 b OR push_bit 7 c)
     (drop_bit 1 c OR push_bit 7 d) (drop_bit 1 d OR push_bit 7 0)"
  "drop_bit 2 (join4 a b c d) = join4 (drop_bit 2 a OR push_bit 6 b) (drop_bit 2 b OR push_bit 6 c)
     (drop_bit 2 c OR push_bit 6 d) (drop_bit 2 d OR push_bit 6 0)"
  "drop_bit 4 (join4 a b c d) = join4 (drop_bit 4 a OR push_bit 4 b) (drop_bit 4 b OR push_bit 4 c)
     (drop_bit 4 c OR push_bit 4 d) (drop_bit 4 d OR push_bit 4 0)"
  by (rule word32_eqI,
      simp add: all_less_numeral All_less_Suc bit_join4 bit_simps byte_high flip: numeral_2_eq_2)+

lemma byte_eqI: "(\<forall>n < 8. bit a n \<longleftrightarrow> bit b n) \<Longrightarrow> a = (b :: byte)"
  by (rule bit_word_eqI) simp

lemma low_nibble: "unat (a AND 0x0F :: byte) = unat a mod 16"
  by (rule byte_cases) (simp add: all_less_numeral All_less_Suc)

lemma byte_mask_out:
  "(x OR push_bit 7 y) AND 0x55 = x AND (0x55 :: byte)" "(x OR push_bit 6 y) AND 0x33 = x AND (0x33 :: byte)"
  "((x + (drop_bit 4 x OR push_bit 4 y)) AND 0x0F) = (x + drop_bit 4 x) AND (0x0F :: byte)"
proof -
  show "(x OR push_bit 7 y) AND 0x55 = x AND (0x55 :: byte)" "(x OR push_bit 6 y) AND 0x33 = x AND (0x33 :: byte)"
    by (rule byte_eqI, simp add: all_less_numeral All_less_Suc bit_simps)+
  show "((x + (drop_bit 4 x OR push_bit 4 y)) AND 0x0F) = (x + drop_bit 4 x) AND (0x0F :: byte)"
  proof -
    have "(drop_bit 4 x OR push_bit 4 y) AND 0x0F = drop_bit 4 x AND 0x0F"
      by (rule byte_eqI) (simp add: all_less_numeral All_less_Suc bit_simps)
    then have "unat (drop_bit 4 x OR push_bit 4 y) mod 16 = unat (drop_bit 4 x) mod 16" by (metis low_nibble)
    then have "(unat x + unat (drop_bit 4 x OR push_bit 4 y)) mod 16 = (unat x + unat (drop_bit 4 x)) mod 16"
      by (rule mod_add_cong [OF refl])
    then show ?thesis by (simp add: word_unat_eq_iff low_nibble unat_word_ariths mod_mod_cancel)
  qed
qed

text \<open>The three steps on one byte, and what they compute.\<close>

definition byte_pairs :: "byte \<Rightarrow> byte" where
  "byte_pairs b = (let b = b - (drop_bit 1 b AND 0x55) in (b AND 0x33) + (drop_bit 2 b AND 0x33))"

lemma byte_swar:
  "unat (drop_bit 1 b AND 0x55) \<le> unat b \<and> unat (byte_pairs b) \<le> 0x44 \<and> unat (byte_pairs b) mod 16 \<le> 4 \<and>
   unat (drop_bit 4 (byte_pairs b)) \<le> 4 \<and>
   unat ((byte_pairs b + drop_bit 4 (byte_pairs b)) AND 0x0F) = popcount_byte b"
  by (rule byte_cases) (simp add: all_less_numeral All_less_Suc byte_pairs_def popcount_byte_sum)


lemma popcount_pairs_join4:
  "popcount_pairs (join4 a b c d) = join4 (byte_pairs a) (byte_pairs b) (byte_pairs c) (byte_pairs d)"
proof -
  have le: "unat (drop_bit 1 x AND 0x55) \<le> unat x" for x :: byte using byte_swar by blast
  have small: "unat (x AND 0x33) + unat (y AND 0x33) < 256" for x y :: byte
  proof -
    have "unat (x AND 0x33) \<le> 0x33" for x :: byte
      by (rule byte_cases [of "\<lambda>x. unat (x AND 0x33) \<le> 0x33"]) (simp add: all_less_numeral All_less_Suc)
    from this [of x] this [of y] show ?thesis by simp
  qed
  have "join4 a b c d - (drop_bit 1 (join4 a b c d) AND 0x55555555) =
      join4 (a - (drop_bit 1 a AND 0x55)) (b - (drop_bit 1 b AND 0x55)) (c - (drop_bit 1 c AND 0x55)) (d - (drop_bit 1 d AND 0x55))"
    using le by (simp only: join4_masks join4_shift join4_and byte_mask_out join4_diff)
  moreover have "(join4 x y z w AND 0x33333333) + (drop_bit 2 (join4 x y z w) AND 0x33333333) =
      join4 ((x AND 0x33) + (drop_bit 2 x AND 0x33)) ((y AND 0x33) + (drop_bit 2 y AND 0x33))
        ((z AND 0x33) + (drop_bit 2 z AND 0x33)) ((w AND 0x33) + (drop_bit 2 w AND 0x33))" for x y z w
    using small by (simp only: join4_masks join4_shift join4_and byte_mask_out join4_add)
  ultimately show ?thesis by (simp add: popcount_pairs_def byte_pairs_def Let_def)
qed

lemma unat_nibbles: "unat (drop_bit 4 a OR push_bit 4 b :: byte) = unat (drop_bit 4 a) + 16 * (unat b mod 16)"
proof -
  have "unat (push_bit 4 b) = push_bit 4 (unat b mod 16)"
    by (rule byte_cases [of "\<lambda>b. unat (push_bit 4 b) = push_bit 4 (unat b mod 16)"])
      (simp add: all_less_numeral All_less_Suc)
  moreover have "unat (drop_bit 4 a) < 2 ^ 4"
    by (rule byte_cases [of "\<lambda>a. unat (drop_bit 4 a) < 2 ^ 4"]) (simp add: all_less_numeral All_less_Suc)
  ultimately show ?thesis by (simp add: unsigned_or_eq or_push_bit_nat)
qed

lemma popcount_bytes_join4:
  "popcount_bytes (popcount_pairs (join4 a b c d)) =
     join4 (of_nat (popcount_byte a)) (of_nat (popcount_byte b)) (of_nat (popcount_byte c)) (of_nat (popcount_byte d))"
proof -
  have add: "unat (byte_pairs x) + unat (drop_bit 4 (byte_pairs x) OR push_bit 4 y) < 256" if "unat y mod 16 \<le> 4" for x y
    using that byte_swar [of x] by (simp add: unat_nibbles)
  have sw: "(byte_pairs x + drop_bit 4 (byte_pairs x)) AND 0x0F = of_nat (popcount_byte x)" for x
  proof -
    have "of_nat (unat ((byte_pairs x + drop_bit 4 (byte_pairs x)) AND 0x0F)) = (of_nat (popcount_byte x) :: byte)"
      using byte_swar [of x] by simp
    then show ?thesis by simp
  qed
  have small: "unat (byte_pairs x) mod 16 \<le> 4" "unat (0 :: byte) mod 16 \<le> 4" for x using byte_swar [of x] by simp_all
  show ?thesis
    unfolding popcount_bytes_def popcount_pairs_join4 join4_masks join4_shift
      join4_add [OF add [OF small(1)] add [OF small(1)] add [OF small(1)] add [OF small(2)]] join4_and byte_mask_out sw ..
qed

lemma popcount_byte_le: "popcount_byte b \<le> 8"
  by (simp add: popcount_byte_sum of_bool_def)

text \<open>Multiplying by \<open>0x01010101\<close> adds the four bytes into the top one.\<close>

lemma sum_bytes:
  assumes "unat a + unat b + unat c + unat d < 256"
  shows "unat (drop_bit 24 (join4 a b c d * 0x01010101)) = unat a + unat b + unat c + unat d"
proof -
  let ?s = "unat a + unat b + unat c + unat d"
  let ?l = "unat a + 256 * (unat a + unat b) + 65536 * (unat a + unat b + unat c)"
  have l: "?l < 16777216" using assms by simp
  have "(unat a + 256 * unat b + 65536 * unat c + 16777216 * unat d) * 0x01010101 =
      (?l + 16777216 * ?s) + 4294967296 * ((unat b + unat c + unat d) + 256 * (unat c + unat d) + 65536 * unat d)"
    by (simp add: algebra_simps)
  then have "(unat a + 256 * unat b + 65536 * unat c + 16777216 * unat d) * 0x01010101 mod 4294967296 =
      (?l + 16777216 * ?s) mod 4294967296"
    by (metis mod_mult_self2)
  also have "\<dots> = ?l + 16777216 * ?s" using l assms by (intro mod_less) simp
  finally have "(unat a + 256 * unat b + 65536 * unat c + 16777216 * unat d) * 0x01010101 mod 4294967296 div 16777216 = ?s"
    using l by simp
  then show ?thesis by (simp add: unsigned_drop_bit_eq unat_word_ariths unat_join4 drop_bit_eq_div)
qed

definition popcount :: "bytes \<Rightarrow> nat" where
  "popcount p = sum_list (map popcount_byte p)"

lemma popcount_append: "popcount (p @ q) = popcount p + popcount q"
  by (simp add: popcount_def)

definition swar :: "bytes \<Rightarrow> nat \<Rightarrow> 32 word" where
  "swar p i = popcount_bytes (popcount_pairs (load32 p i))"

lemma swar_join4:
  assumes "length p = 28" and "i < 7"
  shows "swar p i = join4 (of_nat (popcount_byte (p ! (4 * i)))) (of_nat (popcount_byte (p ! (4 * i + 1))))
    (of_nat (popcount_byte (p ! (4 * i + 2)))) (of_nat (popcount_byte (p ! (4 * i + 3))))"
proof -
  have "load32 p i = join4 (p ! (4 * i)) (p ! (4 * i + 1)) (p ! (4 * i + 2)) (p ! (4 * i + 3))"
    using load32_join4 [of "take 4 (drop (4 * i) p)"] assms by (simp add: load32_def)
  then show ?thesis by (simp only: swar_def popcount_bytes_join4)
qed

lemma join4_of_nat_add:
  assumes "a + a' < 256" "b + b' < 256" "c + c' < 256" "d + d' < 256"
  shows "join4 (of_nat a) (of_nat b) (of_nat c) (of_nat d) + join4 (of_nat a') (of_nat b') (of_nat c') (of_nat d') =
    join4 (of_nat (a + a')) (of_nat (b + b')) (of_nat (c + c')) (of_nat (d + d'))"
  using assms by (subst join4_add) (simp_all add: unat_of_nat)

lemma popcount_block:
  assumes "length p = 28"
  shows "unat (drop_bit 24 ((swar p 0 + swar p 1 + swar p 2 + swar p 3 + swar p 4 + swar p 5 + swar p 6) * 0x01010101)) = popcount p"
proof -
  define f where "f j k = (\<Sum>i<k. popcount_byte (p ! (4 * i + j)))" for j k
  have f: "f j k \<le> 8 * k" for j k
    using sum_bounded_above [of "{..<k}" "\<lambda>i. popcount_byte (p ! (4 * i + j))" 8] popcount_byte_le by (simp add: f_def mult.commute)
  define s where "s k = join4 (of_nat (f 0 k)) (of_nat (f 1 k)) (of_nat (f 2 k)) (of_nat (f 3 k))" for k
  have fs: "f j (Suc k) = f j k + popcount_byte (p ! (4 * k + j))" for j k by (simp add: f_def)
  have s: "s k + swar p k = s (Suc k)" if "k < 7" for k
  proof -
    have b: "f j k + popcount_byte (p ! (4 * k + j)) < 256" for j using f [of j "Suc k"] fs [of j k] that by simp
    show ?thesis
      unfolding s_def swar_join4 [OF assms that] fs using b [of 0] b [of 1] b [of 2] b [of 3]
      by (subst join4_of_nat_add) (simp_all only: add_0_right)
  qed
  have "s 0 = 0" by (simp add: s_def f_def join4_def)
  then have "swar p 0 + swar p 1 + swar p 2 + swar p 3 + swar p 4 + swar p 5 + swar p 6 = s 7"
    using s [of 0] s [of 1] s [of 2] s [of 3] s [of 4] s [of 5] s [of 6]
    by (simp flip: numeral_2_eq_2)
  moreover have "unat (of_nat (f j 7) :: byte) = f j 7" for j using f [of j 7] by (simp add: unat_of_nat)
  moreover have "f 0 7 + f 1 7 + f 2 7 + f 3 7 = popcount p"
    by (simp add: f_def popcount_def sum_list_sum_nth assms atLeast0LessThan eval_nat_numeral)
  ultimately show ?thesis
    using sum_bytes [of "of_nat (f 0 7)" "of_nat (f 1 7)" "of_nat (f 2 7)" "of_nat (f 3 7)"]
      f [of 0 7] f [of 1 7] f [of 2 7] f [of 3 7] by (simp add: s_def)
qed

lemma popcount_28_correct:
  "count \<le> length p \<Longrightarrow> \<exists>k. popcount_28 p count bits = Some (bits + popcount (take k p), drop k p, count - k) \<and> k \<le> count"
proof (induction count arbitrary: p bits rule: less_induct)
  case (less count)
  show ?case
  proof (cases "count \<ge> 28")
    case False
    then show ?thesis by (intro exI [of _ 0]) (simp add: popcount_28.simps [of p count] popcount_def)
  next
    case True
    let ?q = "take 28 p"
    have load: "load32 p i = load32 ?q i" if "i < 7" for i
      using that by (simp add: load32_def drop_take min_def)
    have step: "popcount_28 p count bits = popcount_28 (drop 28 p) (count - 28) (bits + popcount ?q)"
      using True less.prems popcount_block [of ?q] by (subst popcount_28.simps) (simp add: Let_def load swar_def)
    obtain k where k: "popcount_28 (drop 28 p) (count - 28) (bits + popcount ?q) =
        Some (bits + popcount ?q + popcount (take k (drop 28 p)), drop k (drop 28 p), count - 28 - k)" "k \<le> count - 28"
      using less.IH [of "count - 28" "drop 28 p" "bits + popcount ?q"] True less.prems diff_le_mono [OF less.prems, of 28]
      by (auto simp: add.commute)
    have "take (28 + k) p = ?q @ take k (drop 28 p)" by (simp add: take_add)
    then show ?thesis using step k True by (intro exI [of _ "28 + k"]) (simp add: popcount_append add.commute)
  qed
qed

lemma popcount_head_correct:
  "count \<le> length p \<Longrightarrow> \<exists>k. popcount_head addr p count bits = Some (bits + popcount (take k p), drop k p, count - k) \<and> k \<le> count"
proof (induction addr p count bits rule: popcount_head.induct)
  case (2 addr p count bits)
  then obtain b q where p: "p = b # q" by (cases p) auto
  show ?case
  proof (cases "addr AND 3 = 0")
    case True
    then show ?thesis by (intro exI [of _ 0]) (simp add: popcount_def)
  next
    case False
    then obtain k where "popcount_head (addr + 1) q count (bits + bitsinbyte ! unat b) =
        Some (bits + bitsinbyte ! unat b + popcount (take k q), drop k q, count - k)" "k \<le> count"
      using 2 p by auto
    then show ?thesis using False p
      by (intro exI [of _ "Suc k"]) (simp add: popcount_def bitsinbyte_correct)
  qed
qed (auto simp: popcount_def)

lemma popcount_tail_correct:
  "count \<le> length p \<Longrightarrow> popcount_tail p count bits = Some (bits + popcount (take count p))"
proof (induction p count bits rule: popcount_tail.induct)
  case (2 p count bits)
  then show ?case by (cases p) (auto simp: popcount_def bitsinbyte_correct)
qed (simp add: popcount_def)

lemma redisPopcount_counts:
  assumes "count \<le> length p"
  shows "redisPopcount addr p count = Some (popcount (take count p))"
proof -
  obtain k where k: "popcount_head addr p count 0 = Some (popcount (take k p), drop k p, count - k)" "k \<le> count"
    using popcount_head_correct [OF assms, of addr 0] by auto
  obtain m where m: "popcount_28 (drop k p) (count - k) (popcount (take k p)) =
      Some (popcount (take k p) + popcount (take m (drop k p)), drop m (drop k p), count - k - m)" "m \<le> count - k"
    using popcount_28_correct [of "count - k" "drop k p"] assms by fastforce
  have "take count p = take k p @ take m (drop k p) @ take (count - k - m) (drop m (drop k p))"
    using k(2) m(2) by (metis add_diff_cancel_left' le_Suc_ex take_add)
  then show ?thesis
    using k(1) m(1) assms by (simp add: redisPopcount_def popcount_tail_correct popcount_append del: drop_drop)
qed

end
