(* ===== verification/Bitpos.thy ===== *)
theory Bitpos
  imports Bitops
begin

text \<open>
  \<^verbatim>\<open>redisBitpos\<close> of \<^verbatim>\<open>bitops.c\<close>: the search for the first bit of a kind, which skips
  unaligned bytes, then whole words, and scans the last word bit by bit.
\<close>

subsection \<open>Bit search\<close>

text \<open>
  The first loop skips bytes up to an aligned address: the flag tells that it met a byte with a
  bit of the kind searched for.
\<close>

fun bitpos_head :: "byte \<Rightarrow> nat \<Rightarrow> bytes \<Rightarrow> nat \<Rightarrow> nat \<Rightarrow> (bool \<times> bytes \<times> nat \<times> nat) option" where
  "bitpos_head skipval addr c 0 pos = Some (False, c, 0, pos)"
| "bitpos_head skipval addr c (Suc count) pos =
     (if addr AND 7 \<noteq> 0 then
        (case c of
           [] \<Rightarrow> None
         | b # c' \<Rightarrow> if b \<noteq> skipval then Some (True, c, Suc count, pos)
                     else bitpos_head skipval (addr + 1) c' count (pos + 8))
      else Some (False, c, Suc count, pos))"

function bitpos_words :: "64 word \<Rightarrow> bytes \<Rightarrow> nat \<Rightarrow> nat \<Rightarrow> (bytes \<times> nat \<times> nat) option" where
  "bitpos_words skipval c count pos =
     (if count \<ge> 8 then
        if length c < 8 then None
        else if word_of_int (le_uint (take 8 c)) \<noteq> skipval then Some (c, count, pos)
        else bitpos_words skipval (drop 8 c) (count - 8) (pos + 64)
      else Some (c, count, pos))"
  by pat_completeness auto
termination by (relation "measure (\<lambda>(_, _, count, _). count)") auto

declare bitpos_words.simps [simp del]

text \<open>The loop that loads the next bytes as a big-endian word, padded with zeros.\<close>

fun bitpos_load :: "nat \<Rightarrow> 64 word \<Rightarrow> bytes \<Rightarrow> nat \<Rightarrow> 64 word option" where
  "bitpos_load 0 wd c count = Some wd"
| "bitpos_load (Suc j) wd c count =
     (if count \<noteq> 0 then
        (case c of [] \<Rightarrow> None | b # c \<Rightarrow> bitpos_load j (push_bit 8 wd OR ucast b) c (count - 1))
      else bitpos_load j (push_bit 8 wd) c count)"

text \<open>The loop over the bits of the word; falling out of it is the panic of the code.\<close>

function bitpos_scan :: "64 word \<Rightarrow> 64 word \<Rightarrow> bool \<Rightarrow> nat \<Rightarrow> nat option" where
  "bitpos_scan one wd b01 pos =
     (if one = 0 then None
      else if ((one AND wd) \<noteq> 0) = b01 then Some pos
      else bitpos_scan (drop_bit 1 one) wd b01 (pos + 1))"
  by pat_completeness auto
termination
proof (relation "measure (\<lambda>(one, _, _, _). unat one)")
  fix one :: "64 word" and wd :: "64 word" and b01 :: bool and pos :: nat
  assume "one \<noteq> 0"
  then have "0 < unat one" by (simp add: unat_gt_0)
  moreover have "unat (drop_bit 1 one) = drop_bit 1 (unat one)" by (rule bit_eqI) (auto simp: bit_simps dest: bit_imp_le_length)
  ultimately show "((drop_bit 1 one, wd, b01, pos + 1), (one, wd, b01, pos)) \<in> measure (\<lambda>(one, _, _, _). unat one)"
    by (simp only: in_measure prod.case) (simp add: drop_bit_eq_div)
qed simp

declare bitpos_scan.simps [simp del]

definition redisBitpos :: "nat \<Rightarrow> bytes \<Rightarrow> nat \<Rightarrow> bool \<Rightarrow> int option" where
  "redisBitpos addr s count b01 = do {
     (found, c, count, pos) \<leftarrow> bitpos_head (if b01 then 0 else 255) addr s count 0;
     (c, count, pos) \<leftarrow> (if \<not> found then bitpos_words (if b01 then 0 else NOT 0) c count pos else Some (c, count, pos));
     wd \<leftarrow> bitpos_load 8 0 c count;
     if b01 \<and> wd = 0 then Some (- 1)
     else map_option int (bitpos_scan (NOT (drop_bit 1 (NOT 0))) wd b01 pos)
   }"

text \<open>The bits of a bitmap, from left to right.\<close>

definition bits_of_byte :: "byte \<Rightarrow> bool list" where
  "bits_of_byte b = map (\<lambda>j. bit b (7 - j)) [0..<8]"

definition bits_of :: "bytes \<Rightarrow> bool list" where
  "bits_of p = concat (map bits_of_byte p)"

lemma length_bits_of [simp]: "length (bits_of_byte b) = 8" "length (bits_of p) = 8 * length p"
  by (simp_all add: bits_of_byte_def bits_of_def length_concat comp_def sum_list_triv)

lemma bits_of_append: "bits_of (p @ q) = bits_of p @ bits_of q"
  by (simp add: bits_of_def)

lemma bits_of_Cons [simp]: "bits_of [] = []" "bits_of (b # p) = bits_of_byte b @ bits_of p"
  by (simp_all add: bits_of_def)

lemma bits_of_byte_skip: "(\<forall>x \<in> set (bits_of_byte b). x \<noteq> v) \<longleftrightarrow> b = (if v then 0 else 255)"
proof -
  have "[0..<8] = [0, 1, 2, 3, 4, 5, 6, 7 :: nat]" by (simp add: upt_rec)
  then have all: "(\<forall>x \<in> set (bits_of_byte b). x \<noteq> v) \<longleftrightarrow> (\<forall>n < 8. bit b n \<longleftrightarrow> \<not> v)"
    by (auto simp: bits_of_byte_def all_less_numeral All_less_Suc)
  have "\<forall>n < 8. bit (255 :: byte) n" by (simp add: all_less_numeral All_less_Suc)
  then show ?thesis unfolding all using byte_eqI [of b 255] byte_eqI [of b 0] by auto
qed

text \<open>The position of the first bit with value \<open>v\<close>, and what the function returns.\<close>

definition first_bit :: "bool \<Rightarrow> bool list \<Rightarrow> nat" where
  "first_bit v bs = length (takeWhile (\<lambda>x. x \<noteq> v) bs)"

lemma first_bit_skip: "\<forall>x \<in> set xs. x \<noteq> v \<Longrightarrow> first_bit v (xs @ ys) = length xs + first_bit v ys"
  by (simp add: first_bit_def takeWhile_append2)

definition bitpos_result :: "bool \<Rightarrow> nat \<Rightarrow> bool list \<Rightarrow> int" where
  "bitpos_result v pos bs = (if first_bit v bs < length bs \<or> \<not> v then int (pos + first_bit v bs) else - 1)"


definition skip_byte :: "bool \<Rightarrow> byte" where
  "skip_byte v = (if v then 0 else 255)"

lemma skip_byte: "(\<forall>x \<in> set (bits_of_byte b). x \<noteq> v) \<longleftrightarrow> b = skip_byte v"
  by (simp only: bits_of_byte_skip skip_byte_def)

lemma bitpos_head_correct:
  assumes "count \<le> length c"
  shows "\<exists>found k. bitpos_head (skip_byte v) addr c count pos = Some (found, drop k c, count - k, pos + 8 * k) \<and> k \<le> count \<and>
    (\<forall>x \<in> set (bits_of (take k c)). x \<noteq> v) \<and> (found \<longrightarrow> k < count \<and> c ! k \<noteq> skip_byte v)"
  using assms
proof (induction count arbitrary: addr c pos)
  case 0
  then show ?case by (intro exI [of _ False] exI [of _ 0]) simp
next
  case (Suc count)
  then obtain b q where c: "c = b # q" by (cases c) auto
  consider (aligned) "addr AND 7 = 0" | (found) "addr AND 7 \<noteq> 0" "b \<noteq> skip_byte v" | (skip) "addr AND 7 \<noteq> 0" "b = skip_byte v"
    by blast
  then show ?case
  proof cases
    case aligned
    then show ?thesis by (intro exI [of _ False] exI [of _ 0]) simp
  next
    case found
    then show ?thesis by (intro exI [of _ True] exI [of _ 0]) (simp add: c)
  next
    case skip
    obtain found k where k: "bitpos_head (skip_byte v) (addr + 1) q count (pos + 8) = Some (found, drop k q, count - k, pos + 8 + 8 * k)"
      "k \<le> count" "\<forall>x \<in> set (bits_of (take k q)). x \<noteq> v" "found \<longrightarrow> k < count \<and> q ! k \<noteq> skip_byte v"
      using Suc.IH [of q "addr + 1" "pos + 8"] Suc.prems c by auto
    have "\<forall>x \<in> set (bits_of (take (Suc k) c)). x \<noteq> v" using k(3) skip_byte [of b v] skip(2) c by auto
    then show ?thesis using k skip c by (intro exI [of _ found] exI [of _ "Suc k"]) simp
  qed
qed

lemma le_uint_inject: "length p = length q \<Longrightarrow> le_uint p = le_uint q \<Longrightarrow> p = q"
  by (metis le_bytes_le_uint)

lemma skip_word:
  assumes "length p = 8"
  shows "(word_of_int (le_uint p) :: 64 word) = (if v then 0 else NOT 0) \<longleftrightarrow> p = replicate 8 (skip_byte v)"
proof -
  have b: "uint (word_of_int (le_uint p) :: 64 word) = le_uint p"
    using le_uint_bound [of p] assms by (simp add: uint_word_of_int)
  have rep: "replicate 8 x = [x, x, x, x, x, x, x, x]" for x :: byte by (simp add: numeral_eq_Suc)
  have "uint (NOT 0 :: 64 word) = 18446744073709551615" by (simp add: unsigned_minus_1_eq_mask mask_eq_exp_minus_1)
  then have v: "uint (if v then 0 else NOT 0 :: 64 word) = le_uint (replicate 8 (skip_byte v))"
    unfolding rep by (cases v) (simp_all add: skip_byte_def)
  have "(word_of_int (le_uint p) :: 64 word) = (if v then 0 else NOT 0) \<longleftrightarrow> le_uint p = le_uint (replicate 8 (skip_byte v))"
    unfolding word_uint_eq_iff b v ..
  also have "\<dots> \<longleftrightarrow> p = replicate 8 (skip_byte v)" using le_uint_inject [of p "replicate 8 (skip_byte v)"] assms by force
  finally show ?thesis .
qed

lemma skip_bytes: "(\<forall>x \<in> set (bits_of p). x \<noteq> v) \<longleftrightarrow> p = replicate (length p) (skip_byte v)"
proof (induction p)
  case (Cons b p)
  then show ?case using skip_byte [of b v] by (auto simp: ball_Un)
qed simp

lemma bitpos_words_correct:
  assumes "count \<le> length c"
  shows "\<exists>k. bitpos_words (if v then 0 else NOT 0) c count pos = Some (drop k c, count - k, pos + 8 * k) \<and> k \<le> count \<and>
    (\<forall>x \<in> set (bits_of (take k c)). x \<noteq> v) \<and>
    (count - k < 8 \<or> (\<exists>x \<in> set (bits_of (take 8 (drop k c))). x = v))"
  using assms
proof (induction count arbitrary: c pos rule: less_induct)
  case (less count)
  have same: "word_of_int (le_uint (take 8 c)) = (if v then 0 else NOT 0 :: 64 word) \<longleftrightarrow> (\<forall>x \<in> set (bits_of (take 8 c)). x \<noteq> v)"
    if "8 \<le> count"
    using skip_word [of "take 8 c" v] skip_bytes [of "take 8 c" v] less.prems that by (simp add: min_absorb2)
  consider (short) "count < 8" | (stop) "8 \<le> count" "\<exists>x \<in> set (bits_of (take 8 c)). x = v"
    | (skip) "8 \<le> count" "\<forall>x \<in> set (bits_of (take 8 c)). x \<noteq> v" using not_le by blast
  then show ?case
  proof cases
    case short
    then show ?thesis by (intro exI [of _ 0]) (simp add: bitpos_words.simps [of _ c count])
  next
    case stop
    then show ?thesis using same less.prems by (intro exI [of _ 0]) (auto simp: bitpos_words.simps [of _ c count])
  next
    case skip
    then have step: "bitpos_words (if v then 0 else NOT 0) c count pos = bitpos_words (if v then 0 else NOT 0) (drop 8 c) (count - 8) (pos + 64)"
      using same less.prems by (subst bitpos_words.simps) simp
    obtain k where k: "bitpos_words (if v then 0 else NOT 0) (drop 8 c) (count - 8) (pos + 64) =
        Some (drop k (drop 8 c), count - 8 - k, pos + 64 + 8 * k)" "k \<le> count - 8"
      "\<forall>x \<in> set (bits_of (take k (drop 8 c))). x \<noteq> v"
      "count - 8 - k < 8 \<or> (\<exists>x \<in> set (bits_of (take 8 (drop k (drop 8 c)))). x = v)"
      using less.IH [of "count - 8" "drop 8 c" "pos + 64"] skip(1) less.prems diff_le_mono [OF less.prems, of 8]
      by (auto simp del: drop_drop)
    have "bits_of (take (8 + k) c) = bits_of (take 8 c) @ bits_of (take k (drop 8 c))"
      by (simp only: take_add bits_of_append)
    then show ?thesis using step k skip
      by (intro exI [of _ "8 + k"]) (simp add: ball_Un add.commute)
  qed
qed


text \<open>The bits of the word loaded: those of the bytes, then zeros.\<close>

lemma bitpos_load_correct:
  assumes "j \<le> 8" and "count \<le> length c"
  shows "\<exists>wd'. bitpos_load j wd c count = Some wd' \<and>
    (\<forall>n < 64. bit wd' n = (if 8 * j \<le> n then bit wd (n - 8 * j)
       else 8 * j - 1 - n < 8 * count \<and> bits_of (take count c) ! (8 * j - 1 - n)))"
  using assms
proof (induction j arbitrary: wd c count)
  case (Suc j)
  show ?case
  proof (cases count)
    case 0
    then obtain wd' where "bitpos_load j (push_bit 8 wd) c count = Some wd'"
      "\<forall>n < 64. bit wd' n = (if 8 * j \<le> n then bit (push_bit 8 wd) (n - 8 * j) else False)"
      using Suc.IH [of count c "push_bit 8 wd"] Suc.prems by auto
    then show ?thesis using 0 by (auto simp: bit_push_bit_iff add.commute)
  next
    case (Suc m)
    then obtain b q where c: "c = b # q" using Suc.prems by (cases c) auto
    let ?w = "push_bit 8 wd OR ucast b"
    obtain wd' where wd': "bitpos_load j ?w q m = Some wd'"
      "\<forall>n < 64. bit wd' n = (if 8 * j \<le> n then bit ?w (n - 8 * j)
         else 8 * j - 1 - n < 8 * m \<and> bits_of (take m q) ! (8 * j - 1 - n))"
      using Suc.IH [of m q ?w] Suc.prems Suc c by auto
    have "bit wd' n = (if 8 * Suc j \<le> n then bit wd (n - 8 * Suc j)
       else 8 * Suc j - 1 - n < 8 * count \<and> bits_of (take count c) ! (8 * Suc j - 1 - n))" if n: "n < 64" for n
    proof -
      consider (high) "8 * Suc j \<le> n" | (mid) "8 * j \<le> n" "n < 8 * Suc j" | (low) "n < 8 * j" by linarith
      then show ?thesis
      proof cases
        case high
        then have "8 \<le> n - 8 * j" "n - 8 * j < 64" "n - 8 * j - 8 = n - 8 * Suc j" "8 * j \<le> n" using n by simp_all
        then show ?thesis using wd'(2) n high by (simp only: bit_or_iff bit_push_bit_iff bit_ucast_iff byte_high) simp
      next
        case mid
        then have "8 * Suc j - 1 - n < 8" "7 - (8 * Suc j - 1 - n) = n - 8 * j" "n - 8 * j < 8" using mid by simp_all
        then show ?thesis using wd'(2) n mid Suc c
          by (simp add: bit_or_iff bit_push_bit_iff bit_ucast_iff nth_append bits_of_byte_def)
      next
        case low
        define i where "i = 8 * j - 1 - n"
        have idx: "8 * Suc j - 1 - n = 8 + i" "\<not> 8 * Suc j \<le> n" using low by (simp_all add: i_def)
        have "bit wd' n = (i < 8 * m \<and> bits_of (take m q) ! i)" using wd'(2) n low by (simp add: i_def)
        moreover have "bits_of (take count c) ! (8 + i) = bits_of (take m q) ! i" using Suc c by (simp add: nth_append)
        ultimately show ?thesis unfolding idx(1) using idx(2) Suc by simp
      qed
    qed
    then show ?thesis using wd'(1) Suc c by (intro exI [of _ wd']) simp
  qed
qed simp

lemma bitpos_scan_correct:
  assumes "k \<le> 64"
  shows "bitpos_scan (drop_bit k (push_bit 63 1)) wd v pos =
    (let bs = drop k (map (\<lambda>i. bit wd (63 - i)) [0..<64])
     in if first_bit v bs < length bs then Some (pos + first_bit v bs) else None)"
  using assms
proof (induction "64 - k" arbitrary: k pos)
  case 0
  then have "k = 64" by simp
  moreover have "drop_bit 64 (push_bit 63 1 :: 64 word) = 0" by (rule bit_word_eqI) (simp add: bit_simps)
  ultimately show ?case by (simp add: bitpos_scan.simps first_bit_def)
next
  case (Suc m)
  then have k: "k < 64" "m = 64 - Suc k" by simp_all
  define a where "a = drop_bit k (push_bit 63 1 :: 64 word)"
  have one: "bit a n \<longleftrightarrow> n = 63 - k" for n
    using k(1) unfolding a_def bit_drop_bit_eq o_apply bit_push_bit_iff bit_1_iff by auto
  have "a \<noteq> 0" using one [of "63 - k"] by auto
  moreover have "a AND wd = (if bit wd (63 - k) then a else 0)" by (rule bit_word_eqI) (auto simp: bit_and_iff one)
  moreover have "drop_bit 1 a = drop_bit (Suc k) (push_bit 63 1)" unfolding a_def drop_bit_drop_bit by simp
  ultimately have "bitpos_scan a wd v pos =
      (if bit wd (63 - k) = v then Some pos else bitpos_scan (drop_bit (Suc k) (push_bit 63 1)) wd v (pos + 1))"
    by (subst bitpos_scan.simps) auto
  then have step: "bitpos_scan (drop_bit k (push_bit 63 1)) wd v pos =
      (if bit wd (63 - k) = v then Some pos else bitpos_scan (drop_bit (Suc k) (push_bit 63 1)) wd v (pos + 1))"
    by (simp only: a_def)
  have bs: "drop k (map (\<lambda>i. bit wd (63 - i)) [0..<64]) = bit wd (63 - k) # drop (Suc k) (map (\<lambda>i. bit wd (63 - i)) [0..<64])"
    using k by (simp add: Cons_nth_drop_Suc [symmetric])
  show ?case
    unfolding step bs using Suc.hyps(1) [OF k(2), of "pos + 1"] k by (simp add: first_bit_def Let_def)
qed


text \<open>The search in the last word, and beyond it when the word holds a bit of the kind.\<close>

lemma first_bit_found: "\<exists>x \<in> set xs. x = v \<Longrightarrow> first_bit v (xs @ ys) = first_bit v xs \<and> first_bit v xs < length xs"
  by (induction xs) (auto simp: first_bit_def)

lemma first_bit_none: "\<forall>x \<in> set xs. x \<noteq> v \<Longrightarrow> first_bit v xs = length xs"
  by (simp add: first_bit_def takeWhile_eq_all_conv [THEN iffD2])

lemma bitpos_word:
  assumes len: "count \<le> length c" and stop: "count < 8 \<or> (\<exists>x \<in> set (bits_of (take 8 (take count c))). x = v)"
  shows "Option.bind (bitpos_load 8 0 c count) (\<lambda>wd. if v \<and> wd = 0 then Some (- 1)
     else map_option int (bitpos_scan (NOT (drop_bit 1 (NOT 0))) wd v pos)) =
    Some (bitpos_result v pos (bits_of (take count c)))"
proof -
  let ?p = "take 8 (take count c)" and ?r = "drop 8 (take count c)"
  obtain wd where wd: "bitpos_load 8 0 c count = Some wd"
    "\<forall>n < 64. bit wd n = (63 - n < 8 * count \<and> bits_of (take count c) ! (63 - n))"
    using bitpos_load_correct [OF _ len, of 8 0] by auto
  define bs where "bs = map (\<lambda>i. bit wd (63 - i)) [0..<64]"
  have bs: "bs = bits_of ?p @ replicate (64 - 8 * min 8 count) False"
  proof (rule nth_equalityI)
    show "length bs = length (bits_of ?p @ replicate (64 - 8 * min 8 count) False)" using len by (simp add: bs_def)
    fix i assume "i < length bs"
    then have i: "i < 64" by (simp add: bs_def)
    have split: "bits_of (take count c) = bits_of ?p @ bits_of ?r" by (metis append_take_drop_id bits_of_append)
    show "bs ! i = (bits_of ?p @ replicate (64 - 8 * min 8 count) False) ! i"
      using i wd(2) len unfolding split by (auto simp: bs_def nth_append min_def split: if_splits)
  qed
  have zero: "wd = 0 \<longleftrightarrow> (\<forall>x \<in> set bs. \<not> x)"
  proof
    assume all: "\<forall>x \<in> set bs. \<not> x"
    have "\<not> bit wd n" if "n < 64" for n
    proof -
      have "bs ! (63 - n) \<in> set bs" by (rule nth_mem) (simp add: bs_def)
      moreover have "bs ! (63 - n) = bit wd n" unfolding bs_def using that by (subst nth_map_upt) simp_all
      ultimately show ?thesis using all by auto
    qed
    then show "wd = 0" by (intro bit_word_eqI) simp
  qed (auto simp: bs_def)
  have one: "NOT (drop_bit 1 (NOT 0)) = drop_bit 0 (push_bit 63 1 :: 64 word)" by code_simp
  have scan: "bitpos_scan (NOT (drop_bit 1 (NOT 0))) wd v pos =
      (if first_bit v bs < length bs then Some (pos + first_bit v bs) else None)"
    unfolding one by (subst bitpos_scan_correct) (simp_all add: bs_def Let_def)
  have rest: "bits_of (take count c) = bits_of ?p @ bits_of ?r" by (metis append_take_drop_id bits_of_append)
  show ?thesis
  proof (cases "\<exists>x \<in> set (bits_of ?p). x = v")
    case True
    have f: "first_bit v bs = first_bit v (bits_of ?p)" "first_bit v (bits_of ?p) < length (bits_of ?p)"
      "first_bit v (bits_of (take count c)) = first_bit v (bits_of ?p)"
      using first_bit_found [OF True] unfolding bs rest by auto
    then have "first_bit v bs < length bs" by (simp add: bs_def)
    moreover have "\<not> (v \<and> wd = 0)" using True by (auto simp: zero bs)
    ultimately show ?thesis using wd(1) scan f len by (simp add: bitpos_result_def rest)
  next
    case False
    then have c8: "count < 8" using stop by blast
    then have p: "?p = take count c" by simp
    have "\<forall>x \<in> set (bits_of (take count c)). x \<noteq> v" using False unfolding p by blast
    then have none: "first_bit v (bits_of (take count c)) = 8 * count" using first_bit_none len by auto
    show ?thesis
    proof (cases v)
      case True
      then have "wd = 0" using False by (auto simp: zero bs)
      then show ?thesis using True wd(1) none len by (simp add: bitpos_result_def)
    next
      case v: False
      have m: "64 - 8 * min 8 count = Suc (63 - 8 * count)" using c8 by simp
      have "first_bit v bs = 8 * count"
        unfolding bs using False v len p by (subst first_bit_skip) (simp_all add: m first_bit_def)
      moreover have "length bs = 64" by (simp add: bs_def)
      ultimately show ?thesis using v wd(1) scan none c8 by (simp add: bitpos_result_def)
    qed
  qed
qed

lemma bitpos_result_skip:
  "\<forall>x \<in> set xs. x \<noteq> v \<Longrightarrow> bitpos_result v pos (xs @ ys) = bitpos_result v (pos + length xs) ys"
  by (cases v) (simp_all add: bitpos_result_def first_bit_skip)

lemma redisBitpos_finds:
  assumes "count \<le> length p"
  shows "redisBitpos addr p count v = Some (bitpos_result v 0 (bits_of (take count p)))"
proof -
  obtain found k where k: "bitpos_head (skip_byte v) addr p count 0 = Some (found, drop k p, count - k, 8 * k)" "k \<le> count"
    "\<forall>x \<in> set (bits_of (take k p)). x \<noteq> v" "found \<longrightarrow> k < count \<and> p ! k \<noteq> skip_byte v"
    using bitpos_head_correct [OF assms, of v addr 0] by auto
  have len: "count - k \<le> length (drop k p)" using assms by simp
  obtain m where m: "(if \<not> found then bitpos_words (if v then 0 else NOT 0) (drop k p) (count - k) (8 * k)
        else Some (drop k p, count - k, 8 * k)) = Some (drop m (drop k p), count - k - m, 8 * k + 8 * m)" "m \<le> count - k"
      "\<forall>x \<in> set (bits_of (take m (drop k p))). x \<noteq> v"
      "count - k - m < 8 \<or> (\<exists>x \<in> set (bits_of (take 8 (take (count - k - m) (drop m (drop k p))))). x = v)"
  proof (cases found)
    case True
    then have kb: "k < count" "p ! k \<noteq> skip_byte v" using k(4) by simp_all
    have "take 8 (take (count - k) (drop k p)) = p ! k # take 7 (take (count - k - 1) (drop (Suc k) p))"
      using kb(1) assms by (simp add: Cons_nth_drop_Suc [symmetric] take_Cons' numeral_eq_Suc)
    then have "\<exists>x \<in> set (bits_of (take 8 (take (count - k) (drop k p)))). x = v"
      using skip_byte [of "p ! k" v] kb(2) by auto
    then show ?thesis using that [of 0] True by simp
  next
    case False
    obtain m where m: "bitpos_words (if v then 0 else NOT 0) (drop k p) (count - k) (8 * k) =
        Some (drop m (drop k p), count - k - m, 8 * k + 8 * m)" "m \<le> count - k"
      "\<forall>x \<in> set (bits_of (take m (drop k p))). x \<noteq> v"
      "count - k - m < 8 \<or> (\<exists>x \<in> set (bits_of (take 8 (drop m (drop k p)))). x = v)"
      using bitpos_words_correct [OF len, of v "8 * k"] by (elim exE conjE)
    have "take 8 (take (count - k - m) (drop m (drop k p))) = take 8 (drop m (drop k p))" if "\<not> count - k - m < 8"
      using that by (simp add: min_def)
    then have "count - k - m < 8 \<or> (\<exists>x \<in> set (bits_of (take 8 (take (count - k - m) (drop m (drop k p))))). x = v)"
      using m(4) by (cases "count - k - m < 8") simp_all
    then show ?thesis using that [OF _ m(2,3)] m(1) False by simp
  qed
  let ?c = "drop m (drop k p)"
  have "take count p = take k p @ take m (drop k p) @ take (count - k - m) ?c"
    using k(2) m(2) take_add [of k "m + (count - k - m)" p] take_add [of m "count - k - m" "drop k p"] by simp
  then have "bitpos_result v 0 (bits_of (take count p)) = bitpos_result v (8 * k + 8 * m) (bits_of (take (count - k - m) ?c))"
    using k(2,3) m(2,3) assms by (simp add: bits_of_append bitpos_result_skip)
  then show ?thesis
    using k(1) m(1) bitpos_word [OF _ m(4), of "8 * k + 8 * m"] assms
    by (simp add: redisBitpos_def skip_byte_def del: drop_drop)
qed


text \<open>
  C37. Counting the set bits with 28-byte blocks, bit-parallel sums and a lookup table gives the
  number of bits set in the range, for every start address.
\<close>

theorem redisPopcount_correct:
  assumes "count \<le> length p"
  shows "redisPopcount addr p count = Some (length (filter id (bits_of (take count p))))"
proof -
  have "length (filter id (bits_of_byte b)) = popcount_byte b" for b
    by (simp add: bits_of_byte_def popcount_byte_sum upt_rec)
  then have "length (filter id (bits_of q)) = popcount q" for q by (induction q) (simp_all add: popcount_def)
  then show ?thesis using redisPopcount_counts [OF assms] by simp
qed

theorem redisPopcount_correct_witness: "redisPopcount 5 (replicate 40 0xF0) 33 = Some 132"
  using redisPopcount_correct [of 33 "replicate 40 0xF0" 5]
  by (simp add: bits_of_byte_def upt_rec numeral_eq_Suc)

text \<open>
  C38. The search for a bit returns the position of the first bit of the kind; without one, a search
  for a set bit returns -1 and one for a clear bit the first position behind the range. The panic
  at the end of the function is never reached.
\<close>

theorem redisBitpos_correct:
  assumes "count \<le> length p"
  shows "redisBitpos addr p count v = Some (if v \<in> set (bits_of (take count p)) \<or> \<not> v
     then int (length (takeWhile (\<lambda>x. x \<noteq> v) (bits_of (take count p)))) else - 1)"
proof -
  have "first_bit v bs < length bs \<longleftrightarrow> v \<in> set bs" for bs
    by (induction bs) (auto simp: first_bit_def)
  then show ?thesis using redisBitpos_finds [OF assms, of addr v] by (simp only: bitpos_result_def first_bit_def add_0)
qed

theorem redisBitpos_correct_witness: "redisBitpos 3 [0, 0, 0x10] 3 True = Some 19"
  using redisBitpos_correct [of 3 "[0, 0, 0x10]" 3 True] by (simp add: bits_of_byte_def upt_rec)

end
