(* ===== verification/Bitfield.thy ===== *)
theory Bitfield
  imports Bitpos Util
begin

text \<open>
  The bit fields of \<^verbatim>\<open>bitops.c\<close>: reading and writing integers of up to 64 bits at any bit
  offset, the detection of overflow, and the \<^verbatim>\<open>BITFIELD\<close> command on the object stored at a key.
  Unsigned 64-bit integers are words; \<open>int64_t\<close> values are read off them with \<open>sint\<close>, so that
  additions and subtractions wrap around.
\<close>

subsection \<open>Fields\<close>

text \<open>The loops over the bits: \<open>r\<close> is the number of bits left, \<^verbatim>\<open>bits-j\<close>.\<close>

fun setUnsigned_loop :: "bytes \<Rightarrow> nat \<Rightarrow> nat \<Rightarrow> 64 word \<Rightarrow> bytes option" where
  "setUnsigned_loop p offset 0 v = Some p"
| "setUnsigned_loop p offset (Suc r) v =
     (let bitval = (if v AND push_bit r 1 \<noteq> 0 then 1 else 0) :: 64 word;
          byte = offset div 8;
          bit = 7 - (offset AND 7)
      in if byte < length p then
           let byteval = ucast (p ! byte) :: 64 word;
               byteval = byteval AND NOT (push_bit bit 1);
               byteval = byteval OR push_bit bit bitval
           in setUnsigned_loop (p[byte := ucast (byteval AND 0xff)]) (offset + 1) r v
         else None)"

definition setUnsignedBitfield :: "bytes \<Rightarrow> nat \<Rightarrow> nat \<Rightarrow> 64 word \<Rightarrow> bytes option" where
  "setUnsignedBitfield p offset bits v = setUnsigned_loop p offset bits v"

definition setSignedBitfield :: "bytes \<Rightarrow> nat \<Rightarrow> nat \<Rightarrow> int \<Rightarrow> bytes option" where
  "setSignedBitfield p offset bits v = setUnsignedBitfield p offset bits (word_of_int v)"

fun getUnsigned_loop :: "bytes \<Rightarrow> nat \<Rightarrow> nat \<Rightarrow> 64 word \<Rightarrow> 64 word option" where
  "getUnsigned_loop p offset 0 v = Some v"
| "getUnsigned_loop p offset (Suc r) v =
     (let byte = offset div 8;
          bit = 7 - (offset AND 7)
      in if byte < length p then
           let byteval = ucast (p ! byte) :: 64 word;
               bitval = drop_bit bit byteval AND 1
           in getUnsigned_loop p (offset + 1) r (push_bit 1 v OR bitval)
         else None)"

definition getUnsignedBitfield :: "bytes \<Rightarrow> nat \<Rightarrow> nat \<Rightarrow> 64 word option" where
  "getUnsignedBitfield p offset bits = getUnsigned_loop p offset bits 0"

definition getSignedBitfield :: "bytes \<Rightarrow> nat \<Rightarrow> nat \<Rightarrow> int option" where
  "getSignedBitfield p offset bits = do {
     v \<leftarrow> getUnsignedBitfield p offset bits;
     Some (sint (if bits < 64 \<and> v AND push_bit (bits - 1) 1 \<noteq> 0 then v OR push_bit bits (- 1) else v))
   }"

subsection \<open>Overflow\<close>

datatype owtype = BFOVERFLOW_WRAP | BFOVERFLOW_SAT | BFOVERFLOW_FAIL

text \<open>The result of the checks is the value returned and \<^verbatim>\<open>*limit\<close>, if it was set.\<close>

definition checkUnsignedBitfieldOverflow :: "64 word \<Rightarrow> int \<Rightarrow> nat \<Rightarrow> owtype \<Rightarrow> int \<times> 64 word option" where
  "checkUnsignedBitfieldOverflow v incr bits owtype =
     (let max = (if bits = 64 then - 1 else push_bit bits 1 - 1) :: 64 word;
          maxincr = sint (max - v);
          minincr = sint (- v);
          handle_wrap = (1, Some ((v + word_of_int incr) AND NOT (push_bit bits (- 1))))
      in if v > max \<or> (incr > 0 \<and> incr > maxincr) then
           (case owtype of BFOVERFLOW_WRAP \<Rightarrow> handle_wrap | BFOVERFLOW_SAT \<Rightarrow> (1, Some max) | BFOVERFLOW_FAIL \<Rightarrow> (1, None))
         else if incr < 0 \<and> incr < minincr then
           (case owtype of BFOVERFLOW_WRAP \<Rightarrow> handle_wrap | BFOVERFLOW_SAT \<Rightarrow> (- 1, Some 0) | BFOVERFLOW_FAIL \<Rightarrow> (- 1, None))
         else (0, None))"

definition checkSignedBitfieldOverflow :: "int \<Rightarrow> int \<Rightarrow> nat \<Rightarrow> owtype \<Rightarrow> int \<times> int option" where
  "checkSignedBitfieldOverflow v incr bits owtype =
     (let max = (if bits = 64 then LLONG_MAX else sint (push_bit (bits - 1) 1 - 1 :: 64 word));
          min = (- max) - 1;
          maxincr = sint (word_of_int (max - v) :: 64 word);
          minincr = sint (word_of_int (min - v) :: 64 word);
          handle_wrap =
            (let msb = push_bit (bits - 1) 1;
                 c = word_of_int v + word_of_int incr :: 64 word;
                 msk = push_bit bits (- 1);
                 c = (if bits < 64 then if c AND msb \<noteq> 0 then c OR msk else c AND NOT msk else c)
             in (1, Some (sint c)))
      in if v > max \<or> (bits \<noteq> 64 \<and> incr > maxincr) \<or> (v \<ge> 0 \<and> incr > 0 \<and> incr > maxincr) then
           (case owtype of BFOVERFLOW_WRAP \<Rightarrow> handle_wrap | BFOVERFLOW_SAT \<Rightarrow> (1, Some max) | BFOVERFLOW_FAIL \<Rightarrow> (1, None))
         else if v < min \<or> (bits \<noteq> 64 \<and> incr < minincr) \<or> (v < 0 \<and> incr < 0 \<and> incr < minincr) then
           (case owtype of BFOVERFLOW_WRAP \<Rightarrow> handle_wrap | BFOVERFLOW_SAT \<Rightarrow> (- 1, Some min) | BFOVERFLOW_FAIL \<Rightarrow> (- 1, None))
         else (0, None))"

subsection \<open>Reading what was written\<close>

lemma nth_bits_of: "i < 8 * length p \<Longrightarrow> bits_of p ! i = bit (p ! (i div 8)) (7 - i mod 8)"
proof (induction p arbitrary: i)
  case (Cons b p)
  show ?case
  proof (cases "i < 8")
    case True
    then show ?thesis by (simp add: nth_append bits_of_byte_def)
  next
    case False
    then have "i = 8 + (i - 8)" by simp
    then have "i div 8 = Suc ((i - 8) div 8)" "i mod 8 = (i - 8) mod 8" by (metis div_add_self1 zero_neq_numeral add.commute Suc_eq_plus1 mod_add_self1)+
    then show ?thesis using False Cons by (simp add: nth_append)
  qed
qed simp

lemma and_7: "(n :: nat) AND 7 = n mod 8"
  using take_bit_eq_mask [of 3 n] by (simp add: take_bit_eq_mod mask_eq_exp_minus_1)

lemma bits_of_update:
  assumes "i < 8 * length p" and "\<And>n. n < 8 \<Longrightarrow> bit b n = (if n = 7 - i mod 8 then c else bit (p ! (i div 8)) n)"
  shows "bits_of (p[i div 8 := b]) = (bits_of p)[i := c]"
proof (rule nth_equalityI)
  fix j assume "j < length (bits_of (p[i div 8 := b]))"
  then have j: "j < 8 * length p" by simp
  have i8: "i div 8 < length p" using assms(1) by (simp add: less_mult_imp_div_less mult.commute)
  show "bits_of (p[i div 8 := b]) ! j = (bits_of p)[i := c] ! j"
  proof (cases "j div 8 = i div 8")
    case True
    have "(7 - j mod 8 = 7 - i mod 8) = (j mod 8 = i mod 8)"
      using mod_less_divisor [of 8 j] mod_less_divisor [of 8 i] by arith
    then have "(7 - j mod 8 = 7 - i mod 8) = (j = i)" using True by (metis div_mult_mod_eq)
    then show ?thesis
      using True j i8 assms(2) [of "7 - j mod 8"] assms(1) by (auto simp: nth_bits_of nth_list_update)
  next
    case False
    then show ?thesis using j by (auto simp: nth_bits_of nth_list_update)
  qed
qed simp

lemma set_bit_byte:
  assumes "k < 8" and "n < 8"
  shows "bit (ucast ((((ucast b :: 64 word) AND NOT (push_bit k 1)) OR push_bit k (if c then 1 else 0)) AND 0xff) :: byte) n =
    (if n = k then c else bit (b :: byte) n)"
proof -
  have "\<forall>n < 8. bit (0xff :: 64 word) n" by (simp add: all_less_numeral All_less_Suc)
  then show ?thesis using assms by (auto simp: bit_simps)
qed

lemma setUnsigned_loop_correct:
  assumes "offset + r \<le> 8 * length p"
  shows "\<exists>p'. setUnsigned_loop p offset r v = Some p' \<and> length p' = length p \<and>
    (\<forall>i < 8 * length p. bits_of p' ! i = (if offset \<le> i \<and> i < offset + r then bit v (offset + r - 1 - i) else bits_of p ! i))"
  using assms
proof (induction r arbitrary: p offset)
  case (Suc r)
  define b where "b = (ucast ((((ucast (p ! (offset div 8)) :: 64 word) AND NOT (push_bit (7 - offset mod 8) 1)) OR
        push_bit (7 - offset mod 8) (if bit v r then 1 else 0)) AND 0xff) :: byte)"
  let ?q = "p[offset div 8 := b]"
  have off: "offset < 8 * length p" "offset div 8 < length p" using Suc.prems by auto
  have step: "setUnsigned_loop p offset (Suc r) v = setUnsigned_loop ?q (offset + 1) r v"
    using off(2) by (simp only: setUnsigned_loop.simps Let_def and_7 b_def if_True bit_iff_and_push_bit_not_eq_0 [symmetric])
  have "bits_of ?q = (bits_of p)[offset := bit v r]"
    by (rule bits_of_update [OF off(1)]) (unfold b_def, rule set_bit_byte, simp_all)
  moreover obtain p' where p': "setUnsigned_loop ?q (offset + 1) r v = Some p'" "length p' = length p"
    "\<forall>i < 8 * length p. bits_of p' ! i = (if offset + 1 \<le> i \<and> i < offset + 1 + r then bit v (offset + 1 + r - 1 - i) else bits_of ?q ! i)"
    using Suc.IH [of "offset + 1" ?q] Suc.prems by auto
  ultimately have "bits_of p' ! i = (if offset \<le> i \<and> i < offset + Suc r then bit v (offset + Suc r - 1 - i) else bits_of p ! i)"
    if "i < 8 * length p" for i
    using that by (cases "i = offset") (auto simp: nth_list_update)
  then show ?case using p'(1,2) step by auto
qed auto

lemma getUnsigned_loop_correct:
  assumes "offset + r \<le> 8 * length p" and "r \<le> 64"
  shows "\<exists>w. getUnsigned_loop p offset r v = Some w \<and>
    (\<forall>n < 64. bit w n = (if n < r then bits_of p ! (offset + r - 1 - n) else bit v (n - r)))"
  using assms
proof (induction r arbitrary: v offset)
  case (Suc r)
  define u where "u = push_bit 1 v OR (drop_bit (7 - offset mod 8) (ucast (p ! (offset div 8)) :: 64 word) AND 1)"
  have off: "offset < 8 * length p" "offset div 8 < length p" using Suc.prems by auto
  have u: "bit u n = (if n = 0 then bits_of p ! offset else n < 64 \<and> bit v (n - 1))" for n
    using off unfolding u_def bit_or_iff bit_push_bit_iff by (auto simp: bit_simps nth_bits_of)
  have step: "getUnsigned_loop p offset (Suc r) v = getUnsigned_loop p (offset + 1) r u"
    using off(2) by (simp only: getUnsigned_loop.simps Let_def and_7 u_def if_True)
  obtain w where w: "getUnsigned_loop p (offset + 1) r u = Some w"
    "\<forall>n < 64. bit w n = (if n < r then bits_of p ! (offset + 1 + r - 1 - n) else bit u (n - r))"
    using Suc.IH [of "offset + 1" u] Suc.prems by auto
  have "bit w n = (if n < Suc r then bits_of p ! (offset + Suc r - 1 - n) else bit v (n - Suc r))" if "n < 64" for n
  proof -
    consider "n < r" | "n = r" | "r < n" by linarith
    then show ?thesis using that w(2) by cases (auto simp: u)
  qed
  then show ?case using w(1) step by auto
qed simp


text \<open>The value of a field, most significant bit first.\<close>

definition field_bits :: "bytes \<Rightarrow> nat \<Rightarrow> nat \<Rightarrow> bool list" where
  "field_bits p offset bits = take bits (drop offset (bits_of p))"

lemma get_after_set:
  assumes "offset + bits \<le> 8 * length p" and "bits \<le> 64"
  shows "\<exists>p'. setUnsignedBitfield p offset bits v = Some p' \<and> length p' = length p \<and>
    getUnsignedBitfield p' offset bits = Some (take_bit bits v) \<and>
    (\<forall>i < 8 * length p. i < offset \<or> offset + bits \<le> i \<longrightarrow> bits_of p' ! i = bits_of p ! i)"
proof -
  obtain p' where p': "setUnsignedBitfield p offset bits v = Some p'" "length p' = length p"
    "\<forall>i < 8 * length p. bits_of p' ! i = (if offset \<le> i \<and> i < offset + bits then bit v (offset + bits - 1 - i) else bits_of p ! i)"
    using setUnsigned_loop_correct [OF assms(1), of v] by (auto simp: setUnsignedBitfield_def)
  obtain w where w: "getUnsignedBitfield p' offset bits = Some w"
    "\<forall>n < 64. bit w n = (if n < bits then bits_of p' ! (offset + bits - 1 - n) else False)"
    using getUnsigned_loop_correct [of offset bits p' 0] assms p'(2) by (auto simp: getUnsignedBitfield_def)
  have "w = take_bit bits v"
  proof (rule bit_word_eqI)
    fix n assume "n < LENGTH(64)"
    then show "bit w n = bit (take_bit bits v) n" using w(2) p'(3) assms by (auto simp: bit_take_bit_iff)
  qed
  then show ?thesis using p' w(1) by auto
qed

text \<open>Sign extension of the low bits.\<close>

lemma sint_extend:
  assumes "0 < bits" and "bits \<le> 64"
  shows "sint (if bits < 64 \<and> (take_bit bits w :: 64 word) AND push_bit (bits - 1) 1 \<noteq> 0
      then take_bit bits w OR push_bit bits (- 1) else take_bit bits w) = signed_take_bit (bits - 1) (uint w)"
proof (rule bit_eqI)
  fix n :: nat
  have test: "(take_bit bits w AND push_bit (bits - 1) 1 \<noteq> 0) = bit w (bits - 1)"
    using assms by (simp only: bit_iff_and_push_bit_not_eq_0 [symmetric] bit_take_bit_iff) auto
  show "bit (sint (if bits < 64 \<and> take_bit bits w AND push_bit (bits - 1) 1 \<noteq> 0
      then take_bit bits w OR push_bit bits (- 1) else take_bit bits w)) n = bit (signed_take_bit (bits - 1) (uint w)) n"
  proof -
    obtain m where m: "bits = Suc m" using assms(1) by (cases bits) auto
    have top: "62 < m \<Longrightarrow> m = 63" using assms(2) m by simp
    consider "n < m" | "n = m" | "m < n" by linarith
    then show ?thesis
      unfolding test using assms m
      by cases (auto simp: bit_sint_iff bit_signed_take_bit_iff bit_or_iff bit_take_bit_iff bit_uint_iff min_def
          bit_not_iff bit_mask_iff dest: top)
  qed
qed


lemma signed_take_bit_word:
  assumes "0 < bits" and "bits \<le> 64"
  shows "signed_take_bit (bits - 1) (uint (word_of_int v :: 64 word)) = signed_take_bit (bits - 1) v"
  using assms by (intro bit_eqI) (auto simp: bit_signed_take_bit_iff bit_uint_iff bit_word_of_int_iff min_def)

lemma get_signed_after_set:
  assumes "offset + bits \<le> 8 * length p" and "0 < bits" and "bits \<le> 64"
  shows "\<exists>p'. setSignedBitfield p offset bits v = Some p' \<and> length p' = length p \<and>
    getSignedBitfield p' offset bits = Some (signed_take_bit (bits - 1) v) \<and>
    (\<forall>i < 8 * length p. i < offset \<or> offset + bits \<le> i \<longrightarrow> bits_of p' ! i = bits_of p ! i)"
proof -
  obtain p' where p': "setSignedBitfield p offset bits v = Some p'" "length p' = length p"
    "getUnsignedBitfield p' offset bits = Some (take_bit bits (word_of_int v))"
    "\<forall>i < 8 * length p. i < offset \<or> offset + bits \<le> i \<longrightarrow> bits_of p' ! i = bits_of p ! i"
    using get_after_set [OF assms(1,3), of "word_of_int v"] by (auto simp: setSignedBitfield_def)
  then show ?thesis
    using sint_extend [OF assms(2,3), of "word_of_int v"] signed_take_bit_word [OF assms(2,3), of v]
    by (simp add: getSignedBitfield_def)
qed

subsection \<open>The overflow checks\<close>

lemma sint_of_int: "in_int64 v \<Longrightarrow> sint (word_of_int v :: 64 word) = v"
  by (simp add: sint_sbintrunc' signed_take_bit_int_eq_self in_int64_def)

lemma mask_word: "n \<le> 64 \<Longrightarrow> uint (mask n :: 64 word) = 2 ^ n - 1"
proof -
  assume "n \<le> 64"
  then have "uint (mask n :: 64 word) = mask n" by (intro bit_eqI) (auto simp: bit_uint_iff bit_mask_iff)
  then show ?thesis by (simp add: mask_eq_exp_minus_1)
qed

lemma wrap_bits:
  assumes "bits \<le> 64"
  shows "(word_of_int s :: 64 word) AND NOT (push_bit bits (- 1)) = word_of_int (s mod 2 ^ bits)"
proof -
  have "s mod 2 ^ bits = take_bit bits s" by (simp add: take_bit_eq_mod)
  then show ?thesis using assms
    by (intro bit_word_eqI) (auto simp: bit_and_iff bit_not_iff bit_push_bit_iff bit_word_of_int_iff bit_take_bit_iff bit_mask_iff)
qed

lemma check_unsigned:
  fixes v :: "64 word"
  assumes bits: "0 < bits" "bits \<le> 63" and incr: "in_int64 incr" and v: "uint v < 2 ^ bits \<or> incr = 0"
  shows "checkUnsignedBitfieldOverflow v incr bits ow =
    (let s = uint v + incr; top = 2 ^ bits - 1 in
     if 0 \<le> s \<and> s \<le> top then (0, None)
     else case ow of
        BFOVERFLOW_WRAP \<Rightarrow> (1, Some (word_of_int (s mod 2 ^ bits)))
      | BFOVERFLOW_SAT \<Rightarrow> if s > top then (1, Some (word_of_int top)) else (- 1, Some 0)
      | BFOVERFLOW_FAIL \<Rightarrow> (if s > top then 1 else - 1, None))"
proof -
  have "(2 :: int) ^ bits \<le> 2 ^ 63" using bits by (intro power_increasing) auto
  then have pow: "(2 :: int) ^ bits \<le> 9223372036854775808" by simp
  define m where "m = (push_bit bits 1 - 1 :: 64 word)"
  have "m = mask bits" by (simp add: m_def mask_eq_exp_minus_1)
  then have m: "uint m = 2 ^ bits - 1" using mask_word [of bits] bits by simp
  have word_of_m: "2 ^ bits - 1 = m" by (simp add: m_def)
  have mdef: "(if bits = 64 then - 1 else push_bit bits 1 - 1) = m" using bits by (simp add: m_def)
  have wrap: "(v + word_of_int incr) AND NOT (push_bit bits (- 1)) = word_of_int ((uint v + incr) mod 2 ^ bits)"
    using wrap_bits [of bits "uint v + incr"] bits by simp
  show ?thesis
  proof (cases "uint v < 2 ^ bits")
    case True
    have nn: "0 \<le> uint v" by simp
    have r: "in_int64 (uint m - uint v)" "in_int64 (- uint v)"
      unfolding in_int64_def by (intro conjI; use True pow m nn in linarith)+
    have "m - v = word_of_int (uint m - uint v)" "- v = word_of_int (- uint v)" by simp_all
    then have max: "sint (m - v) = 2 ^ bits - 1 - uint v" and min: "sint (- v) = - uint v"
      using sint_of_int [OF r(1)] sint_of_int [OF r(2)] m by metis+
    have "\<not> v > m" using True m by (simp add: word_less_def)
    then show ?thesis using bits True unfolding checkUnsignedBitfieldOverflow_def Let_def wrap mdef
      by (auto simp: max min word_of_m split: owtype.splits)
  next
    case False
    then have "incr = 0" "v > m" using v m by (auto simp: word_less_def)
    then show ?thesis using bits False unfolding checkUnsignedBitfieldOverflow_def Let_def wrap mdef
      by (auto simp: word_of_m split: owtype.splits)
  qed
qed


lemma wrap_sign:
  assumes "0 < bits" and "bits \<le> 64"
  shows "sint (if bits < 64 then if (word_of_int s :: 64 word) AND push_bit (bits - 1) 1 \<noteq> 0 then word_of_int s OR push_bit bits (- 1)
      else word_of_int s AND NOT (push_bit bits (- 1)) else (word_of_int s :: 64 word)) = signed_take_bit (bits - 1) s"
proof -
  let ?w = "word_of_int s :: 64 word" and ?m = "push_bit bits (- 1) :: 64 word"
  have low: "take_bit bits ?w = ?w AND NOT ?m"
    by (rule bit_word_eqI) (auto simp: bit_and_iff bit_not_iff bit_take_bit_iff bit_mask_iff)
  have "take_bit bits ?w OR ?m = ?w OR ?m"
    by (rule bit_word_eqI) (auto simp: bit_or_iff bit_not_iff bit_take_bit_iff bit_mask_iff)
  moreover have "(take_bit bits ?w AND push_bit (bits - 1) 1 \<noteq> 0) = (?w AND push_bit (bits - 1) 1 \<noteq> 0)"
    using assms by (simp only: bit_iff_and_push_bit_not_eq_0 [symmetric] bit_take_bit_iff) auto
  moreover have "bits = 64 \<Longrightarrow> take_bit bits ?w = ?w" by (auto intro!: bit_word_eqI simp: bit_take_bit_iff)
  ultimately show ?thesis
    using sint_extend [OF assms, of ?w] signed_take_bit_word [OF assms, of s] assms(2) low
    by (cases "bits = 64") (simp_all split: if_splits)
qed

text \<open>
  The signed check subtracts in \<open>int64_t\<close>: for a value to store that is below the range by more
  than \<open>LLONG_MAX\<close> the subtraction wraps around and the underflow is taken for an overflow.
\<close>

lemma check_signed:
  assumes bits: "0 < bits" "bits \<le> 64" and v: "in_int64 v" "in_int64 incr"
    and range: "- (2 ^ (bits - 1)) \<le> v \<and> v < 2 ^ (bits - 1) \<or> incr = 0"
  shows "checkSignedBitfieldOverflow v incr bits ow =
    (let s = v + incr; top = 2 ^ (bits - 1) - 1 in
     if - top - 1 \<le> s \<and> s \<le> top then (0, None)
     else case ow of
        BFOVERFLOW_WRAP \<Rightarrow> (1, Some (signed_take_bit (bits - 1) s))
      | BFOVERFLOW_SAT \<Rightarrow> if s > top \<or> bits \<noteq> 64 \<and> top - v > LLONG_MAX then (1, Some top) else (- 1, Some (- top - 1))
      | BFOVERFLOW_FAIL \<Rightarrow> (if s > top \<or> bits \<noteq> 64 \<and> top - v > LLONG_MAX then 1 else - 1, None))"
proof -
  define top :: int where "top = 2 ^ (bits - 1) - 1"
  have "(2 :: int) ^ (bits - 1) \<le> 2 ^ 63" using bits by (intro power_increasing) auto
  then have pow: "0 \<le> top" "top \<le> LLONG_MAX" by (simp_all add: top_def)
  have topdef: "(if bits = 64 then LLONG_MAX else sint (push_bit (bits - 1) 1 - 1 :: 64 word)) = top"
  proof (cases "bits = 64")
    case False
    have "push_bit (bits - 1) 1 - 1 = (word_of_int top :: 64 word)" by (simp add: top_def)
    then show ?thesis using False sint_of_int [of top] pow by (simp add: in_int64_def)
  qed (simp add: top_def)
  have wrap: "sint (if bits < 64 then if (word_of_int v + word_of_int incr :: 64 word) AND push_bit (bits - 1) 1 \<noteq> 0
      then (word_of_int v + word_of_int incr) OR push_bit bits (- 1)
      else (word_of_int v + word_of_int incr) AND NOT (push_bit bits (- 1))
      else (word_of_int v + word_of_int incr :: 64 word)) = signed_take_bit (bits - 1) (v + incr)"
    using wrap_sign [OF bits, of "v + incr"] by (simp only: wi_hom_add)
  have sub: "sint (word_of_int x :: 64 word) = (if x \<le> LLONG_MAX then x else x - 2 ^ 64)" if "LLONG_MIN \<le> x" "x < 2 ^ 64" for x
  proof (cases "x \<le> LLONG_MAX")
    case True
    then show ?thesis using that sint_of_int [of x] by (simp add: in_int64_def)
  next
    case False
    have "(x + 2 ^ 63) mod 2 ^ 64 = (x + 2 ^ 63 - 2 ^ 64) mod 2 ^ 64" by (rule minus_mod_self2 [symmetric])
    also have "\<dots> = x + 2 ^ 63 - 2 ^ 64" using False that by (intro mod_pos_pos_trivial) simp_all
    finally show ?thesis using False by (simp add: int_word_sint)
  qed
  define maxincr where "maxincr = sint (word_of_int (top - v) :: 64 word)"
  define minincr where "minincr = sint (word_of_int (- top - 1 - v) :: 64 word)"
  have vr: "LLONG_MIN \<le> v" "v \<le> LLONG_MAX" using v(1) by (simp_all add: in_int64_def)
  have max: "maxincr = (if top - v \<le> LLONG_MAX then top - v else top - v - 2 ^ 64)"
    unfolding maxincr_def by (rule sub) (use pow vr in simp_all)
  have min: "minincr = - top - 1 - v" if "v \<le> top" "bits \<noteq> 64 \<or> v < 0"
  proof -
    have "LLONG_MIN \<le> - top - 1 - v"
    proof (cases "bits = 64")
      case True
      then show ?thesis using that pow by simp
    next
      case False
      then have "(2 :: int) ^ (bits - 1) \<le> 2 ^ 62" using bits by (intro power_increasing) auto
      then show ?thesis using that(1) by (simp add: top_def)
    qed
    moreover have "- top - 1 - v \<le> LLONG_MAX" using pow vr by simp
    ultimately show ?thesis unfolding minincr_def by (intro sint_of_int) (simp add: in_int64_def)
  qed
  have inr: "top - v \<le> LLONG_MAX" if "bits \<noteq> 64" "- top - 1 \<le> v"
  proof -
    have "(2 :: int) ^ (bits - 1) \<le> 2 ^ 62" using bits that(1) by (intro power_increasing) auto
    then show ?thesis using that(2) by (simp add: top_def)
  qed
  have top64: "top = LLONG_MAX" if "bits = 64" using that by (simp add: top_def)
  have ir: "LLONG_MIN \<le> incr" "incr \<le> LLONG_MAX" using v(2) by (simp_all add: in_int64_def)
  have rng: "- top - 1 \<le> v \<and> v \<le> top \<or> incr = 0" using range by (auto simp: top_def)
  have over: "(v > top \<or> (bits \<noteq> 64 \<and> incr > maxincr) \<or> (v \<ge> 0 \<and> incr > 0 \<and> incr > maxincr)) \<longleftrightarrow>
      v + incr > top \<or> bits \<noteq> 64 \<and> top - v > LLONG_MAX"
  proof (cases "bits = 64")
    case True
    then show ?thesis using max rng pow top64 vr ir by auto
  next
    case False
    then show ?thesis using max rng inr vr pow by auto
  qed
  have under: "(v < (- top) - 1 \<or> (bits \<noteq> 64 \<and> incr < minincr) \<or> (v < 0 \<and> incr < 0 \<and> incr < minincr)) \<longleftrightarrow> v + incr < - top - 1"
    if "\<not> (v + incr > top \<or> bits \<noteq> 64 \<and> top - v > LLONG_MAX)"
  proof (cases "v \<le> top")
    case True
    then show ?thesis using min rng ir vr top64 by (cases "bits = 64") auto
  next
    case False
    then show ?thesis using rng that by auto
  qed
  have "minincr = sint (word_of_int ((- top) - 1 - v) :: 64 word)" by (simp add: minincr_def)
  then show ?thesis
    unfolding checkSignedBitfieldOverflow_def Let_def topdef wrap maxincr_def [symmetric] top_def [symmetric] over
    using under inr pow rng by (auto split: owtype.splits)
qed

end
