(* ===== verification/Bitops_Commands.thy ===== *)
theory Bitops_Commands
  imports Bitfield
begin

text \<open>
  The commands of \<^verbatim>\<open>bitops.c\<close>. A command is a function of its arguments, which are strings, and
  of the object found at its key, if any. Its effect is the reply, the object stored afterwards
  and the number of changes counted in \<^verbatim>\<open>server.dirty\<close>. The limit
  \<^verbatim>\<open>server.proto_max_bulk_len\<close> and the addresses of the strings are arguments.
\<close>

datatype robj = StrObj bytes | IntObj int | OtherObj nat

datatype reply = RInt int | RErr string | RArray "int option list" | RWrongType

record effect =
  e_reply :: reply
  e_object :: "robj option"
  e_dirty :: nat

definition reject :: "robj option \<Rightarrow> string \<Rightarrow> effect" where
  "reject obj msg = \<lparr>e_reply = RErr msg, e_object = obj, e_dirty = 0\<rparr>"

definition answer :: "robj option \<Rightarrow> reply \<Rightarrow> effect" where
  "answer obj r = \<lparr>e_reply = r, e_object = obj, e_dirty = 0\<rparr>"

abbreviation err_offset :: string where "err_offset \<equiv> ''bit offset is not an integer or out of range''"
abbreviation err_type :: string where
  "err_type \<equiv> ''Invalid bitfield type. Use something like i16 u8. Note that u64 is not supported but i64 is.''"
abbreviation err_value :: string where "err_value \<equiv> ''value is not an integer or out of range''"
abbreviation err_syntax :: string where "err_syntax \<equiv> ''syntax error''"

text \<open>The part of a string that C string functions see, and comparison without case.\<close>

definition c_str :: "string \<Rightarrow> string" where
  "c_str s = takeWhile (\<lambda>c. c \<noteq> NUL) s"

definition strcaseeq :: "string \<Rightarrow> string \<Rightarrow> bool" where
  "strcaseeq a b \<longleftrightarrow> map (tolower \<circ> int_of_char) (c_str a) = map (tolower \<circ> int_of_char) (c_str b)"

subsection \<open>Objects and arguments\<close>

definition getObjectReadOnlyString :: "robj \<Rightarrow> bytes option" where
  "getObjectReadOnlyString obj =
     (case obj of
        StrObj b \<Rightarrow> Some b
      | IntObj v \<Rightarrow> (case ll2string (replicate 21 NUL) 21 v of (buf, n) \<Rightarrow> Some (map of_char (take n buf)))
      | OtherObj _ \<Rightarrow> None)"

definition getLongFromObjectOrReply :: "string \<Rightarrow> int option" where
  "getLongFromObjectOrReply s = string2ll s"

definition getBitOffsetFromArgument :: "nat \<Rightarrow> string \<Rightarrow> bool \<Rightarrow> nat \<Rightarrow> nat option" where
  "getBitOffsetFromArgument proto_max_bulk_len s hash bits =
     (let usehash = (s \<noteq> [] \<and> hd s = CHR ''#'' \<and> hash \<and> bits > 0) in do {
        loffset \<leftarrow> string2ll (if usehash then tl s else s);
        let loffset = (if usehash then sint (word_of_int (loffset * int bits) :: 64 word) else loffset);
        if loffset < 0 \<or> loffset div 8 \<ge> int proto_max_bulk_len then None else Some (nat loffset)
      })"

definition getBitfieldTypeFromArgument :: "string \<Rightarrow> (bool \<times> nat) option" where
  "getBitfieldTypeFromArgument s =
     (if s \<noteq> [] \<and> (hd s = CHR ''i'' \<or> hd s = CHR ''u'') then
        let sign = (hd s = CHR ''i'') in do {
          llbits \<leftarrow> string2ll (c_str (tl s));
          if llbits < 1 \<or> (sign \<and> llbits > 64) \<or> (\<not> sign \<and> llbits > 63) then None else Some (sign, nat llbits)
        }
      else None)"

text \<open>The object that a writing command works on, as its bytes; \<open>None\<close> for a wrong type.\<close>

definition lookupStringForBitCommand :: "robj option \<Rightarrow> nat \<Rightarrow> bytes option" where
  "lookupStringForBitCommand obj maxbit =
     (let byte = maxbit div 8 in
      case obj of
        None \<Rightarrow> Some (replicate (byte + 1) 0)
      | Some ob \<Rightarrow> map_option (\<lambda>b. b @ replicate (byte + 1 - length b) 0) (getObjectReadOnlyString ob))"

subsection \<open>SETBIT, GETBIT, BITCOUNT and BITPOS\<close>

definition setbitCommand :: "nat \<Rightarrow> robj option \<Rightarrow> string \<Rightarrow> string \<Rightarrow> effect" where
  "setbitCommand maxlen obj arg2 arg3 =
     (case getBitOffsetFromArgument maxlen arg2 False 0 of
        None \<Rightarrow> reject obj err_offset
      | Some bitoffset \<Rightarrow>
          (case getLongFromObjectOrReply arg3 of
             None \<Rightarrow> reject obj ''bit is not an integer or out of range''
           | Some on \<Rightarrow>
               if on \<noteq> 0 \<and> on \<noteq> 1 then reject obj ''bit is not an integer or out of range''
               else
                 (case lookupStringForBitCommand obj bitoffset of
                    None \<Rightarrow> answer obj RWrongType
                  | Some p \<Rightarrow>
                      let byte = bitoffset div 8;
                          byteval = ucast (p ! byte) :: 32 word;
                          bit = 7 - (bitoffset AND 7);
                          bitval = byteval AND push_bit bit 1;
                          byteval = byteval AND NOT (push_bit bit 1);
                          byteval = byteval OR push_bit bit (word_of_int on AND 1)
                      in \<lparr>e_reply = RInt (if bitval \<noteq> 0 then 1 else 0),
                          e_object = Some (StrObj (p[byte := ucast byteval])), e_dirty = 1\<rparr>)))"

definition getbitCommand :: "nat \<Rightarrow> robj option \<Rightarrow> string \<Rightarrow> effect" where
  "getbitCommand maxlen obj arg2 =
     (case getBitOffsetFromArgument maxlen arg2 False 0 of
        None \<Rightarrow> reject obj err_offset
      | Some bitoffset \<Rightarrow>
          (case obj of
             None \<Rightarrow> answer obj (RInt 0)
           | Some ob \<Rightarrow>
               (case getObjectReadOnlyString ob of
                  None \<Rightarrow> answer obj RWrongType
                | Some p \<Rightarrow>
                    let byte = bitoffset div 8;
                        bit = 7 - (bitoffset AND 7);
                        bitval = (if byte < length p then p ! byte AND push_bit bit 1 else 0)
                    in answer obj (RInt (if bitval \<noteq> 0 then 1 else 0)))))"

text \<open>The conversion of negative indexes, shared by the two commands with a byte range.\<close>

definition byte_range :: "int \<Rightarrow> int \<Rightarrow> int \<Rightarrow> int \<times> int" where
  "byte_range strlen start end1 =
     (let start = (if start < 0 then strlen + start else start);
          end1 = (if end1 < 0 then strlen + end1 else end1);
          start = (if start < 0 then 0 else start);
          end1 = (if end1 < 0 then 0 else end1);
          end1 = (if end1 \<ge> strlen then strlen - 1 else end1)
      in (start, end1))"

definition bitcountCommand :: "nat \<Rightarrow> robj option \<Rightarrow> string list \<Rightarrow> effect option" where
  "bitcountCommand addr obj args =
     (case obj of
        None \<Rightarrow> Some (answer obj (RInt 0))
      | Some ob \<Rightarrow>
          (case getObjectReadOnlyString ob of
             None \<Rightarrow> Some (answer obj RWrongType)
           | Some p \<Rightarrow>
               let strlen = int (length p);
                   count = (\<lambda>(start, end1).
                     if start > end1 then Some (answer obj (RInt 0))
                     else map_option (\<lambda>n. answer obj (RInt (int n)))
                       (redisPopcount (addr + nat start) (drop (nat start) p) (nat (end1 - start + 1))))
               in case args of
                    [] \<Rightarrow> count (0, strlen - 1)
                  | [a, b] \<Rightarrow>
                      (case getLongFromObjectOrReply a of
                         None \<Rightarrow> Some (reject obj err_value)
                       | Some start \<Rightarrow>
                           (case getLongFromObjectOrReply b of
                              None \<Rightarrow> Some (reject obj err_value)
                            | Some end1 \<Rightarrow>
                                if start < 0 \<and> end1 < 0 \<and> start > end1 then Some (answer obj (RInt 0))
                                else count (byte_range strlen start end1)))
                  | _ \<Rightarrow> Some (reject obj err_syntax)))"

definition bitposCommand :: "nat \<Rightarrow> robj option \<Rightarrow> string \<Rightarrow> string list \<Rightarrow> effect option" where
  "bitposCommand addr obj arg2 args =
     (case getLongFromObjectOrReply arg2 of
        None \<Rightarrow> Some (reject obj err_value)
      | Some b01 \<Rightarrow>
          if b01 \<noteq> 0 \<and> b01 \<noteq> 1 then Some (reject obj ''The bit argument must be 1 or 0.'')
          else
            (case obj of
               None \<Rightarrow> Some (answer obj (RInt (if b01 = 1 then - 1 else 0)))
             | Some ob \<Rightarrow>
                 (case getObjectReadOnlyString ob of
                    None \<Rightarrow> Some (answer obj RWrongType)
                  | Some p \<Rightarrow>
                      let strlen = int (length p);
                          search = (\<lambda>end_given (start, end1).
                            if start > end1 then Some (answer obj (RInt (- 1)))
                            else
                              let bytes = end1 - start + 1 in
                              map_option (\<lambda>pos.
                                if end_given \<and> b01 = 0 \<and> pos = bytes * 8 then answer obj (RInt (- 1))
                                else answer obj (RInt (if pos \<noteq> - 1 then pos + start * 8 else pos)))
                              (redisBitpos (addr + nat start) (drop (nat start) p) (nat bytes) (b01 = 1)))
                      in case args of
                           [] \<Rightarrow> search False (0, strlen - 1)
                         | [a] \<Rightarrow>
                             (case getLongFromObjectOrReply a of
                                None \<Rightarrow> Some (reject obj err_value)
                              | Some start \<Rightarrow> search False (byte_range strlen start (strlen - 1)))
                         | [a, b] \<Rightarrow>
                             (case getLongFromObjectOrReply a of
                                None \<Rightarrow> Some (reject obj err_value)
                              | Some start \<Rightarrow>
                                  (case getLongFromObjectOrReply b of
                                     None \<Rightarrow> Some (reject obj err_value)
                                   | Some end1 \<Rightarrow> search True (byte_range strlen start end1)))
                         | _ \<Rightarrow> Some (reject obj err_syntax))))"

subsection \<open>BITOP\<close>

datatype bitop = BITOP_AND | BITOP_OR | BITOP_XOR | BITOP_NOT

definition parse_bitop :: "string \<Rightarrow> bitop option" where
  "parse_bitop s =
     (if strcaseeq s ''and'' then Some BITOP_AND
      else if strcaseeq s ''or'' then Some BITOP_OR
      else if strcaseeq s ''xor'' then Some BITOP_XOR
      else if strcaseeq s ''not'' then Some BITOP_NOT
      else None)"

text \<open>
  The loop over the source keys: their strings, and the largest and smallest length. A missing
  key is an empty string and sets the smallest length to 0.
\<close>

fun bitop_sources :: "nat \<Rightarrow> robj option list \<Rightarrow> nat \<Rightarrow> nat \<Rightarrow> (bytes list \<times> nat \<times> nat) option" where
  "bitop_sources j [] maxlen minlen = Some ([], maxlen, minlen)"
| "bitop_sources j (None # objs) maxlen minlen =
     map_option (\<lambda>(src, l). ([] # src, l)) (bitop_sources (j + 1) objs maxlen 0)"
| "bitop_sources j (Some ob # objs) maxlen minlen =
     (case getObjectReadOnlyString ob of
        None \<Rightarrow> None
      | Some b \<Rightarrow>
          let maxlen = (if length b > maxlen then length b else maxlen);
              minlen = (if j = 0 \<or> length b < minlen then length b else minlen)
          in map_option (\<lambda>(src, l). (b # src, l)) (bitop_sources (j + 1) objs maxlen minlen))"

text \<open>Access to a string as 64-bit words.\<close>

definition load64 :: "bytes \<Rightarrow> nat \<Rightarrow> 64 word" where
  "load64 p i = word_of_int (le_uint (take 8 (drop i p)))"

definition store64 :: "bytes \<Rightarrow> nat \<Rightarrow> 64 word \<Rightarrow> bytes" where
  "store64 p i w = mem_write i (le_bytes 8 (uint w)) p"

definition word_op :: "bitop \<Rightarrow> 'a::len word \<Rightarrow> 'a word \<Rightarrow> 'a word" where
  "word_op op a b = (case op of BITOP_AND \<Rightarrow> a AND b | BITOP_OR \<Rightarrow> a OR b | BITOP_XOR \<Rightarrow> a XOR b | BITOP_NOT \<Rightarrow> a)"

text \<open>The body of the loop over the other sources, which combines four words at offset \<open>j\<close>.\<close>

definition combine4 :: "bitop \<Rightarrow> nat \<Rightarrow> bytes \<Rightarrow> bytes \<Rightarrow> bytes" where
  "combine4 op j lp res =
     fold (\<lambda>k res. store64 res (j + 8 * k) (word_op op (load64 res (j + 8 * k)) (load64 lp (j + 8 * k)))) [0, 1, 2, 3] res"

definition not4 :: "nat \<Rightarrow> bytes \<Rightarrow> bytes" where
  "not4 j res = fold (\<lambda>k res. store64 res (j + 8 * k) (NOT (load64 res (j + 8 * k)))) [0, 1, 2, 3] res"

function bitop_fast :: "bitop \<Rightarrow> bytes list \<Rightarrow> nat \<Rightarrow> nat \<Rightarrow> bytes \<Rightarrow> bytes \<times> nat" where
  "bitop_fast op srcs j minlen res =
     (if minlen \<ge> 32 then
        let res = (if op = BITOP_NOT then not4 j res else fold (combine4 op j) srcs res)
        in bitop_fast op srcs (j + 32) (minlen - 32) res
      else (res, j))"
  by pat_completeness auto
termination by (relation "measure (\<lambda>(_, _, _, minlen, _). minlen)") auto

declare bitop_fast.simps [simp del]

text \<open>The inner loop over one byte of the other sources, with its early exits.\<close>

fun bitop_byte :: "bitop \<Rightarrow> nat \<Rightarrow> bytes list \<Rightarrow> byte \<Rightarrow> byte" where
  "bitop_byte op j [] out = out"
| "bitop_byte op j (s # srcs) out =
     (let byte = (if length s \<le> j then 0 else s ! j);
          out = word_op op out byte;
          skip = (case op of BITOP_AND \<Rightarrow> out = 0 | BITOP_OR \<Rightarrow> out = 0xff | _ \<Rightarrow> False)
      in if skip then out else bitop_byte op j srcs out)"

function bitop_slow :: "bitop \<Rightarrow> bytes list \<Rightarrow> nat \<Rightarrow> nat \<Rightarrow> bytes \<Rightarrow> bytes" where
  "bitop_slow op srcs maxlen j res =
     (if j < maxlen then
        let s0 = hd srcs;
            out = (if length s0 \<le> j then 0 else s0 ! j);
            out = (if op = BITOP_NOT then NOT out else out)
        in bitop_slow op srcs maxlen (j + 1) (res[j := bitop_byte op j (tl srcs) out])
      else res)"
  by pat_completeness auto
termination by (relation "measure (\<lambda>(_, _, maxlen, j, _). maxlen - j)") auto

declare bitop_slow.simps [simp del]

text \<open>The resulting string: the fast path copies the first source and works on whole words.\<close>

definition bitop_compute :: "bitop \<Rightarrow> bytes list \<Rightarrow> nat \<Rightarrow> nat \<Rightarrow> bytes" where
  "bitop_compute op srcs maxlen minlen =
     (let res = replicate maxlen 0;
          (res, j) = (if minlen \<ge> 32 \<and> length srcs \<le> 16
             then bitop_fast op (tl srcs) 0 minlen (mem_write 0 (take minlen (hd srcs)) res)
             else (res, 0))
      in bitop_slow op srcs maxlen j res)"

definition bitopCommand :: "string \<Rightarrow> robj option \<Rightarrow> robj option list \<Rightarrow> effect" where
  "bitopCommand opname target objs =
     (case parse_bitop opname of
        None \<Rightarrow> reject target err_syntax
      | Some op \<Rightarrow>
          if op = BITOP_NOT \<and> length objs \<noteq> 1 then reject target ''BITOP NOT must be called with a single source key.''
          else
            (case bitop_sources 0 objs 0 0 of
               None \<Rightarrow> answer target RWrongType
             | Some (srcs, maxlen, minlen) \<Rightarrow>
                 if maxlen \<noteq> 0 then
                   \<lparr>e_reply = RInt (int maxlen), e_object = Some (StrObj (bitop_compute op srcs maxlen minlen)), e_dirty = 1\<rparr>
                 else \<lparr>e_reply = RInt 0, e_object = None, e_dirty = (if target = None then 0 else 1)\<rparr>))"

subsection \<open>BITFIELD\<close>

datatype opcode = BITFIELDOP_GET | BITFIELDOP_SET | BITFIELDOP_INCRBY

record bitfieldOp =
  bf_offset :: nat
  bf_i64 :: int
  bf_opcode :: opcode
  bf_owtype :: owtype
  bf_bits :: nat
  bf_sign :: bool

definition parse_field :: "nat \<Rightarrow> string \<Rightarrow> string \<Rightarrow> string + (bool \<times> nat \<times> nat)" where
  "parse_field maxlen ty off =
     (case getBitfieldTypeFromArgument ty of
        None \<Rightarrow> Inl err_type
      | Some (sign, bits) \<Rightarrow>
          (case getBitOffsetFromArgument maxlen off True bits of
             None \<Rightarrow> Inl err_offset
           | Some offset \<Rightarrow> Inr (sign, bits, offset)))"

text \<open>
  The parsing loop: an error, or the operations, whether all of them are reads, and the highest
  bit written.
\<close>

fun bitfield_parse ::
  "nat \<Rightarrow> string list \<Rightarrow> owtype \<Rightarrow> bitfieldOp list \<Rightarrow> bool \<Rightarrow> nat \<Rightarrow> string + (bitfieldOp list \<times> bool \<times> nat)" where
  "bitfield_parse maxlen [] ow ops readonly highest = Inr (ops, readonly, highest)"
| "bitfield_parse maxlen (subcmd # rest) ow ops readonly highest =
     (if strcaseeq subcmd ''get'' \<and> length rest \<ge> 2 then
        (case parse_field maxlen (rest ! 0) (rest ! 1) of
           Inl e \<Rightarrow> Inl e
         | Inr (sign, bits, offset) \<Rightarrow>
             bitfield_parse maxlen (drop 2 rest) ow
               (ops @ [\<lparr>bf_offset = offset, bf_i64 = 0, bf_opcode = BITFIELDOP_GET, bf_owtype = ow, bf_bits = bits, bf_sign = sign\<rparr>])
               readonly highest)
      else if (strcaseeq subcmd ''set'' \<or> strcaseeq subcmd ''incrby'') \<and> length rest \<ge> 3 then
        (case parse_field maxlen (rest ! 0) (rest ! 1) of
           Inl e \<Rightarrow> Inl e
         | Inr (sign, bits, offset) \<Rightarrow>
             (case string2ll (rest ! 2) of
                None \<Rightarrow> Inl err_value
              | Some i64 \<Rightarrow>
                  bitfield_parse maxlen (drop 3 rest) ow
                    (ops @ [\<lparr>bf_offset = offset, bf_i64 = i64,
                             bf_opcode = (if strcaseeq subcmd ''set'' then BITFIELDOP_SET else BITFIELDOP_INCRBY),
                             bf_owtype = ow, bf_bits = bits, bf_sign = sign\<rparr>])
                    False (max highest (offset + bits - 1))))
      else if strcaseeq subcmd ''overflow'' \<and> length rest \<ge> 1 then
        (if strcaseeq (rest ! 0) ''wrap'' then bitfield_parse maxlen (drop 1 rest) BFOVERFLOW_WRAP ops readonly highest
         else if strcaseeq (rest ! 0) ''sat'' then bitfield_parse maxlen (drop 1 rest) BFOVERFLOW_SAT ops readonly highest
         else if strcaseeq (rest ! 0) ''fail'' then bitfield_parse maxlen (drop 1 rest) BFOVERFLOW_FAIL ops readonly highest
         else Inl ''Invalid OVERFLOW type specified'')
      else Inl err_syntax)"

text \<open>SET and INCRBY: the new string, and the value replied, \<open>None\<close> for a null reply.\<close>

definition bitfield_write :: "bitfieldOp \<Rightarrow> bytes \<Rightarrow> (bytes \<times> int option) option" where
  "bitfield_write op p =
     (let off = bf_offset op; bits = bf_bits op; i64 = bf_i64 op; ow = bf_owtype op;
          incr = (bf_opcode op = BITFIELDOP_INCRBY)
      in if bf_sign op then do {
           oldval \<leftarrow> getSignedBitfield p off bits;
           let newval = (if incr then sint (word_of_int (oldval + i64) :: 64 word) else i64);
           let (overflow, wrapped) = (if incr then checkSignedBitfieldOverflow oldval i64 bits ow
                                      else checkSignedBitfieldOverflow newval 0 bits ow);
           let newval = (if overflow \<noteq> 0 then (case wrapped of Some w \<Rightarrow> w | None \<Rightarrow> newval) else newval);
           let retval = (if incr then newval else oldval);
           if \<not> (overflow \<noteq> 0 \<and> ow = BFOVERFLOW_FAIL) then do {
             p \<leftarrow> setSignedBitfield p off bits newval;
             Some (p, Some retval)
           } else Some (p, None)
         } else do {
           oldval \<leftarrow> getUnsignedBitfield p off bits;
           let newval = (if incr then oldval + word_of_int i64 else word_of_int i64);
           let (overflow, wrapped) = (if incr then checkUnsignedBitfieldOverflow oldval i64 bits ow
                                      else checkUnsignedBitfieldOverflow newval 0 bits ow);
           let newval = (if overflow \<noteq> 0 then (case wrapped of Some w \<Rightarrow> w | None \<Rightarrow> newval) else newval);
           let retval = (if incr then newval else oldval);
           if \<not> (overflow \<noteq> 0 \<and> ow = BFOVERFLOW_FAIL) then do {
             p \<leftarrow> setUnsignedBitfield p off bits newval;
             Some (p, Some (sint retval))
           } else Some (p, None)
         })"

text \<open>GET copies up to nine bytes to a buffer padded with zeros and reads the field there.\<close>

definition bitfield_get :: "bitfieldOp \<Rightarrow> bytes \<Rightarrow> int option" where
  "bitfield_get op src =
     (let byte = bf_offset op div 8;
          buf = map (\<lambda>i. if i + byte \<ge> length src then 0 else src ! (i + byte)) [0..<9];
          off = bf_offset op - byte * 8
      in if bf_sign op then getSignedBitfield buf off (bf_bits op)
         else map_option sint (getUnsignedBitfield buf off (bf_bits op)))"

fun bitfield_exec :: "bitfieldOp list \<Rightarrow> bytes \<Rightarrow> int option list \<Rightarrow> nat \<Rightarrow> (bytes \<times> int option list \<times> nat) option" where
  "bitfield_exec [] p replies changes = Some (p, replies, changes)"
| "bitfield_exec (op # ops) p replies changes =
     (if bf_opcode op = BITFIELDOP_GET then do {
        v \<leftarrow> bitfield_get op p;
        bitfield_exec ops p (replies @ [Some v]) changes
      } else do {
        (p, r) \<leftarrow> bitfield_write op p;
        bitfield_exec ops p (replies @ [r]) (changes + 1)
      })"

definition bitfieldGeneric :: "nat \<Rightarrow> bool \<Rightarrow> robj option \<Rightarrow> string list \<Rightarrow> effect option" where
  "bitfieldGeneric maxlen ro_flag obj args =
     (case bitfield_parse maxlen args BFOVERFLOW_WRAP [] True 0 of
        Inl e \<Rightarrow> Some (reject obj e)
      | Inr (ops, readonly, highest) \<Rightarrow>
          if readonly then
            (case (case obj of None \<Rightarrow> Some [] | Some ob \<Rightarrow> getObjectReadOnlyString ob) of
               None \<Rightarrow> Some (answer obj RWrongType)
             | Some p \<Rightarrow> map_option (\<lambda>(p, replies, changes). answer obj (RArray replies)) (bitfield_exec ops p [] 0))
          else if ro_flag then Some (reject obj ''BITFIELD_RO only supports the GET subcommand'')
          else
            (case lookupStringForBitCommand obj highest of
               None \<Rightarrow> Some (answer obj RWrongType)
             | Some p \<Rightarrow>
                 map_option (\<lambda>(p, replies, changes).
                     \<lparr>e_reply = RArray replies, e_object = Some (StrObj p), e_dirty = changes\<rparr>)
                   (bitfield_exec ops p [] 0)))"


definition bitfieldCommand :: "nat \<Rightarrow> robj option \<Rightarrow> string list \<Rightarrow> effect option" where
  "bitfieldCommand maxlen obj args = bitfieldGeneric maxlen False obj args"

definition bitfieldroCommand :: "nat \<Rightarrow> robj option \<Rightarrow> string list \<Rightarrow> effect option" where
  "bitfieldroCommand maxlen obj args = bitfieldGeneric maxlen True obj args"

end
