(* ===== verification/Bitop_Proof.thy ===== *)
theory Bitop_Proof
  imports Bitops_Commands
begin

text \<open>
  \<^verbatim>\<open>BITOP\<close>: the word-wise fast path, the early exits and the loop over the bytes compute the
  bytewise combination of the sources, padded with zeros.
\<close>

subsection \<open>Words and their bytes\<close>

lemma bit_le_uint: "bit (le_uint p) n \<longleftrightarrow> n div 8 < length p \<and> bit (p ! (n div 8)) (n mod 8)"
proof (induction p arbitrary: n)
  case (Cons b p)
  have "uint b AND push_bit 8 (le_uint p) = 0" by (rule bit_eqI) (auto simp: bit_and_iff bit_push_bit_iff bit_uint_iff byte_high)
  then have "uint b + 256 * le_uint p = uint b OR push_bit 8 (le_uint p)"
    using disjunctive_add_eq_or [of "uint b" "push_bit 8 (le_uint p)"] by (simp add: push_bit_eq_mult mult.commute)
  then have bit: "bit (le_uint (b # p)) n = (n < 8 \<and> bit b n \<or> 8 \<le> n \<and> bit (le_uint p) (n - 8))"
    by (auto simp: bit_or_iff bit_push_bit_iff bit_uint_iff)
  show ?case
  proof (cases "n < 8")
    case True
    then show ?thesis by (simp only: bit) simp
  next
    case False
    then obtain m where "n = m + 8" by (metis add.commute le_iff_add not_le)
    then show ?thesis unfolding bit using Cons [of m] div_add_self2 [of 8 m] by simp
  qed
qed simp

lemma bit_nth_le_bytes: "i < n \<Longrightarrow> k < 8 \<Longrightarrow> bit (le_bytes n v ! i) k \<longleftrightarrow> bit v (8 * i + k)"
proof (induction n arbitrary: i v)
  case (Suc n)
  have "v div 256 = drop_bit 8 v" by (simp add: drop_bit_eq_div)
  then show ?case using Suc by (cases i) (auto simp: bit_word_of_int_iff bit_drop_bit_eq algebra_simps)
qed simp

lemma word_op_bit: "n < LENGTH('a::len) \<Longrightarrow> bit (word_op op (a :: 'a word) b) n =
    (case op of BITOP_AND \<Rightarrow> bit a n \<and> bit b n | BITOP_OR \<Rightarrow> bit a n \<or> bit b n | BITOP_XOR \<Rightarrow> bit a n \<noteq> bit b n | BITOP_NOT \<Rightarrow> bit a n)"
  by (simp add: word_op_def bit_and_iff bit_or_iff bit_xor_iff split: bitop.splits)

lemma word_op_bytes:
  assumes "length a = 8" and "length b = 8" and "i < 8"
  shows "le_bytes 8 (uint (word_op op (word_of_int (le_uint a) :: 64 word) (word_of_int (le_uint b)))) ! i = word_op op (a ! i) (b ! i)"
    and "le_bytes 8 (uint (NOT (word_of_int (le_uint a) :: 64 word))) ! i = NOT (a ! i)"
proof -
  have d: "(8 * i + k) div 8 = i" "(8 * i + k) mod 8 = k" "8 * i + k < 64" if "k < 8" for k using that assms(3) by simp_all
  have w: "bit (word_of_int (le_uint p) :: 64 word) (8 * i + k) = bit (p ! i) k" if "k < 8" "length p = 8" for k p
    using that d [OF that(1)] assms(3) by (simp add: bit_word_of_int_iff bit_le_uint)
  show "le_bytes 8 (uint (word_op op (word_of_int (le_uint a) :: 64 word) (word_of_int (le_uint b)))) ! i = word_op op (a ! i) (b ! i)"
  proof (rule bit_word_eqI)
    fix k assume "k < LENGTH(8)"
    then have k: "k < 8" by simp
    show "bit (le_bytes 8 (uint (word_op op (word_of_int (le_uint a) :: 64 word) (word_of_int (le_uint b)))) ! i) k = bit (word_op op (a ! i) (b ! i)) k"
      using k d [OF k] w [OF k] assms by (simp add: bit_nth_le_bytes bit_uint_iff word_op_bit split: bitop.splits)
  qed
  show "le_bytes 8 (uint (NOT (word_of_int (le_uint a) :: 64 word))) ! i = NOT (a ! i)"
  proof (rule bit_word_eqI)
    fix k assume "k < LENGTH(8)"
    then have k: "k < 8" by simp
    show "bit (le_bytes 8 (uint (NOT (word_of_int (le_uint a) :: 64 word))) ! i) k = bit (NOT (a ! i)) k"
      using k d [OF k] w [OF k] assms by (simp add: bit_nth_le_bytes bit_uint_iff bit_not_iff)
  qed
qed

subsection \<open>Four words at a time\<close>

lemma load64_take: "i + 8 \<le> length p \<Longrightarrow> length (take 8 (drop i p)) = 8"
  by simp

lemma store64_op:
  assumes "i + 8 \<le> length res" and "i + 8 \<le> length lp"
  shows "store64 res i (word_op op (load64 res i) (load64 lp i)) =
    map (\<lambda>m. if i \<le> m \<and> m < i + 8 then word_op op (res ! m) (lp ! m) else res ! m) [0..<length res]"
    and "store64 res i (NOT (load64 res i)) =
    map (\<lambda>m. if i \<le> m \<and> m < i + 8 then NOT (res ! m) else res ! m) [0..<length res]"
proof -
  have "length (store64 res i w) = length res" for w by (simp add: store64_def length_mem_write assms)
  moreover have "store64 res i w ! m = (if i \<le> m \<and> m < i + 8 then le_bytes 8 (uint w) ! (m - i) else res ! m)" if "m < length res" for m w
    using that assms(1) by (simp add: store64_def nth_mem_write)
  moreover have "take 8 (drop i p) ! (m - i) = p ! m" if "i \<le> m" "m < i + 8" "i + 8 \<le> length p" for m and p :: bytes
    using that by simp
  ultimately show "store64 res i (word_op op (load64 res i) (load64 lp i)) =
      map (\<lambda>m. if i \<le> m \<and> m < i + 8 then word_op op (res ! m) (lp ! m) else res ! m) [0..<length res]"
    and "store64 res i (NOT (load64 res i)) =
      map (\<lambda>m. if i \<le> m \<and> m < i + 8 then NOT (res ! m) else res ! m) [0..<length res]"
    using assms
    by (auto intro!: nth_equalityI simp: load64_def word_op_bytes(1) word_op_bytes(2) [where b = "replicate 8 0"])
qed

text \<open>The bytes of four words.\<close>

definition update32 :: "(byte \<Rightarrow> nat \<Rightarrow> byte) \<Rightarrow> nat \<Rightarrow> bytes \<Rightarrow> bytes" where
  "update32 f j res = map (\<lambda>m. if j \<le> m \<and> m < j + 32 then f (res ! m) m else res ! m) [0..<length res]"

lemma combine4_bytes:
  assumes "j + 32 \<le> length res" and "j + 32 \<le> length lp"
  shows "combine4 op j lp res = update32 (\<lambda>x m. word_op op x (lp ! m)) j res"
  using assms by (intro nth_equalityI) (auto simp: combine4_def store64_op update32_def)

lemma not4_bytes:
  assumes "j + 32 \<le> length res"
  shows "not4 j res = update32 (\<lambda>x m. NOT x) j res"
  using assms by (intro nth_equalityI) (auto simp: not4_def store64_op(2) [where lp = res] update32_def)


text \<open>The combination of the bytes at one position.\<close>

definition byte_at :: "bytes \<Rightarrow> nat \<Rightarrow> byte" where
  "byte_at s j = (if length s \<le> j then 0 else s ! j)"

definition combined :: "bitop \<Rightarrow> bytes list \<Rightarrow> nat \<Rightarrow> byte" where
  "combined op srcs j =
     (if op = BITOP_NOT then NOT (byte_at (hd srcs) j)
      else foldl (word_op op) (byte_at (hd srcs) j) (map (\<lambda>s. byte_at s j) (tl srcs)))"

lemma fold_combine4:
  assumes "j + 32 \<le> length res" and "\<forall>s \<in> set srcs. j + 32 \<le> length s"
  shows "fold (combine4 op j) srcs res = update32 (\<lambda>x m. foldl (word_op op) x (map (\<lambda>s. byte_at s m) srcs)) j res"
  using assms
proof (induction srcs arbitrary: res)
  case Nil
  then show ?case by (auto intro!: nth_equalityI simp: update32_def)
next
  case (Cons s srcs)
  have len: "length (combine4 op j s res) = length res" using Cons.prems by (simp add: combine4_bytes update32_def)
  show ?case
    using Cons len by (auto intro!: nth_equalityI simp: combine4_bytes update32_def byte_at_def)
qed

lemma bitop_byte_foldl: "op \<noteq> BITOP_NOT \<Longrightarrow> bitop_byte op j srcs x = foldl (word_op op) x (map (\<lambda>s. byte_at s j) srcs)"
proof (induction srcs arbitrary: x)
  case (Cons s srcs)
  have zero: "foldl (word_op BITOP_AND) 0 (map (\<lambda>s. byte_at s j) srcs) = 0"
    by (induction srcs) (simp_all add: word_op_def)
  have all: "0xff OR b = 0xff" for b :: byte by (rule byte_cases) (simp add: all_less_numeral All_less_Suc)
  have ones: "foldl (word_op BITOP_OR) 0xff (map (\<lambda>s. byte_at s j) srcs) = 0xff"
    by (induction srcs) (simp_all add: word_op_def all)
  show ?case
    using Cons zero ones by (cases op) (auto simp: Let_def byte_at_def)
qed simp

lemma bitop_slow_bytes:
  assumes "length res = maxlen" and "j \<le> maxlen" and "srcs \<noteq> []" and "op = BITOP_NOT \<longrightarrow> length srcs = 1"
  shows "bitop_slow op srcs maxlen j res = take j res @ map (combined op srcs) [j..<maxlen]"
  using assms(1,2)
proof (induction "maxlen - j" arbitrary: j res)
  case 0
  then show ?case by (simp add: bitop_slow.simps [of _ _ _ j])
next
  case (Suc n)
  then have j: "j < maxlen" by simp
  let ?b = "combined op srcs j"
  have "bitop_slow op srcs maxlen j res = bitop_slow op srcs maxlen (j + 1) (res[j := ?b])"
  proof -
    have "bitop_byte op j (tl srcs) (if op = BITOP_NOT then NOT (byte_at (hd srcs) j) else byte_at (hd srcs) j) = ?b"
      using assms(3,4) bitop_byte_foldl [of op j "tl srcs"] by (cases srcs) (auto simp: combined_def)
    then show ?thesis using j unfolding byte_at_def by (subst bitop_slow.simps) (auto simp: Let_def)
  qed
  also have "\<dots> = take (j + 1) (res[j := ?b]) @ map (combined op srcs) [j + 1..<maxlen]"
    using Suc.hyps(1) [of "j + 1" "res[j := ?b]"] Suc.hyps(2) Suc.prems by simp
  also have "take (j + 1) (res[j := ?b]) = take j res @ [?b]" using j Suc.prems by (simp add: take_Suc_conv_app_nth)
  finally show ?case using j by (simp add: upt_conv_Cons)
qed

lemma bitop_fast_bytes:
  assumes "length res = maxlen" and "j + minlen \<le> maxlen" and "\<forall>s \<in> set (s0 # srcs). j + minlen \<le> length s"
    and "\<forall>m. j \<le> m \<and> m < j + minlen \<longrightarrow> res ! m = s0 ! m"
    and "\<forall>m < j. res ! m = combined op (s0 # srcs) m" and "op = BITOP_NOT \<longrightarrow> srcs = []"
  shows "\<exists>res' j'. bitop_fast op srcs j minlen res = (res', j') \<and> length res' = maxlen \<and> j' \<le> maxlen \<and>
    (\<forall>m < j'. res' ! m = combined op (s0 # srcs) m)"
  using assms(1-5)
proof (induction minlen arbitrary: j res rule: less_induct)
  case (less minlen)
  show ?case
  proof (cases "minlen \<ge> 32")
    case False
    then have "bitop_fast op srcs j minlen res = (res, j)" by (subst bitop_fast.simps) simp
    then show ?thesis using less.prems by auto
  next
    case True
    define f where "f x m = (if op = BITOP_NOT then NOT x else foldl (word_op op) x (map (\<lambda>s. byte_at s m) srcs))" for x m
    let ?res = "update32 f j res"
    have "(if op = BITOP_NOT then not4 j res else fold (combine4 op j) srcs res) = ?res"
      using less.prems True fold_combine4 [of j res srcs op] by (fastforce simp: not4_bytes f_def [abs_def])
    then have step: "bitop_fast op srcs j minlen res = bitop_fast op srcs (j + 32) (minlen - 32) ?res"
      using True by (subst bitop_fast.simps) simp
    have len: "length ?res = maxlen" using less.prems by (simp add: update32_def)
    have nth: "?res ! m = (if j \<le> m \<and> m < j + 32 then f (res ! m) m else res ! m)" if "m < maxlen" for m
      using that less.prems by (simp add: update32_def)
    have "?res ! m = combined op (s0 # srcs) m" if m: "m < j + 32" for m
    proof (cases "m < j")
      case True
      then show ?thesis using nth [of m] less.prems m by simp
    next
      case False
      then have "res ! m = byte_at s0 m" using less.prems m True by (simp add: byte_at_def)
      then show ?thesis using False m nth [of m] less.prems True by (simp add: f_def combined_def)
    qed
    moreover have "\<forall>m. j + 32 \<le> m \<and> m < j + 32 + (minlen - 32) \<longrightarrow> ?res ! m = s0 ! m"
      using nth less.prems True by simp
    ultimately show ?thesis
      using less.IH [of "minlen - 32" ?res "j + 32"] True less.prems len unfolding step by simp
  qed
qed

lemma bitop_compute_bytes:
  assumes "srcs \<noteq> []" and "op = BITOP_NOT \<longrightarrow> length srcs = 1" and "\<forall>s \<in> set srcs. minlen \<le> length s \<and> length s \<le> maxlen"
  shows "bitop_compute op srcs maxlen minlen = map (combined op srcs) [0..<maxlen]"
proof -
  obtain s0 rest where srcs: "srcs = s0 # rest" using assms(1) by (cases srcs) auto
  have slow: "bitop_slow op srcs maxlen j res = map (combined op srcs) [0..<maxlen]"
    if "length res = maxlen" "j \<le> maxlen" "\<forall>m < j. res ! m = combined op srcs m" for res j
  proof -
    have "take j res = map (combined op srcs) [0..<j]" using that by (intro nth_equalityI) auto
    then show ?thesis
      using bitop_slow_bytes [OF that(1,2) assms(1,2)] upt_add_eq_append [of 0 j "maxlen - j"] that(2) by simp
  qed
  show ?thesis
  proof (cases "minlen \<ge> 32 \<and> length srcs \<le> 16")
    case False
    then show ?thesis using slow [of "replicate maxlen 0" 0] by (auto simp: bitop_compute_def Let_def)
  next
    case True
    define res where "res = mem_write 0 (take minlen s0) (replicate maxlen (0 :: byte))"
    have len: "length res = maxlen" using assms(3) srcs by (auto simp: res_def length_mem_write)
    have "\<forall>m. m < minlen \<longrightarrow> res ! m = s0 ! m" using assms(3) srcs by (auto simp: res_def nth_mem_write)
    then obtain res' j' where "bitop_fast op rest 0 minlen res = (res', j')" "length res' = maxlen" "j' \<le> maxlen"
      "\<forall>m < j'. res' ! m = combined op (s0 # rest) m"
      using bitop_fast_bytes [of res maxlen 0 minlen s0 rest op] len assms(2,3) srcs by auto
    then show ?thesis using slow [of res' j'] True srcs by (simp add: bitop_compute_def res_def)
  qed
qed


text \<open>The sources of the command: a missing key counts as the empty string.\<close>

definition source_bytes :: "robj option \<Rightarrow> bytes option" where
  "source_bytes ob = (case ob of None \<Rightarrow> Some [] | Some ob \<Rightarrow> getObjectReadOnlyString ob)"

lemma bitop_sources_lengths:
  assumes "map source_bytes objs = map Some srcs"
  shows "\<exists>minlen'. bitop_sources j objs maxlen minlen = Some (srcs, fold max (map length srcs) maxlen, minlen') \<and>
    (j > 0 \<longrightarrow> minlen' \<le> minlen) \<and> (\<forall>s \<in> set srcs. minlen' \<le> length s)"
  using assms
proof (induction objs arbitrary: srcs j maxlen minlen)
  case (Cons ob objs)
  obtain s rest where srcs: "srcs = s # rest" "source_bytes ob = Some s" "map source_bytes objs = map Some rest"
    using Cons.prems by (cases srcs) auto
  define mx where "mx = (if length s > maxlen then length s else maxlen)"
  define mn where "mn = (case ob of None \<Rightarrow> 0 | Some _ \<Rightarrow> if j = 0 \<or> length s < minlen then length s else minlen)"
  have mx: "mx = max (length s) maxlen" by (simp add: mx_def)
  have mn: "mn \<le> length s" "j > 0 \<longrightarrow> mn \<le> minlen" by (auto simp: mn_def split: option.splits)
  have step: "bitop_sources j (ob # objs) maxlen minlen = map_option (\<lambda>(src, l). (s # src, l)) (bitop_sources (j + 1) objs mx mn)"
    using srcs(2) by (cases ob) (auto simp: source_bytes_def mx_def mn_def Let_def)
  show ?case
    unfolding step using Cons.IH [OF srcs(3), of "j + 1" mx mn] mn srcs(1) mx by fastforce
qed simp

lemma bitop_sources_wrong:
  "None \<in> set (map source_bytes objs) \<Longrightarrow> bitop_sources j objs maxlen minlen = None"
proof (induction objs arbitrary: j maxlen minlen)
  case (Cons ob objs)
  show ?case
  proof (cases "source_bytes ob")
    case None
    then show ?thesis by (cases ob) (auto simp: source_bytes_def)
  next
    case (Some s)
    then have "None \<in> set (map source_bytes objs)" using Cons.prems by auto
    then show ?thesis using Cons.IH Some by (cases ob) (simp_all add: source_bytes_def)
  qed
qed simp

lemma fold_max_ge: "m \<le> fold max xs m" and fold_max_mem: "x \<in> set xs \<Longrightarrow> x \<le> fold max xs (m :: nat)"
proof -
  show ge: "m \<le> fold max xs m" for m :: nat and xs by (induction xs arbitrary: m) (auto intro: le_trans [OF max.cobounded2])
  show "x \<in> set xs \<Longrightarrow> x \<le> fold max xs (m :: nat)"
  proof (induction xs arbitrary: m)
    case (Cons y ys)
    then show ?case using ge [of "max y m" ys] by (cases "x = y") auto
  qed simp
qed

lemma bitop_command:
  assumes "parse_bitop opname = Some op" and "objs \<noteq> []" and "op = BITOP_NOT \<longrightarrow> length objs = 1"
    and "map source_bytes objs = map Some srcs" and "n = fold max (map length srcs) 0"
  shows "bitopCommand opname target objs =
    \<lparr>e_reply = RInt (int n), e_object = (if n = 0 then None else Some (StrObj (map (combined op srcs) [0..<n]))),
     e_dirty = (if n = 0 \<and> target = None then 0 else 1)\<rparr>"
proof -
  obtain mn where src: "bitop_sources 0 objs 0 0 = Some (srcs, n, mn)" "\<forall>s \<in> set srcs. mn \<le> length s"
    using bitop_sources_lengths [OF assms(4), of 0 0 0] assms(5) by auto
  have len: "length srcs = length objs" using assms(4) by (metis length_map)
  have "\<forall>s \<in> set srcs. length s \<le> n" unfolding assms(5) by (simp add: fold_max_mem)
  then have "bitop_compute op srcs n mn = map (combined op srcs) [0..<n]"
    using src(2) assms(2,3) len by (intro bitop_compute_bytes) auto
  then show ?thesis using assms(1,3) src(1) by (auto simp: bitopCommand_def)
qed

end
