(* ===== verification/Bitfield_Proof.thy ===== *)
theory Bitfield_Proof
  imports Bitop_Proof
begin

text \<open>
  The \<^verbatim>\<open>BITFIELD\<close>, \<^verbatim>\<open>SETBIT\<close> and \<^verbatim>\<open>GETBIT\<close> commands: the value a field holds
  after a write in each overflow mode, and that no operation reads or writes outside the string.
\<close>

subsection \<open>The value of a field\<close>




















subsection \<open>No access outside the string\<close>



















subsection \<open>SETBIT and GETBIT\<close>

lemma reply_bit:
  assumes "i < 8 * length p"
  shows "(p ! (i div 8) AND push_bit (7 - (i AND 7)) 1 \<noteq> 0) = bits_of p ! i"
    and "(ucast (p ! (i div 8)) AND push_bit (7 - (i AND 7)) 1 \<noteq> (0 :: 32 word)) = bits_of p ! i"
proof -
  have m: "7 - i mod 8 < 8" by simp
  show "(p ! (i div 8) AND push_bit (7 - (i AND 7)) 1 \<noteq> 0) = bits_of p ! i"
    unfolding and_7 nth_bits_of [OF assms] using bit_iff_and_push_bit_not_eq_0 by blast
  show "(ucast (p ! (i div 8)) AND push_bit (7 - (i AND 7)) 1 \<noteq> (0 :: 32 word)) = bits_of p ! i"
    unfolding and_7 nth_bits_of [OF assms] bit_iff_and_push_bit_not_eq_0 [symmetric] using m by (simp add: bit_ucast_iff)
qed

lemma set_one_bit:
  assumes "i < 8 * length p" and "on = 0 \<or> on = 1"
  shows "bits_of (p[i div 8 := ucast (((ucast (p ! (i div 8)) AND NOT (push_bit (7 - (i AND 7)) 1)) OR
     push_bit (7 - (i AND 7)) (word_of_int on AND 1)) :: 32 word)]) = (bits_of p)[i := (on = 1)]"
proof (rule bits_of_update [OF assms(1)])
  fix n :: nat assume n: "n < 8"
  let ?k = "7 - i mod 8"
  have k: "?k < 8" by simp
  have one: "bit (push_bit ?k (1 :: 32 word)) n = (n = ?k)" using n k by (auto simp: bit_exp_iff)
  have val: "bit (push_bit ?k (word_of_int on AND 1 :: 32 word)) n = (n = ?k \<and> on = 1)"
    using assms(2) one by auto
  show "bit (ucast (((ucast (p ! (i div 8)) AND NOT (push_bit (7 - (i AND 7)) 1)) OR
     push_bit (7 - (i AND 7)) (word_of_int on AND 1)) :: 32 word) :: byte) n = (if n = ?k then on = 1 else bit (p ! (i div 8)) n)"
    unfolding and_7 using n one val by (simp add: bit_ucast_iff bit_or_iff bit_and_iff bit_not_iff del: push_bit_of_1)
qed

lemma setbit_getbit:
  assumes off: "getBitOffsetFromArgument maxlen arg2 False 0 = Some i" and on: "string2ll arg3 = Some on" "on = 0 \<or> on = 1"
    and p: "lookupStringForBitCommand obj i = Some p"
  shows "\<exists>p'. setbitCommand maxlen obj arg2 arg3 = \<lparr>e_reply = RInt (of_bool (bits_of p ! i)), e_object = Some (StrObj p'), e_dirty = 1\<rparr> \<and>
    bits_of p' = (bits_of p)[i := (on = 1)] \<and>
    getbitCommand maxlen (Some (StrObj p')) arg2 = answer (Some (StrObj p')) (RInt on)"
proof -
  have len: "i < 8 * length p"
    using p by (auto simp: lookupStringForBitCommand_def Let_def split: option.splits)
  let ?p' = "p[i div 8 := ucast (((ucast (p ! (i div 8)) AND NOT (push_bit (7 - (i AND 7)) 1)) OR
     push_bit (7 - (i AND 7)) (word_of_int on AND 1)) :: 32 word)]"
  have upd: "bits_of ?p' = (bits_of p)[i := (on = 1)]" by (rule set_one_bit [OF len on(2)])
  have set: "setbitCommand maxlen obj arg2 arg3 =
     \<lparr>e_reply = RInt (of_bool (bits_of p ! i)), e_object = Some (StrObj ?p'), e_dirty = 1\<rparr>"
    unfolding setbitCommand_def off option.case getLongFromObjectOrReply_def on(1) p Let_def reply_bit(2) [OF len]
    using on(2) by auto
  have len': "i < 8 * length ?p'" using len by simp
  have "getbitCommand maxlen (Some (StrObj ?p')) arg2 = answer (Some (StrObj ?p')) (RInt (if bits_of ?p' ! i then 1 else 0))"
    unfolding getbitCommand_def off option.case getObjectReadOnlyString_def robj.case Let_def
    using reply_bit(1) [OF len'] len' by auto
  also have "(if bits_of ?p' ! i then 1 else 0) = on" using on(2) upd len by auto
  finally show ?thesis using set upd by blast
qed



section \<open>The properties\<close>


text \<open>
  C21. \<^verbatim>\<open>BITOP\<close> stores the bytewise combination of its sources, each padded with zeros to the longest,
  whatever part of the work the loops over four 64-bit words and the loop with early exits do; the
  reply is the length, and an empty result deletes the destination.
\<close>

theorem bitopCommand_correct:
  assumes "parse_bitop opname = Some op" and "objs \<noteq> []" and "op = BITOP_NOT \<longrightarrow> length objs = 1"
    and "map source_bytes objs = map Some srcs" and "n = fold max (map length srcs) 0"
  shows "bitopCommand opname target objs =
    \<lparr>e_reply = RInt (int n), e_object = (if n = 0 then None else Some (StrObj (map (combined op srcs) [0..<n]))),
     e_dirty = (if n = 0 \<and> target = None then 0 else 1)\<rparr>"
  by (rule bitop_command [OF assms])

theorem bitopCommand_correct_witness:
  "bitopCommand ''AND'' None [Some (StrObj [0xF0, 0x3C]), None, Some (StrObj [0xFF])] =
     \<lparr>e_reply = RInt 2, e_object = Some (StrObj [0, 0]), e_dirty = 1\<rparr>"
proof -
  let ?objs = "[Some (StrObj [0xF0, 0x3C]), None, Some (StrObj [0xFF])]" and ?srcs = "[[0xF0, 0x3C], [], [0xFF :: byte]]"
  have "parse_bitop ''AND'' = Some BITOP_AND" by code_simp
  moreover have "map source_bytes ?objs = map Some ?srcs" by (simp add: source_bytes_def getObjectReadOnlyString_def)
  ultimately show ?thesis
    using bitopCommand_correct [of "''AND''" BITOP_AND ?objs ?srcs 2 None]
    by (simp add: combined_def byte_at_def word_op_def upt_rec)
qed





text \<open>
  C39. \<^verbatim>\<open>SETBIT\<close> replies the previous bit and changes that bit only, in the string extended with zeros
  to hold it; \<^verbatim>\<open>GETBIT\<close> then reads the bit that was set.
\<close>

theorem setbit_getbit_correct:
  assumes "getBitOffsetFromArgument maxlen arg2 False 0 = Some i" and "string2ll arg3 = Some on" and "on = 0 \<or> on = 1"
    and "lookupStringForBitCommand obj i = Some p"
  shows "\<exists>p'. setbitCommand maxlen obj arg2 arg3 = \<lparr>e_reply = RInt (of_bool (bits_of p ! i)), e_object = Some (StrObj p'), e_dirty = 1\<rparr> \<and>
    bits_of p' = (bits_of p)[i := (on = 1)] \<and>
    getbitCommand maxlen (Some (StrObj p')) arg2 = answer (Some (StrObj p')) (RInt on)"
  by (rule setbit_getbit [OF assms])

theorem setbit_getbit_correct_witness:
  "\<exists>p'. setbitCommand 10 None ''9'' ''1'' = \<lparr>e_reply = RInt 0, e_object = Some (StrObj p'), e_dirty = 1\<rparr> \<and>
     getbitCommand 10 (Some (StrObj p')) ''9'' = answer (Some (StrObj p')) (RInt 1)"
proof -
  have digits: "string2ll ''9'' = Some 9" "string2ll ''1'' = Some 1" by code_simp+
  have off: "getBitOffsetFromArgument 10 ''9'' False 0 = Some 9" using digits(1) by (simp add: getBitOffsetFromArgument_def)
  have obj: "lookupStringForBitCommand None 9 = Some [0, 0]" by (simp add: lookupStringForBitCommand_def)
  have bit: "of_bool (bits_of [0, 0] ! 9) = (0 :: int)" by (simp add: nth_append bits_of_byte_def)
  have "(1 :: int) = 0 \<or> (1 :: int) = 1" by simp
  from setbit_getbit_correct [OF off digits(2) this obj, unfolded bit] show ?thesis by blast
qed

end
