(* ===== verification/Keyspace.thy ===== *)
theory Keyspace
  imports Bitops_Commands "HOL-Library.AList"
begin

text \<open>
  The key space of the server (\<^verbatim>\<open>db.c\<close>) and the clients that watch it (\<^verbatim>\<open>multi.c\<close>). A database is its
  dictionary, its expire times and the lists of clients watching a key; dictionaries are association
  lists, whose abstract behaviour is the one proved for \<^verbatim>\<open>dict.c\<close>. The clock is read once per
  command. A failed \<^verbatim>\<open>serverAssert\<close> is the result \<open>None\<close>.

  Cluster mode, client pauses, client-side caching, keyspace notifications, module hooks and the
  access clock of objects are left out; lazy freeing has the same effect on the key space as freeing.
\<close>

section \<open>State\<close>

type_synonym key = string

record redisDb =
  db_dict :: "(key \<times> robj) list"
  db_expires :: "(key \<times> int) list"
  db_watched_keys :: "(key \<times> nat list) list"

datatype command =
    SET bool bool bool bool key robj "(int \<times> bool \<times> bool) option"
  | GET key
  | DEL "key list"
  | EXISTS "key list"
  | RENAME bool key key
  | MOVE key int
  | FLUSHDB
  | FLUSHALL
  | SWAPDB int int
  | SELECT int
  | EXPIRE key int bool bool
  | PERSIST key
  | SETBIT key string string
  | GETBIT key string
  | MULTI
  | EXEC
  | DISCARD
  | WATCH "key list"
  | UNWATCH

datatype cmd_reply =
    Ok
  | Null
  | NullArray
  | Queued
  | Number int
  | Bulk robj
  | Bits reply
  | Error string
  | Array "cmd_reply list"

text \<open>Clients, by number: the flags that matter here, the queue of the transaction, the watched keys.\<close>

record client =
  cl_db :: nat
  cl_multi :: bool
  cl_dirty_cas :: bool
  cl_dirty_exec :: bool
  cl_deny_blocking :: bool
  cl_commands :: "command list"
  cl_cmd_flags :: "64 word"
  cl_cmd_inv_flags :: "64 word"
  cl_watched_keys :: "(key \<times> nat) list"

text \<open>The stream is what \<^verbatim>\<open>propagate\<close> hands to the append-only file and to the replicas.\<close>

record server =
  sv_db :: "nat \<Rightarrow> redisDb"
  sv_dbnum :: nat
  sv_clients :: "nat \<Rightarrow> client"
  sv_now :: int
  sv_masterhost :: bool
  sv_slave_ro :: bool
  sv_loading :: bool
  sv_max_bulk_len :: nat
  sv_dirty :: nat
  sv_in_exec :: bool
  sv_propagate_in_transaction :: bool
  sv_stream :: "(nat \<times> command) list"

definition upd_db :: "nat \<Rightarrow> (redisDb \<Rightarrow> redisDb) \<Rightarrow> server \<Rightarrow> server" where
  "upd_db d f s = s\<lparr>sv_db := (sv_db s)(d := f (sv_db s d))\<rparr>"

definition upd_client :: "nat \<Rightarrow> (client \<Rightarrow> client) \<Rightarrow> server \<Rightarrow> server" where
  "upd_client c f s = s\<lparr>sv_clients := (sv_clients s)(c := f (sv_clients s c))\<rparr>"

definition dict_get :: "nat \<Rightarrow> key \<Rightarrow> server \<Rightarrow> robj option" where
  "dict_get d k s = map_of (db_dict (sv_db s d)) k"

definition expire_get :: "nat \<Rightarrow> key \<Rightarrow> server \<Rightarrow> int option" where
  "expire_get d k s = map_of (db_expires (sv_db s d)) k"

definition watchers :: "nat \<Rightarrow> key \<Rightarrow> server \<Rightarrow> nat list option" where
  "watchers d k s = map_of (db_watched_keys (sv_db s d)) k"

section \<open>Watched keys\<close>

definition mark_dirty :: "nat \<Rightarrow> server \<Rightarrow> server" where
  "mark_dirty c s = upd_client c (\<lambda>cl. cl\<lparr>cl_dirty_cas := True\<rparr>) s"

definition touchWatchedKey :: "nat \<Rightarrow> key \<Rightarrow> server \<Rightarrow> server" where
  "touchWatchedKey d k s =
     (case watchers d k s of
        None \<Rightarrow> s
      | Some clients \<Rightarrow> fold mark_dirty clients s)"

text \<open>The second argument is the database that replaces the emptied one, if any.\<close>

definition touchAllWatchedKeysInDb :: "nat \<Rightarrow> nat option \<Rightarrow> server \<Rightarrow> server" where
  "touchAllWatchedKeysInDb emptied replaced_with s =
     fold (\<lambda>(k, clients) s'.
         if dict_get emptied k s \<noteq> None then fold mark_dirty clients s'
         else case replaced_with of
           Some d \<Rightarrow> if dict_get d k s \<noteq> None then fold mark_dirty clients s' else s'
         | None \<Rightarrow> s')
       (db_watched_keys (sv_db s emptied)) s"

definition watchForKey :: "nat \<Rightarrow> key \<Rightarrow> server \<Rightarrow> server" where
  "watchForKey c k s =
     (let d = cl_db (sv_clients s c) in
      if (k, d) \<in> set (cl_watched_keys (sv_clients s c)) then s
      else
        let clients = (case watchers d k s of None \<Rightarrow> [] | Some clients \<Rightarrow> clients);
            s = upd_db d (\<lambda>db. db\<lparr>db_watched_keys := AList.update k (clients @ [c]) (db_watched_keys db)\<rparr>) s
        in upd_client c (\<lambda>cl. cl\<lparr>cl_watched_keys := cl_watched_keys cl @ [(k, d)]\<rparr>) s)"

text \<open>The loop over the watched keys; each is removed from the client and the client from the key, where it must be listed.\<close>

fun unwatch_loop :: "nat \<Rightarrow> (key \<times> nat) list \<Rightarrow> server \<Rightarrow> server option" where
  "unwatch_loop c [] s = Some s"
| "unwatch_loop c ((k, d) # wks) s =
     (case watchers d k s of
        None \<Rightarrow> None
      | Some clients \<Rightarrow>
          if c \<notin> set clients then None else
          let clients = remove1 c clients;
              s = upd_db d (\<lambda>db. db\<lparr>db_watched_keys :=
                    (if clients = [] then AList.delete k (db_watched_keys db)
                     else AList.update k clients (db_watched_keys db))\<rparr>) s;
              s = upd_client c (\<lambda>cl. cl\<lparr>cl_watched_keys := tl (cl_watched_keys cl)\<rparr>) s
          in unwatch_loop c wks s)"

definition unwatchAllKeys :: "nat \<Rightarrow> server \<Rightarrow> server option" where
  "unwatchAllKeys c s = unwatch_loop c (cl_watched_keys (sv_clients s c)) s"

section \<open>Propagation\<close>

definition beforePropagateMulti :: "server \<Rightarrow> server option" where
  "beforePropagateMulti s =
     (if sv_propagate_in_transaction s then None else Some (s\<lparr>sv_propagate_in_transaction := True\<rparr>))"

definition afterPropagateExec :: "server \<Rightarrow> server option" where
  "afterPropagateExec s =
     (if sv_propagate_in_transaction s then Some (s\<lparr>sv_propagate_in_transaction := False\<rparr>) else None)"

definition feed :: "nat \<Rightarrow> command \<Rightarrow> server \<Rightarrow> server" where
  "feed d cmd s = s\<lparr>sv_stream := sv_stream s @ [(d, cmd)]\<rparr>"

text \<open>The nested call finds the flag set, so that it only feeds \<open>MULTI\<close>.\<close>

definition execCommandPropagateMulti :: "nat \<Rightarrow> server \<Rightarrow> server option" where
  "execCommandPropagateMulti d s = do { s \<leftarrow> beforePropagateMulti s; Some (feed d MULTI s) }"

definition propagate :: "nat \<Rightarrow> command \<Rightarrow> server \<Rightarrow> server option" where
  "propagate d cmd s = do {
     s \<leftarrow> (if sv_in_exec s \<and> \<not> sv_propagate_in_transaction s then execCommandPropagateMulti d s else Some s);
     Some (feed d cmd s)
   }"

section \<open>Keys\<close>

definition signalModifiedKey :: "nat \<Rightarrow> key \<Rightarrow> server \<Rightarrow> server" where
  "signalModifiedKey d k s = touchWatchedKey d k s"

definition getExpire :: "nat \<Rightarrow> key \<Rightarrow> server \<Rightarrow> int option" where
  "getExpire d k s =
     (case expire_get d k s of
        None \<Rightarrow> Some (- 1)
      | Some when \<Rightarrow> if dict_get d k s = None then None else Some when)"

definition keyIsExpired :: "nat \<Rightarrow> key \<Rightarrow> server \<Rightarrow> bool option" where
  "keyIsExpired d k s = do {
     when \<leftarrow> getExpire d k s;
     Some (if when < 0 then False else if sv_loading s then False else sv_now s > when)
   }"

definition dbSyncDelete :: "nat \<Rightarrow> key \<Rightarrow> server \<Rightarrow> server \<times> bool" where
  "dbSyncDelete d k s =
     (upd_db d (\<lambda>db. db\<lparr>db_expires := AList.delete k (db_expires db), db_dict := AList.delete k (db_dict db)\<rparr>) s,
      dict_get d k s \<noteq> None)"

definition dbDelete :: "nat \<Rightarrow> key \<Rightarrow> server \<Rightarrow> server \<times> bool" where
  "dbDelete d k s = dbSyncDelete d k s"

definition propagateExpire :: "nat \<Rightarrow> key \<Rightarrow> server \<Rightarrow> server option" where
  "propagateExpire d k s = propagate d (DEL [k]) s"

definition expireIfNeeded :: "nat \<Rightarrow> key \<Rightarrow> server \<Rightarrow> (server \<times> bool) option" where
  "expireIfNeeded d k s = do {
     expired \<leftarrow> keyIsExpired d k s;
     if \<not> expired then Some (s, False)
     else if sv_masterhost s then Some (s, True)
     else do {
       let (s, deleted) = dbSyncDelete d k s;
       s \<leftarrow> propagateExpire d k s;
       Some (signalModifiedKey d k s, True)
     }
   }"

definition lookupKey :: "nat \<Rightarrow> key \<Rightarrow> server \<Rightarrow> robj option" where
  "lookupKey d k s = dict_get d k s"

definition lookupKeyWrite :: "nat \<Rightarrow> key \<Rightarrow> server \<Rightarrow> (server \<times> robj option) option" where
  "lookupKeyWrite d k s = do {
     (s, expired) \<leftarrow> expireIfNeeded d k s;
     Some (s, lookupKey d k s)
   }"

text \<open>The flag tells whether the current command is read-only; the client is not the master.\<close>

definition lookupKeyRead :: "bool \<Rightarrow> nat \<Rightarrow> key \<Rightarrow> server \<Rightarrow> (server \<times> robj option) option" where
  "lookupKeyRead readonly d k s = do {
     (s, expired) \<leftarrow> expireIfNeeded d k s;
     if expired \<and> (\<not> sv_masterhost s \<or> readonly) then Some (s, None)
     else Some (s, lookupKey d k s)
   }"

definition dbAdd :: "nat \<Rightarrow> key \<Rightarrow> robj \<Rightarrow> server \<Rightarrow> server option" where
  "dbAdd d k v s =
     (if dict_get d k s \<noteq> None then None
      else Some (upd_db d (\<lambda>db. db\<lparr>db_dict := AList.update k v (db_dict db)\<rparr>) s))"

definition dbOverwrite :: "nat \<Rightarrow> key \<Rightarrow> robj \<Rightarrow> server \<Rightarrow> server option" where
  "dbOverwrite d k v s =
     (if dict_get d k s = None then None
      else Some (upd_db d (\<lambda>db. db\<lparr>db_dict := AList.update k v (db_dict db)\<rparr>) s))"

definition removeExpire :: "nat \<Rightarrow> key \<Rightarrow> server \<Rightarrow> (server \<times> bool) option" where
  "removeExpire d k s =
     (if dict_get d k s = None then None
      else Some (upd_db d (\<lambda>db. db\<lparr>db_expires := AList.delete k (db_expires db)\<rparr>) s, expire_get d k s \<noteq> None))"

definition setExpire :: "nat \<Rightarrow> key \<Rightarrow> int \<Rightarrow> server \<Rightarrow> server option" where
  "setExpire d k when s =
     (if dict_get d k s = None then None
      else Some (upd_db d (\<lambda>db. db\<lparr>db_expires := AList.update k when (db_expires db)\<rparr>) s))"

definition genericSetKey :: "nat \<Rightarrow> key \<Rightarrow> robj \<Rightarrow> bool \<Rightarrow> bool \<Rightarrow> server \<Rightarrow> server option" where
  "genericSetKey d k v keepttl signal s = do {
     (s, old) \<leftarrow> lookupKeyWrite d k s;
     s \<leftarrow> (if old = None then dbAdd d k v s else dbOverwrite d k v s);
     s \<leftarrow> (if \<not> keepttl then map_option fst (removeExpire d k s) else Some s);
     Some (if signal then signalModifiedKey d k s else s)
   }"

definition setKey :: "nat \<Rightarrow> key \<Rightarrow> robj \<Rightarrow> server \<Rightarrow> server option" where
  "setKey d k v s = genericSetKey d k v False True s"

end
