(* ===== verification/Multi.thy ===== *)
theory Multi
  imports Keyspace
begin

text \<open>
  The commands on keys of \<^verbatim>\<open>db.c\<close>, \<^verbatim>\<open>expire.c\<close> and \<^verbatim>\<open>t_string.c\<close>, the bit commands on stored objects, and
  transactions with optimistic locking (\<^verbatim>\<open>multi.c\<close>), down to \<^verbatim>\<open>call\<close> and \<^verbatim>\<open>processCommand\<close> of \<^verbatim>\<open>server.c\<close>.
  A command returns the new state, its reply, and the command that \<^verbatim>\<open>call\<close> propagates, which some
  commands rewrite.
\<close>

section \<open>Commands on keys\<close>

abbreviation cl_of :: "nat \<Rightarrow> server \<Rightarrow> client" where "cl_of c s \<equiv> sv_clients s c"
abbreviation db_of :: "nat \<Rightarrow> server \<Rightarrow> nat" where "db_of c s \<equiv> cl_db (sv_clients s c)"

definition incr_dirty :: "nat \<Rightarrow> server \<Rightarrow> server" where
  "incr_dirty n s = s\<lparr>sv_dirty := sv_dirty s + n\<rparr>"

type_synonym result = "(server \<times> cmd_reply \<times> command) option"

definition int64 :: "int \<Rightarrow> int" where
  "int64 v = sint (word_of_int v :: 64 word)"

definition wrongtype :: string where
  "wrongtype = ''WRONGTYPE Operation against a key holding the wrong kind of value''"

text \<open>The reply of \<^verbatim>\<open>GET\<close>, and whether the function returned \<^verbatim>\<open>C_OK\<close>.\<close>

definition getGenericCommand :: "bool \<Rightarrow> nat \<Rightarrow> key \<Rightarrow> server \<Rightarrow> (server \<times> cmd_reply \<times> bool) option" where
  "getGenericCommand readonly d k s = do {
     (s, ob) \<leftarrow> lookupKeyRead readonly d k s;
     case ob of
       None \<Rightarrow> Some (s, Null, True)
     | Some ob \<Rightarrow> if getObjectReadOnlyString ob = None then Some (s, Error wrongtype, False) else Some (s, Bulk ob, True)
   }"

text \<open>The expire time of \<^verbatim>\<open>SET\<close>: the milliseconds given and the absolute time; \<open>None\<close> if it is refused.\<close>

definition set_expire_time :: "int \<Rightarrow> int \<times> bool \<times> bool \<Rightarrow> (int \<times> int) option" where
  "set_expire_time now ex =
     (case ex of (ms, seconds, relative) \<Rightarrow>
        if ms \<le> 0 \<or> (seconds \<and> ms > LLONG_MAX div 1000) then None
        else
          let ms = (if seconds then ms * 1000 else ms);
              when = (if relative then int64 (ms + now) else ms)
          in if when \<le> 0 then None else Some (ms, when))"

definition setGenericCommand ::
  "bool \<Rightarrow> bool \<Rightarrow> bool \<Rightarrow> bool \<Rightarrow> key \<Rightarrow> robj \<Rightarrow> (int \<times> bool \<times> bool) option \<Rightarrow> nat \<Rightarrow> server \<Rightarrow> result" where
  "setGenericCommand nx xx get keepttl k v ex c s =
     (let d = db_of c s; cmd = SET nx xx get keepttl k v ex;
          texp = (case ex of None \<Rightarrow> Some None | Some e \<Rightarrow> map_option Some (set_expire_time (sv_now s) e))
      in case texp of
           None \<Rightarrow> Some (s, Error ''invalid expire time'', cmd)
         | Some texp \<Rightarrow> do {
             (s, skip) \<leftarrow> (if nx then do { (s, old) \<leftarrow> lookupKeyWrite d k s; Some (s, old \<noteq> None) } else Some (s, False));
             (s, skip) \<leftarrow> (if \<not> skip \<and> xx then do { (s, old) \<leftarrow> lookupKeyWrite d k s; Some (s, old = None) } else Some (s, skip));
             if skip then Some (s, Null, cmd)
             else do {
               (s, r, ok) \<leftarrow> (if get then getGenericCommand False d k s else Some (s, Ok, True));
               if \<not> ok then Some (s, r, cmd)
               else do {
                 s \<leftarrow> genericSetKey d k v keepttl True s;
                 let s = incr_dirty 1 s;
                 case texp of
                   None \<Rightarrow> Some (s, r, SET nx xx False keepttl k v None)
                 | Some (ms, when) \<Rightarrow> do {
                     s \<leftarrow> setExpire d k when s;
                     Some (s, r, SET False False False False k v (Some (ms, False, snd (snd (the ex)))))
                   }
               }
             }
           })"

fun del_loop :: "nat \<Rightarrow> key list \<Rightarrow> nat \<Rightarrow> server \<Rightarrow> (server \<times> nat) option" where
  "del_loop d [] numdel s = Some (s, numdel)"
| "del_loop d (k # ks) numdel s = do {
     (s, expired) \<leftarrow> expireIfNeeded d k s;
     let (s, deleted) = dbSyncDelete d k s;
     if deleted then del_loop d ks (numdel + 1) (incr_dirty 1 (signalModifiedKey d k s))
     else del_loop d ks numdel s
   }"

definition delGenericCommand :: "key list \<Rightarrow> nat \<Rightarrow> server \<Rightarrow> result" where
  "delGenericCommand ks c s = do {
     (s, n) \<leftarrow> del_loop (db_of c s) ks 0 s;
     Some (s, Number (int n), DEL ks)
   }"

fun exists_loop :: "nat \<Rightarrow> key list \<Rightarrow> nat \<Rightarrow> server \<Rightarrow> (server \<times> nat) option" where
  "exists_loop d [] count s = Some (s, count)"
| "exists_loop d (k # ks) count s = do {
     (s, ob) \<leftarrow> lookupKeyRead True d k s;
     exists_loop d ks (if ob \<noteq> None then count + 1 else count) s
   }"

definition existsCommand :: "key list \<Rightarrow> nat \<Rightarrow> server \<Rightarrow> result" where
  "existsCommand ks c s = do {
     (s, n) \<leftarrow> exists_loop (db_of c s) ks 0 s;
     Some (s, Number (int n), EXISTS ks)
   }"

definition renameGenericCommand :: "bool \<Rightarrow> key \<Rightarrow> key \<Rightarrow> nat \<Rightarrow> server \<Rightarrow> result" where
  "renameGenericCommand nx k1 k2 c s =
     (let d = db_of c s; cmd = RENAME nx k1 k2 in do {
        (s, ob) \<leftarrow> lookupKeyWrite d k1 s;
        case ob of
          None \<Rightarrow> Some (s, Error ''no such key'', cmd)
        | Some ob \<Rightarrow>
            if k1 = k2 then Some (s, if nx then Number 0 else Ok, cmd)
            else do {
              expire \<leftarrow> getExpire d k1 s;
              (s, old) \<leftarrow> lookupKeyWrite d k2 s;
              if old \<noteq> None \<and> nx then Some (s, Number 0, cmd)
              else do {
                let s = (if old \<noteq> None then fst (dbDelete d k2 s) else s);
                s \<leftarrow> dbAdd d k2 ob s;
                s \<leftarrow> (if expire \<noteq> - 1 then setExpire d k2 expire s else Some s);
                let s = fst (dbDelete d k1 s);
                let s = signalModifiedKey d k2 (signalModifiedKey d k1 s);
                Some (incr_dirty 1 s, if nx then Number 1 else Ok, cmd)
              }
            }
      })"

definition valid_db :: "int \<Rightarrow> server \<Rightarrow> bool" where
  "valid_db i s \<longleftrightarrow> 0 \<le> i \<and> i < int (sv_dbnum s)"

definition moveCommand :: "key \<Rightarrow> int \<Rightarrow> nat \<Rightarrow> server \<Rightarrow> result" where
  "moveCommand k dbid c s =
     (let src = db_of c s; dst = nat dbid; cmd = MOVE k dbid in
      if \<not> valid_db dbid s then Some (s, Error ''DB index is out of range'', cmd)
      else if src = dst then Some (s, Error ''source and destination objects are the same'', cmd)
      else do {
        (s, ob) \<leftarrow> lookupKeyWrite src k s;
        case ob of
          None \<Rightarrow> Some (s, Number 0, cmd)
        | Some ob \<Rightarrow> do {
            expire \<leftarrow> getExpire src k s;
            (s, old) \<leftarrow> lookupKeyWrite dst k s;
            if old \<noteq> None then Some (s, Number 0, cmd)
            else do {
              s \<leftarrow> dbAdd dst k ob s;
              s \<leftarrow> (if expire \<noteq> - 1 then setExpire dst k expire s else Some s);
              let s = fst (dbDelete src k s);
              let s = signalModifiedKey dst k (signalModifiedKey src k s);
              Some (incr_dirty 1 s, Number 1, cmd)
            }
          }
      })"

definition signalFlushedDb :: "nat list \<Rightarrow> server \<Rightarrow> server" where
  "signalFlushedDb dbs s = fold (\<lambda>d. touchAllWatchedKeysInDb d None) dbs s"

definition emptyDbStructure :: "nat list \<Rightarrow> server \<Rightarrow> server \<times> nat" where
  "emptyDbStructure dbs s =
     (fold (\<lambda>d. upd_db d (\<lambda>db. db\<lparr>db_dict := [], db_expires := []\<rparr>)) dbs s,
      sum_list (map (\<lambda>d. length (db_dict (sv_db s d))) dbs))"

text \<open>The databases to empty are given as a list: one, or all of them.\<close>

definition emptyDb :: "nat list \<Rightarrow> server \<Rightarrow> server \<times> nat" where
  "emptyDb dbs s = emptyDbStructure dbs (signalFlushedDb dbs s)"

definition flushdbCommand :: "nat \<Rightarrow> server \<Rightarrow> result" where
  "flushdbCommand c s =
     (let (s, removed) = emptyDb [db_of c s] s in Some (incr_dirty removed s, Ok, FLUSHDB))"

definition flushallCommand :: "nat \<Rightarrow> server \<Rightarrow> result" where
  "flushallCommand c s =
     (let (s, removed) = emptyDb [0..<sv_dbnum s] s in Some (incr_dirty 1 (incr_dirty removed s), Ok, FLUSHALL))"

definition dbSwapDatabases :: "int \<Rightarrow> int \<Rightarrow> server \<Rightarrow> server option" where
  "dbSwapDatabases id1 id2 s =
     (if \<not> valid_db id1 s \<or> \<not> valid_db id2 s then None
      else if id1 = id2 then Some s
      else
        let db1 = nat id1; db2 = nat id2; a = sv_db s db1; b = sv_db s db2;
            s = upd_db db1 (\<lambda>db. db\<lparr>db_dict := db_dict b, db_expires := db_expires b\<rparr>) s;
            s = upd_db db2 (\<lambda>db. db\<lparr>db_dict := db_dict a, db_expires := db_expires a\<rparr>) s;
            s = touchAllWatchedKeysInDb db1 (Some db2) s
        in Some (touchAllWatchedKeysInDb db2 (Some db1) s))"

definition swapdbCommand :: "int \<Rightarrow> int \<Rightarrow> nat \<Rightarrow> server \<Rightarrow> result" where
  "swapdbCommand id1 id2 c s =
     (case dbSwapDatabases id1 id2 s of
        None \<Rightarrow> Some (s, Error ''DB index is out of range'', SWAPDB id1 id2)
      | Some s \<Rightarrow> Some (incr_dirty 1 s, Ok, SWAPDB id1 id2))"

definition selectCommand :: "int \<Rightarrow> nat \<Rightarrow> server \<Rightarrow> result" where
  "selectCommand i c s =
     (if \<not> valid_db i s then Some (s, Error ''DB index is out of range'', SELECT i)
      else Some (upd_client c (\<lambda>cl. cl\<lparr>cl_db := nat i\<rparr>) s, Ok, SELECT i))"

definition checkAlreadyExpired :: "int \<Rightarrow> server \<Rightarrow> bool" where
  "checkAlreadyExpired when s \<longleftrightarrow> when \<le> sv_now s \<and> \<not> sv_loading s \<and> \<not> sv_masterhost s"

definition expireGenericCommand :: "key \<Rightarrow> int \<Rightarrow> bool \<Rightarrow> bool \<Rightarrow> nat \<Rightarrow> server \<Rightarrow> result" where
  "expireGenericCommand k param seconds relative c s =
     (let d = db_of c s; cmd = EXPIRE k param seconds relative;
          basetime = (if relative then sv_now s else 0);
          negative_when = param < 0;
          when = (if seconds then int64 (param * 1000) else param);
          when = int64 (when + basetime)
      in if (when < 0 \<and> \<not> negative_when) \<or> (int64 (when - basetime) > 0 \<and> negative_when)
         then Some (s, Error ''invalid expire time'', cmd)
         else do {
           (s, ob) \<leftarrow> lookupKeyWrite d k s;
           if ob = None then Some (s, Number 0, cmd)
           else if checkAlreadyExpired when s then
             let (s, deleted) = dbSyncDelete d k s in
             if \<not> deleted then None
             else Some (signalModifiedKey d k (incr_dirty 1 s), Number 1, DEL [k])
           else do {
             s \<leftarrow> setExpire d k when s;
             Some (incr_dirty 1 (signalModifiedKey d k s), Number 1, cmd)
           }
         })"

definition persistCommand :: "key \<Rightarrow> nat \<Rightarrow> server \<Rightarrow> result" where
  "persistCommand k c s =
     (let d = db_of c s in do {
        (s, ob) \<leftarrow> lookupKeyWrite d k s;
        if ob = None then Some (s, Number 0, PERSIST k)
        else do {
          (s, removed) \<leftarrow> removeExpire d k s;
          if removed then Some (incr_dirty 1 (signalModifiedKey d k s), Number 1, PERSIST k)
          else Some (s, Number 0, PERSIST k)
        }
      })"


text \<open>
  The bit commands on the object stored at a key. The arguments are checked before the key is
  looked up.
\<close>

definition stored_setbit :: "key \<Rightarrow> string \<Rightarrow> string \<Rightarrow> nat \<Rightarrow> server \<Rightarrow> result" where
  "stored_setbit k arg2 arg3 c s =
     (let d = db_of c s; cmd = SETBIT k arg2 arg3; set = (\<lambda>ob. setbitCommand (sv_max_bulk_len s) ob arg2 arg3) in
      case e_reply (set None) of
        RErr m \<Rightarrow> Some (s, Bits (RErr m), cmd)
      | _ \<Rightarrow> do {
          (s, ob) \<leftarrow> lookupKeyWrite d k s;
          let e = set ob;
          case e_object e of
            Some v \<Rightarrow>
              if e_dirty e = 0 then Some (s, Bits (e_reply e), cmd)
              else do {
                s \<leftarrow> (if ob = None then dbAdd d k v s else dbOverwrite d k v s);
                Some (incr_dirty (e_dirty e) (signalModifiedKey d k s), Bits (e_reply e), cmd)
              }
          | None \<Rightarrow> Some (s, Bits (e_reply e), cmd)
        })"

definition stored_getbit :: "key \<Rightarrow> string \<Rightarrow> nat \<Rightarrow> server \<Rightarrow> result" where
  "stored_getbit k arg2 c s =
     (let d = db_of c s; cmd = GETBIT k arg2; get = (\<lambda>ob. getbitCommand (sv_max_bulk_len s) ob arg2) in
      case e_reply (get None) of
        RErr m \<Rightarrow> Some (s, Bits (RErr m), cmd)
      | _ \<Rightarrow> do {
          (s, ob) \<leftarrow> lookupKeyRead True d k s;
          Some (s, Bits (e_reply (get ob)), cmd)
        })"

section \<open>Transactions\<close>

definition CMD_WRITE :: "64 word" where "CMD_WRITE = push_bit 0 1"
definition CMD_READONLY :: "64 word" where "CMD_READONLY = push_bit 1 1"
definition CMD_DENYOOM :: "64 word" where "CMD_DENYOOM = push_bit 2 1"
definition CMD_LOADING :: "64 word" where "CMD_LOADING = push_bit 9 1"
definition CMD_STALE :: "64 word" where "CMD_STALE = push_bit 10 1"

text \<open>The flags of the command table that matter here.\<close>

definition cmd_flags :: "command \<Rightarrow> 64 word" where
  "cmd_flags cmd =
     (case cmd of
        SET _ _ _ _ _ _ _ \<Rightarrow> CMD_WRITE OR CMD_DENYOOM | SETBIT _ _ _ \<Rightarrow> CMD_WRITE OR CMD_DENYOOM
      | GET _ \<Rightarrow> CMD_READONLY | EXISTS _ \<Rightarrow> CMD_READONLY | GETBIT _ _ \<Rightarrow> CMD_READONLY
      | SELECT _ \<Rightarrow> CMD_LOADING OR CMD_STALE | MULTI \<Rightarrow> CMD_LOADING OR CMD_STALE | EXEC \<Rightarrow> CMD_LOADING OR CMD_STALE
      | DISCARD \<Rightarrow> CMD_LOADING OR CMD_STALE | WATCH _ \<Rightarrow> CMD_LOADING OR CMD_STALE | UNWATCH \<Rightarrow> CMD_LOADING OR CMD_STALE
      | _ \<Rightarrow> CMD_WRITE)"

definition initClientMultiState :: "client \<Rightarrow> client" where
  "initClientMultiState cl = cl\<lparr>cl_commands := [], cl_cmd_flags := 0, cl_cmd_inv_flags := 0\<rparr>"

definition queueMultiCommand :: "command \<Rightarrow> nat \<Rightarrow> server \<Rightarrow> server" where
  "queueMultiCommand cmd c s =
     (if cl_dirty_exec (cl_of c s) then s
      else upd_client c (\<lambda>cl. cl\<lparr>cl_commands := cl_commands cl @ [cmd],
             cl_cmd_flags := cl_cmd_flags cl OR cmd_flags cmd,
             cl_cmd_inv_flags := cl_cmd_inv_flags cl OR NOT (cmd_flags cmd)\<rparr>) s)"

definition discardTransaction :: "nat \<Rightarrow> server \<Rightarrow> server option" where
  "discardTransaction c s =
     unwatchAllKeys c
       (upd_client c (\<lambda>cl. (initClientMultiState cl)\<lparr>cl_multi := False, cl_dirty_cas := False, cl_dirty_exec := False\<rparr>) s)"

definition flagTransaction :: "nat \<Rightarrow> server \<Rightarrow> server" where
  "flagTransaction c s = (if cl_multi (cl_of c s) then upd_client c (\<lambda>cl. cl\<lparr>cl_dirty_exec := True\<rparr>) s else s)"

definition multiCommand :: "nat \<Rightarrow> server \<Rightarrow> result" where
  "multiCommand c s =
     (if cl_multi (cl_of c s) then Some (s, Error ''MULTI calls can not be nested'', MULTI)
      else Some (upd_client c (\<lambda>cl. cl\<lparr>cl_multi := True\<rparr>) s, Ok, MULTI))"

definition discardCommand :: "nat \<Rightarrow> server \<Rightarrow> result" where
  "discardCommand c s =
     (if \<not> cl_multi (cl_of c s) then Some (s, Error ''DISCARD without MULTI'', DISCARD)
      else do { s \<leftarrow> discardTransaction c s; Some (s, Ok, DISCARD) })"

definition watchCommand :: "key list \<Rightarrow> nat \<Rightarrow> server \<Rightarrow> result" where
  "watchCommand ks c s =
     (if cl_multi (cl_of c s) then Some (s, Error ''WATCH inside MULTI is not allowed'', WATCH ks)
      else Some (fold (watchForKey c) ks s, Ok, WATCH ks))"

definition unwatchCommand :: "nat \<Rightarrow> server \<Rightarrow> result" where
  "unwatchCommand c s = do {
     s \<leftarrow> unwatchAllKeys c s;
     Some (upd_client c (\<lambda>cl. cl\<lparr>cl_dirty_cas := False\<rparr>) s, Ok, UNWATCH)
   }"

fun isWatchedKeyExpired :: "(key \<times> nat) list \<Rightarrow> server \<Rightarrow> bool option" where
  "isWatchedKeyExpired [] s = Some False"
| "isWatchedKeyExpired ((k, d) # wks) s = do {
     expired \<leftarrow> keyIsExpired d k s;
     if expired then Some True else isWatchedKeyExpired wks s
   }"

text \<open>The commands that can be queued. The others never reach \<^verbatim>\<open>call\<close> inside a transaction.\<close>

definition queued_proc :: "nat \<Rightarrow> command \<Rightarrow> server \<Rightarrow> result" where
  "queued_proc c cmd s =
     (case cmd of
        SET nx xx get keepttl k v ex \<Rightarrow> setGenericCommand nx xx get keepttl k v ex c s
      | GET k \<Rightarrow> map_option (\<lambda>(s, r, ok). (s, r, cmd)) (getGenericCommand True (db_of c s) k s)
      | DEL ks \<Rightarrow> delGenericCommand ks c s
      | EXISTS ks \<Rightarrow> existsCommand ks c s
      | RENAME nx k1 k2 \<Rightarrow> renameGenericCommand nx k1 k2 c s
      | MOVE k i \<Rightarrow> moveCommand k i c s
      | FLUSHDB \<Rightarrow> flushdbCommand c s
      | FLUSHALL \<Rightarrow> flushallCommand c s
      | SWAPDB i j \<Rightarrow> swapdbCommand i j c s
      | SELECT i \<Rightarrow> selectCommand i c s
      | EXPIRE k n seconds relative \<Rightarrow> expireGenericCommand k n seconds relative c s
      | PERSIST k \<Rightarrow> persistCommand k c s
      | SETBIT k arg2 arg3 \<Rightarrow> stored_setbit k arg2 arg3 c s
      | GETBIT k arg2 \<Rightarrow> stored_getbit k arg2 c s
      | UNWATCH \<Rightarrow> unwatchCommand c s
      | _ \<Rightarrow> None)"

text \<open>\<^verbatim>\<open>call\<close>: runs the procedure and propagates the command if it changed the data set.\<close>

definition call :: "(nat \<Rightarrow> command \<Rightarrow> server \<Rightarrow> result) \<Rightarrow> bool \<Rightarrow> nat \<Rightarrow> command \<Rightarrow> server \<Rightarrow> (server \<times> cmd_reply) option" where
  "call run prop c cmd s =
     (let dirty = sv_dirty s in do {
        (s, r, cmd) \<leftarrow> run c cmd s;
        s \<leftarrow> (if prop \<and> sv_dirty s - dirty > 0 then propagate (db_of c s) cmd s else Some s);
        Some (s, r)
      })"

text \<open>The access control list is a parameter: whether a client may run a command.\<close>

fun exec_loop ::
  "(nat \<Rightarrow> command \<Rightarrow> bool) \<Rightarrow> nat \<Rightarrow> command list \<Rightarrow> cmd_reply list \<Rightarrow> server \<Rightarrow> (server \<times> cmd_reply list) option" where
  "exec_loop acl c [] replies s = Some (s, replies)"
| "exec_loop acl c (cmd # cmds) replies s =
     (if \<not> acl c cmd then exec_loop acl c cmds (replies @ [Error ''NOPERM'']) s
      else do {
        (s, r) \<leftarrow> call queued_proc (\<not> sv_loading s) c cmd s;
        exec_loop acl c cmds (replies @ [r]) s
      })"

definition execCommand :: "(nat \<Rightarrow> command \<Rightarrow> bool) \<Rightarrow> nat \<Rightarrow> server \<Rightarrow> result" where
  "execCommand acl c s =
     (if \<not> cl_multi (cl_of c s) then Some (s, Error ''EXEC without MULTI'', EXEC)
      else do {
        expired \<leftarrow> isWatchedKeyExpired (cl_watched_keys (cl_of c s)) s;
        let s = (if expired then mark_dirty c s else s);
        if cl_dirty_cas (cl_of c s) \<or> cl_dirty_exec (cl_of c s) then do {
          let r = (if cl_dirty_exec (cl_of c s) then Error ''EXECABORT'' else NullArray);
          s \<leftarrow> discardTransaction c s;
          Some (s, r, EXEC)
        } else do {
          let old_deny = cl_deny_blocking (cl_of c s);
          let s = upd_client c (\<lambda>cl. cl\<lparr>cl_deny_blocking := True\<rparr>) s;
          s \<leftarrow> unwatchAllKeys c s;
          (s, replies) \<leftarrow> exec_loop acl c (cl_commands (cl_of c s)) [] (s\<lparr>sv_in_exec := True\<rparr>);
          let s = (if \<not> old_deny then upd_client c (\<lambda>cl. cl\<lparr>cl_deny_blocking := False\<rparr>) s else s);
          s \<leftarrow> discardTransaction c s;
          s \<leftarrow> (if sv_propagate_in_transaction s then afterPropagateExec (incr_dirty 1 s) else Some s);
          Some (s\<lparr>sv_in_exec := False\<rparr>, Array replies, EXEC)
        }
      })"

definition proc :: "(nat \<Rightarrow> command \<Rightarrow> bool) \<Rightarrow> nat \<Rightarrow> command \<Rightarrow> server \<Rightarrow> result" where
  "proc acl c cmd s =
     (case cmd of
        MULTI \<Rightarrow> multiCommand c s
      | EXEC \<Rightarrow> execCommand acl c s
      | DISCARD \<Rightarrow> discardCommand c s
      | WATCH ks \<Rightarrow> watchCommand ks c s
      | _ \<Rightarrow> queued_proc c cmd s)"

text \<open>A rejected command flags the transaction; a rejected \<open>EXEC\<close> discards it.\<close>

definition rejectCommand :: "string \<Rightarrow> command option \<Rightarrow> nat \<Rightarrow> server \<Rightarrow> (server \<times> cmd_reply) option" where
  "rejectCommand msg cmd c s =
     (let s = flagTransaction c s in
      if cmd = Some EXEC then do {
        s \<leftarrow> discardTransaction c s;
        Some (s, Error (''EXECABORT Transaction discarded because of: '' @ msg))
      } else Some (s, Error msg))"

text \<open>The commands that are executed at once inside a transaction.\<close>

definition immediate :: "command \<Rightarrow> bool" where
  "immediate cmd = (case cmd of EXEC \<Rightarrow> True | DISCARD \<Rightarrow> True | MULTI \<Rightarrow> True | WATCH _ \<Rightarrow> True | _ \<Rightarrow> False)"

text \<open>
  What else \<^verbatim>\<open>processCommand\<close> checks, as found when the request is processed: the client is not
  authenticated, it is in the mode of subscribers, it is a replica; memory is over the limit and nothing more can be evicted, writing
  to disk fails, there are too few replicas, and the link to the master is down while stale data is not served.
\<close>

record conditions =
  co_auth_required :: bool
  co_pubsub :: bool
  co_replica :: bool
  co_out_of_memory :: bool
  co_disk_error :: bool
  co_few_replicas :: bool
  co_stale :: bool

text \<open>
  A request is a command, or \<open>None\<close> for an unknown command or a wrong number of arguments. The
  server is not in cluster mode and runs no script; a request of a paused client counts when it is resumed.
\<close>

definition processCommand ::
  "(nat \<Rightarrow> command \<Rightarrow> bool) \<Rightarrow> conditions \<Rightarrow> nat \<Rightarrow> command option \<Rightarrow> server \<Rightarrow> (server \<times> cmd_reply) option" where
  "processCommand acl co c request s =
     (if sv_propagate_in_transaction s \<or> sv_in_exec s then None
      else case request of
        None \<Rightarrow> rejectCommand ''unknown command or wrong number of arguments'' None c s
      | Some cmd \<Rightarrow>
          let cl = cl_of c s;
              has = (\<lambda>flag. cmd_flags cmd AND flag \<noteq> 0 \<or> (cmd = EXEC \<and> cl_cmd_flags cl AND flag \<noteq> 0));
              lacks = (\<lambda>flag. cmd_flags cmd AND flag = 0 \<or> (cmd = EXEC \<and> cl_cmd_inv_flags cl AND flag \<noteq> 0));
              reject = (\<lambda>msg. rejectCommand msg (Some cmd) c s)
          in if co_auth_required co then reject ''NOAUTH Authentication required.''
             else if \<not> acl c cmd then reject ''NOPERM''
             else if co_out_of_memory co \<and> (has CMD_DENYOOM \<or> (cl_multi cl \<and> cmd \<noteq> EXEC \<and> cmd \<noteq> DISCARD)) then
               reject ''OOM command not allowed when used memory > 'maxmemory'.''
             else if co_disk_error co \<and> \<not> sv_masterhost s \<and> has CMD_WRITE then reject ''MISCONF''
             else if co_few_replicas co \<and> \<not> sv_masterhost s \<and> has CMD_WRITE then reject ''NOREPLICAS Not enough good replicas to write.''
             else if sv_masterhost s \<and> sv_slave_ro s \<and> has CMD_WRITE then reject ''READONLY You can't write against a read only replica.''
             else if co_pubsub co then reject ''only (P)SUBSCRIBE / (P)UNSUBSCRIBE / PING / QUIT / RESET are allowed in this context''
             else if co_stale co \<and> sv_masterhost s \<and> lacks CMD_STALE then reject ''MASTERDOWN''
             else if sv_loading s \<and> lacks CMD_LOADING then reject ''LOADING Redis is loading the dataset in memory''
             else if co_replica co \<and> (has CMD_WRITE \<or> has CMD_READONLY) then reject ''Replica can't interract with the keyspace''
             else if cl_multi cl \<and> \<not> immediate cmd then Some (queueMultiCommand cmd c s, Queued)
             else call (proc acl) True c cmd s)"

section \<open>Events\<close>

text \<open>What else happens to the key space: the expire cycle, eviction, and the end of a connection.\<close>

definition activeExpireCycleTryExpire :: "nat \<Rightarrow> key \<Rightarrow> server \<Rightarrow> server option" where
  "activeExpireCycleTryExpire d k s =
     (case expire_get d k s of
        None \<Rightarrow> Some s
      | Some t \<Rightarrow>
          if sv_now s > t then do {
            s \<leftarrow> propagateExpire d k s;
            Some (signalModifiedKey d k (fst (dbSyncDelete d k s)))
          } else Some s)"

definition evict_key :: "nat \<Rightarrow> key \<Rightarrow> server \<Rightarrow> server option" where
  "evict_key d k s =
     (if dict_get d k s = None then Some s
      else do {
        s \<leftarrow> propagateExpire d k s;
        Some (signalModifiedKey d k (fst (dbSyncDelete d k s)))
      })"

definition new_client :: client where
  "new_client = \<lparr>cl_db = 0, cl_multi = False, cl_dirty_cas = False, cl_dirty_exec = False, cl_deny_blocking = False,
     cl_commands = [], cl_cmd_flags = 0, cl_cmd_inv_flags = 0, cl_watched_keys = []\<rparr>"

definition freeClient :: "nat \<Rightarrow> server \<Rightarrow> server option" where
  "freeClient c s = do { s \<leftarrow> unwatchAllKeys c s; Some (upd_client c (\<lambda>_. new_client) s) }"

datatype event =
    Request nat "command option" conditions
  | ExpireCycle nat key
  | Evict nat key
  | Close nat

text \<open>The server after start-up, with its configuration as arguments; a client number without a connection is a new client.\<close>

definition initServer :: "nat \<Rightarrow> bool \<Rightarrow> bool \<Rightarrow> bool \<Rightarrow> nat \<Rightarrow> server" where
  "initServer dbnum masterhost slave_ro loading max_bulk_len =
     \<lparr>sv_db = (\<lambda>_. \<lparr>db_dict = [], db_expires = [], db_watched_keys = []\<rparr>), sv_dbnum = dbnum,
      sv_clients = (\<lambda>_. new_client), sv_now = 0, sv_masterhost = masterhost, sv_slave_ro = slave_ro,
      sv_loading = loading, sv_max_bulk_len = max_bulk_len, sv_dirty = 0, sv_in_exec = False,
      sv_propagate_in_transaction = False, sv_stream = []\<rparr>"

text \<open>An event at a time of the clock. The expire cycle runs on masters only.\<close>

definition handle :: "(nat \<Rightarrow> command \<Rightarrow> bool) \<Rightarrow> int \<times> event \<Rightarrow> server \<Rightarrow> (server \<times> cmd_reply) option" where
  "handle acl te s =
     (case te of (now, e) \<Rightarrow>
        let s = s\<lparr>sv_now := now\<rparr> in
        case e of
          Request c request co \<Rightarrow> processCommand acl co c request s
        | ExpireCycle d k \<Rightarrow> map_option (\<lambda>s. (s, Ok)) (if sv_masterhost s then Some s else activeExpireCycleTryExpire d k s)
        | Evict d k \<Rightarrow> map_option (\<lambda>s. (s, Ok)) (evict_key d k s)
        | Close c \<Rightarrow> map_option (\<lambda>s. (s, Ok)) (freeClient c s))"

fun handle_all :: "(nat \<Rightarrow> command \<Rightarrow> bool) \<Rightarrow> (int \<times> event) list \<Rightarrow> server \<Rightarrow> server option" where
  "handle_all acl [] s = Some s"
| "handle_all acl (te # tes) s = do {
     (s, r) \<leftarrow> handle acl te s;
     handle_all acl tes s
   }"

end
