(* ===== verification/Keyspace_Proof.thy ===== *)
theory Keyspace_Proof
  imports Multi
begin

text \<open>
  How the operations on the key space change the state. Every operation is described by one relation
  between the states before and after it: which keys may have changed without their watchers being
  told, that clients are at most marked dirty, and what was propagated. The operations compose along
  this relation, and every command ends with no key untold.
\<close>

section \<open>How the state evolves\<close>

definition data_at :: "server \<Rightarrow> nat \<Rightarrow> key \<Rightarrow> robj option \<times> int option" where
  "data_at s d k = (dict_get d k s, expire_get d k s)"

definition watching :: "server \<Rightarrow> nat \<Rightarrow> key \<Rightarrow> nat set" where
  "watching s d k = (case watchers d k s of None \<Rightarrow> {} | Some cs \<Rightarrow> set cs)"

definition expires_ok :: "server \<Rightarrow> bool" where
  "expires_ok s \<longleftrightarrow> (\<forall>d k. expire_get d k s \<noteq> None \<longrightarrow> dict_get d k s \<noteq> None)"

definition plain :: "(nat \<times> command) list \<Rightarrow> bool" where
  "plain l \<longleftrightarrow> (\<forall>x \<in> set l. snd x \<noteq> MULTI \<and> snd x \<noteq> EXEC)"

text \<open>
  What is propagated: plain commands, except that inside \<open>EXEC\<close> the first one is preceded by
  \<open>MULTI\<close>.
\<close>

definition log_step :: "server \<Rightarrow> server \<Rightarrow> (nat \<times> command) list \<Rightarrow> bool" where
  "log_step s s' l \<longleftrightarrow> sv_stream s' = sv_stream s @ l \<and>
     (if sv_in_exec s \<and> \<not> sv_propagate_in_transaction s
      then \<not> sv_propagate_in_transaction s' \<and> l = [] \<or>
           sv_propagate_in_transaction s' \<and> (\<exists>d l'. l = (d, MULTI) # l' \<and> plain l')
      else sv_propagate_in_transaction s' = sv_propagate_in_transaction s \<and> plain l)"

definition same_settings :: "server \<Rightarrow> server \<Rightarrow> bool" where
  "same_settings s s' \<longleftrightarrow> sv_dbnum s' = sv_dbnum s \<and> sv_now s' = sv_now s \<and> sv_masterhost s' = sv_masterhost s \<and>
     sv_slave_ro s' = sv_slave_ro s \<and> sv_loading s' = sv_loading s \<and> sv_max_bulk_len s' = sv_max_bulk_len s \<and>
     sv_in_exec s' = sv_in_exec s"

definition at_most_dirty :: "client \<Rightarrow> client \<Rightarrow> bool" where
  "at_most_dirty cl cl' \<longleftrightarrow> (\<exists>b. cl' = cl\<lparr>cl_dirty_cas := b\<rparr> \<and> (cl_dirty_cas cl \<longrightarrow> b))"

definition evolves :: "(nat \<times> key) set \<Rightarrow> server \<Rightarrow> server \<Rightarrow> bool" where
  "evolves K s s' \<longleftrightarrow>
     (\<forall>d. db_watched_keys (sv_db s' d) = db_watched_keys (sv_db s d)) \<and>
     (\<forall>c. at_most_dirty (cl_of c s) (cl_of c s')) \<and>
     same_settings s s' \<and> sv_dirty s \<le> sv_dirty s' \<and> (\<exists>l. log_step s s' l) \<and>
     (\<forall>d k. (d, k) \<in> K \<or> data_at s' d k = data_at s d k \<or> (\<forall>c \<in> watching s d k. cl_dirty_cas (cl_of c s')))"

lemma at_most_dirty_refl [simp]: "at_most_dirty cl cl"
  unfolding at_most_dirty_def by (rule exI [of _ "cl_dirty_cas cl"]) simp

lemma at_most_dirty_trans: "at_most_dirty a b \<Longrightarrow> at_most_dirty b c \<Longrightarrow> at_most_dirty a c"
  unfolding at_most_dirty_def by auto

lemma at_most_dirty_mono: "at_most_dirty a b \<Longrightarrow> cl_dirty_cas a \<Longrightarrow> cl_dirty_cas b"
  unfolding at_most_dirty_def by auto

lemma at_most_dirty_fields:
  assumes "at_most_dirty a b"
  shows "cl_db b = cl_db a" "cl_multi b = cl_multi a" "cl_dirty_exec b = cl_dirty_exec a" "cl_commands b = cl_commands a"
    "cl_watched_keys b = cl_watched_keys a" "cl_deny_blocking b = cl_deny_blocking a"
  using assms by (auto simp: at_most_dirty_def)

lemma plain_append [simp]: "plain (l @ m) \<longleftrightarrow> plain l \<and> plain m"
  by (auto simp: plain_def)

lemma log_step_refl: "log_step s s []"
  by (simp add: log_step_def plain_def)

lemma log_step_trans:
  assumes "log_step s s' l" and "log_step s' s'' m" and "sv_in_exec s' = sv_in_exec s"
  shows "log_step s s'' (l @ m)"
  using assms by (auto simp: log_step_def split: if_splits)

lemma watching_cong: "db_watched_keys (sv_db s' d) = db_watched_keys (sv_db s d) \<Longrightarrow> watching s' d k = watching s d k"
  by (simp add: watching_def watchers_def)

lemma evolves_refl [simp]: "evolves K s s"
  using log_step_refl by (auto simp: evolves_def same_settings_def)

lemma evolves_trans:
  assumes "evolves K s s'" and "evolves L s' s''"
  shows "evolves (K \<union> L) s s''"
proof -
  have w: "watching s' d k = watching s d k" for d k using assms(1) by (intro watching_cong) (simp add: evolves_def)
  obtain l m where lm: "log_step s s' l" "log_step s' s'' m" using assms by (auto simp: evolves_def)
  have "sv_in_exec s' = sv_in_exec s" using assms(1) by (simp add: evolves_def same_settings_def)
  from log_step_trans [OF lm this] have "\<exists>l. log_step s s'' l" ..
  moreover have "(d, k) \<in> K \<union> L \<or> data_at s'' d k = data_at s d k \<or> (\<forall>c \<in> watching s d k. cl_dirty_cas (cl_of c s''))" for d k
    using assms at_most_dirty_mono unfolding evolves_def w by (metis Un_iff)
  moreover have "at_most_dirty (cl_of c s) (cl_of c s'')" for c
    using assms at_most_dirty_trans unfolding evolves_def by blast
  moreover have "same_settings s s''" using assms by (simp add: evolves_def same_settings_def)
  moreover have "sv_dirty s \<le> sv_dirty s''" using assms unfolding evolves_def by (meson le_trans)
  moreover have "db_watched_keys (sv_db s'' d) = db_watched_keys (sv_db s d)" for d using assms by (simp add: evolves_def)
  ultimately show ?thesis unfolding evolves_def by blast
qed

lemma evolves_mono: "evolves K s s' \<Longrightarrow> K \<subseteq> L \<Longrightarrow> evolves L s s'"
  unfolding evolves_def by blast

lemma evolves_then: "evolves K s s' \<Longrightarrow> evolves K s' s'' \<Longrightarrow> evolves K s s''"
  using evolves_trans [of K s s' K s''] by simp

lemma evolves_more: "evolves {} s s' \<Longrightarrow> evolves K s s'"
  by (erule evolves_mono) simp

text \<open>Computations that succeed, keep the expire times consistent and evolve the state.\<close>

definition safe :: "(nat \<times> key) set \<Rightarrow> server \<Rightarrow> 'a option \<Rightarrow> ('a \<Rightarrow> server) \<Rightarrow> bool" where
  "safe K s m st \<longleftrightarrow> (\<exists>x. m = Some x \<and> expires_ok (st x) \<and> evolves K s (st x))"

lemma safe_Some: "expires_ok (st x) \<Longrightarrow> evolves K s (st x) \<Longrightarrow> safe K s (Some x) st"
  by (simp add: safe_def)

lemma safe_bind:
  assumes "safe K s m st" and "\<And>x. m = Some x \<Longrightarrow> expires_ok (st x) \<Longrightarrow> evolves K s (st x) \<Longrightarrow> safe L (st x) (g x) st'"
  shows "safe (K \<union> L) s (Option.bind m g) st'"
  using assms evolves_trans unfolding safe_def by fastforce

lemma safe_mono: "safe K s m st \<Longrightarrow> K \<subseteq> L \<Longrightarrow> safe L s m st"
  unfolding safe_def using evolves_mono by blast


section \<open>The operations on keys\<close>

lemma upd_db_get [simp]:
  "dict_get d' k (upd_db d f s) = (if d' = d then map_of (db_dict (f (sv_db s d))) k else dict_get d' k s)"
  "expire_get d' k (upd_db d f s) = (if d' = d then map_of (db_expires (f (sv_db s d))) k else expire_get d' k s)"
  "watchers d' k (upd_db d f s) = (if d' = d then map_of (db_watched_keys (f (sv_db s d))) k else watchers d' k s)"
  "cl_of c (upd_db d f s) = cl_of c s" "sv_stream (upd_db d f s) = sv_stream s" "sv_dirty (upd_db d f s) = sv_dirty s"
  "sv_in_exec (upd_db d f s) = sv_in_exec s" "sv_loading (upd_db d f s) = sv_loading s"
  "sv_propagate_in_transaction (upd_db d f s) = sv_propagate_in_transaction s" "same_settings s (upd_db d f s)"
  by (auto simp: upd_db_def dict_get_def expire_get_def watchers_def same_settings_def)

lemma upd_client_get [simp]:
  "dict_get d k (upd_client c f s) = dict_get d k s" "expire_get d k (upd_client c f s) = expire_get d k s"
  "watchers d k (upd_client c f s) = watchers d k s" "sv_db (upd_client c f s) = sv_db s"
  "cl_of c' (upd_client c f s) = (if c' = c then f (cl_of c s) else cl_of c' s)"
  "sv_stream (upd_client c f s) = sv_stream s" "sv_dirty (upd_client c f s) = sv_dirty s"
  "sv_in_exec (upd_client c f s) = sv_in_exec s" "sv_loading (upd_client c f s) = sv_loading s"
  "sv_propagate_in_transaction (upd_client c f s) = sv_propagate_in_transaction s" "same_settings s (upd_client c f s)"
  by (auto simp: upd_client_def dict_get_def expire_get_def watchers_def same_settings_def)

lemmas get_folds = dict_get_def [symmetric] expire_get_def [symmetric] watchers_def [symmetric]

lemma sv_db_upd: "sv_db (upd_db d f s) d' = (if d' = d then f (sv_db s d) else sv_db s d')"
  by (simp add: upd_db_def)

text \<open>A change of the data of one database, of the keys in \<open>K\<close> at most.\<close>

lemma evolves_upd_db:
  assumes "db_watched_keys (f (sv_db s d)) = db_watched_keys (sv_db s d)"
    and "\<And>k. k \<notin> K \<Longrightarrow> map_of (db_dict (f (sv_db s d))) k = dict_get d k s \<and> map_of (db_expires (f (sv_db s d))) k = expire_get d k s"
  shows "evolves ({d} \<times> K) s (upd_db d f s)"
proof -
  have "log_step s (upd_db d f s) []" by (simp add: log_step_def plain_def)
  then show ?thesis using assms by (auto simp: evolves_def sv_db_upd data_at_def)
qed

lemma evolves_one:
  assumes "db_watched_keys (f (sv_db s d)) = db_watched_keys (sv_db s d)"
    and "\<And>k'. k' \<noteq> k \<Longrightarrow> map_of (db_dict (f (sv_db s d))) k' = dict_get d k' s \<and> map_of (db_expires (f (sv_db s d))) k' = expire_get d k' s"
  shows "evolves {(d, k)} s (upd_db d f s)"
  using evolves_upd_db [of f s d "{k}"] assms by simp

lemma fold_mark_dirty:
  "sv_db (fold mark_dirty cs s) = sv_db s" "cl_of c (fold mark_dirty cs s) = (if c \<in> set cs then (cl_of c s)\<lparr>cl_dirty_cas := True\<rparr> else cl_of c s)"
  "sv_stream (fold mark_dirty cs s) = sv_stream s" "sv_dirty (fold mark_dirty cs s) = sv_dirty s"
  "sv_propagate_in_transaction (fold mark_dirty cs s) = sv_propagate_in_transaction s" "same_settings s (fold mark_dirty cs s)"
  by (induction cs arbitrary: s) (auto simp: mark_dirty_def same_settings_def upd_client_def)

lemma evolves_mark: "evolves K s (fold mark_dirty cs s)"
proof -
  have "log_step s (fold mark_dirty cs s) []" by (simp add: log_step_def plain_def fold_mark_dirty)
  moreover have "at_most_dirty (cl_of c s) (cl_of c (fold mark_dirty cs s))" for c
    by (auto simp: fold_mark_dirty at_most_dirty_def intro: exI [of _ "cl_dirty_cas (cl_of c s)"])
  ultimately show ?thesis
    by (auto simp: evolves_def fold_mark_dirty data_at_def dict_get_def expire_get_def)
qed

lemma touch_simps [simp]:
  "dict_get d' k' (touchWatchedKey d k s) = dict_get d' k' s" "expire_get d' k' (touchWatchedKey d k s) = expire_get d' k' s"
  "expires_ok (touchWatchedKey d k s) = expires_ok s" "sv_loading (touchWatchedKey d k s) = sv_loading s"
  by (auto simp: touchWatchedKey_def fold_mark_dirty dict_get_def expire_get_def expires_ok_def split: option.splits)
    (use fold_mark_dirty(6) in \<open>auto simp: same_settings_def\<close>)

text \<open>Telling the watchers of a key.\<close>

lemma evolves_touch:
  assumes "evolves (insert (d, k) K) s s'"
  shows "evolves K s (touchWatchedKey d k s')"
proof -
  have step: "evolves {} s' (touchWatchedKey d k s')"
    by (simp add: touchWatchedKey_def evolves_mark split: option.split)
  have all: "evolves (insert (d, k) K) s (touchWatchedKey d k s')" using evolves_trans [OF assms step] by simp
  have told: "cl_dirty_cas (cl_of c (touchWatchedKey d k s'))" if "c \<in> watching s d k" for c
  proof -
    have "watching s' d k = watching s d k" using assms by (intro watching_cong) (simp add: evolves_def)
    then have "c \<in> watching s' d k" using that by simp
    then show ?thesis by (auto simp: watching_def touchWatchedKey_def fold_mark_dirty split: option.splits)
  qed
  have "(d', k') \<in> K \<or> data_at (touchWatchedKey d k s') d' k' = data_at s d' k' \<or>
      (\<forall>c \<in> watching s d' k'. cl_dirty_cas (cl_of c (touchWatchedKey d k s')))" for d' k'
  proof (cases "d' = d \<and> k' = k")
    case True
    then show ?thesis using told by simp
  next
    case False
    then have "(d', k') \<noteq> (d, k)" by simp
    then show ?thesis using all unfolding evolves_def by (metis insertE)
  qed
  then show ?thesis using all unfolding evolves_def by simp
qed

definition told :: "nat \<Rightarrow> key \<Rightarrow> server \<Rightarrow> bool" where
  "told d k s \<longleftrightarrow> (\<forall>c \<in> watching s d k. cl_dirty_cas (cl_of c s))"

lemma told_touch: "told d k (touchWatchedKey d k s)"
proof -
  have "watching (touchWatchedKey d k s) d k = watching s d k"
    by (rule watching_cong) (simp add: touchWatchedKey_def fold_mark_dirty split: option.split)
  then show ?thesis by (auto simp: told_def watching_def touchWatchedKey_def fold_mark_dirty split: option.splits)
qed

lemma evolves_watching: "evolves K s s' \<Longrightarrow> watching s' d k = watching s d k"
  by (rule watching_cong) (simp add: evolves_def)

lemma told_mono: "told d k s \<Longrightarrow> evolves K s s' \<Longrightarrow> told d k s'"
  using evolves_watching [of K s s' d k] at_most_dirty_mono unfolding told_def evolves_def by metis

lemma evolves_all_told:
  assumes "evolves K s s'" and "\<And>d k. (d, k) \<in> K \<Longrightarrow> told d k s'"
  shows "evolves {} s s'"
proof -
  have "data_at s' d k = data_at s d k \<or> (\<forall>c \<in> watching s d k. cl_dirty_cas (cl_of c s'))" for d k
    using assms evolves_watching [OF assms(1)] unfolding evolves_def told_def by metis
  then show ?thesis using assms(1) unfolding evolves_def by simp
qed

lemma evolves_told:
  assumes "evolves {} s s'" and "told d k s'" and "evolves {(d, k)} s' s''"
  shows "evolves {} s s''"
  using evolves_trans [OF assms(1,3)] told_mono [OF assms(2,3)] by (intro evolves_all_told) auto

lemma feed_simps [simp]:
  "dict_get d' k (feed d cmd s) = dict_get d' k s" "expire_get d' k (feed d cmd s) = expire_get d' k s" "sv_db (feed d cmd s) = sv_db s"
  "cl_of c (feed d cmd s) = cl_of c s" "sv_dirty (feed d cmd s) = sv_dirty s" "sv_stream (feed d cmd s) = sv_stream s @ [(d, cmd)]"
  "sv_propagate_in_transaction (feed d cmd s) = sv_propagate_in_transaction s" "same_settings s (feed d cmd s)"
  by (auto simp: feed_def dict_get_def expire_get_def same_settings_def)

definition same_data :: "server \<Rightarrow> server \<Rightarrow> bool" where
  "same_data s s' \<longleftrightarrow> (\<forall>d k. dict_get d k s' = dict_get d k s \<and> expire_get d k s' = expire_get d k s)"

lemma same_data_ok: "same_data s s' \<Longrightarrow> expires_ok s' = expires_ok s"
  by (simp add: same_data_def expires_ok_def)

lemma propagate_evolves:
  assumes "cmd \<noteq> MULTI" and "cmd \<noteq> EXEC"
  shows "\<exists>s'. propagate d cmd s = Some s' \<and> evolves K s s' \<and> same_data s s' \<and>
    (sv_in_exec s \<longrightarrow> sv_propagate_in_transaction s') \<and> sv_dirty s' = sv_dirty s"
proof (cases "sv_in_exec s \<and> \<not> sv_propagate_in_transaction s")
  case True
  let ?s = "feed d cmd (feed d MULTI (s\<lparr>sv_propagate_in_transaction := True\<rparr>))"
  have "propagate d cmd s = Some ?s"
    using True by (simp add: propagate_def execCommandPropagateMulti_def beforePropagateMulti_def)
  moreover have "log_step s ?s [(d, MULTI), (d, cmd)]" using True assms by (simp add: log_step_def plain_def)
  moreover have "same_settings s ?s" by (simp add: feed_def same_settings_def)
  moreover have "same_data s ?s" by (simp add: same_data_def dict_get_def expire_get_def)
  ultimately show ?thesis by (auto simp: evolves_def data_at_def same_data_def)
next
  case False
  then have "propagate d cmd s = Some (feed d cmd s)" unfolding propagate_def by (subst if_not_P) auto
  moreover have "log_step s (feed d cmd s) [(d, cmd)]" using False assms by (auto simp: log_step_def plain_def)
  ultimately show ?thesis using False by (auto simp: evolves_def data_at_def same_data_def)
qed

lemma no_expire: "expires_ok s \<Longrightarrow> dict_get d k s = None \<Longrightarrow> expire_get d k s = None"
  unfolding expires_ok_def by blast

lemma dbSyncDelete_evolves:
  assumes "expires_ok s"
  shows "evolves {(d, k)} s (fst (dbSyncDelete d k s))" "expires_ok (fst (dbSyncDelete d k s))"
    "dict_get d' k' (fst (dbSyncDelete d k s)) = (if d' = d \<and> k' = k then None else dict_get d' k' s)"
proof -
  show "evolves {(d, k)} s (fst (dbSyncDelete d k s))"
    unfolding dbSyncDelete_def fst_conv by (rule evolves_one) (simp_all add: delete_conv' get_folds)
  show "expires_ok (fst (dbSyncDelete d k s))"
    using assms by (auto simp: dbSyncDelete_def expires_ok_def delete_conv' get_folds)
  show "dict_get d' k' (fst (dbSyncDelete d k s)) = (if d' = d \<and> k' = k then None else dict_get d' k' s)"
    by (simp add: dbSyncDelete_def delete_conv' get_folds)
qed

text \<open>Deleting a key and telling its watchers, with the deletion propagated before or after.\<close>

lemma delete_touch:
  assumes "expires_ok s"
  shows "evolves {} s (touchWatchedKey d k (fst (dbSyncDelete d k s)))" "expires_ok (touchWatchedKey d k (fst (dbSyncDelete d k s)))"
  using dbSyncDelete_evolves [OF assms, of d k] by (auto intro!: evolves_touch)

lemma getExpire_safe: "expires_ok s \<Longrightarrow> \<exists>t. getExpire d k s = Some t"
  by (cases "expire_get d k s") (auto simp: getExpire_def expires_ok_def)

lemma keyIsExpired_safe: "expires_ok s \<Longrightarrow> \<exists>b. keyIsExpired d k s = Some b"
  using getExpire_safe [of s d k] by (auto simp: keyIsExpired_def)

lemma expireIfNeeded_safe:
  assumes ok: "expires_ok s"
  shows "safe {} s (expireIfNeeded d k s) fst"
proof -
  obtain b where b: "keyIsExpired d k s = Some b" using keyIsExpired_safe [OF ok] by auto
  let ?s = "fst (dbSyncDelete d k s)"
  obtain s' where s': "propagateExpire d k ?s = Some s'" "evolves {(d, k)} ?s s'" "same_data ?s s'"
    using propagate_evolves [of "DEL [k]" d ?s "{(d, k)}"] by (auto simp: propagateExpire_def)
  have "evolves {(d, k)} s s'" using evolves_trans [OF dbSyncDelete_evolves(1) [OF ok] s'(2)] by simp
  then have "evolves {} s (touchWatchedKey d k s')" by (rule evolves_touch)
  moreover have "expires_ok s'" using same_data_ok [OF s'(3)] dbSyncDelete_evolves(2) [OF ok] by simp
  ultimately show ?thesis using b s'(1) ok by (auto simp: expireIfNeeded_def safe_def signalModifiedKey_def split_beta)
qed

lemma lookupKeyWrite_safe: "expires_ok s \<Longrightarrow> safe {} s (lookupKeyWrite d k s) fst"
  using expireIfNeeded_safe [of s d k] by (auto simp: lookupKeyWrite_def safe_def)

lemma lookupKeyWrite_result: "lookupKeyWrite d k s = Some (s', ob) \<Longrightarrow> ob = dict_get d k s'"
  by (auto simp: lookupKeyWrite_def lookupKey_def split: bind_splits)

lemma lookupKeyRead_safe: "expires_ok s \<Longrightarrow> safe {} s (lookupKeyRead ro d k s) fst"
  using expireIfNeeded_safe [of s d k] by (auto simp: lookupKeyRead_def safe_def)

lemma store_evolves:
  assumes "expires_ok s"
  shows "evolves {(d, k)} s (upd_db d (\<lambda>db. db\<lparr>db_dict := AList.update k v (db_dict db)\<rparr>) s)"
    "expires_ok (upd_db d (\<lambda>db. db\<lparr>db_dict := AList.update k v (db_dict db)\<rparr>) s)"
proof -
  show "evolves {(d, k)} s (upd_db d (\<lambda>db. db\<lparr>db_dict := AList.update k v (db_dict db)\<rparr>) s)"
    by (rule evolves_one) (simp_all add: update_conv' get_folds)
  show "expires_ok (upd_db d (\<lambda>db. db\<lparr>db_dict := AList.update k v (db_dict db)\<rparr>) s)"
    using assms by (auto simp: expires_ok_def update_conv' get_folds)
qed

lemma dbAdd_safe: "expires_ok s \<Longrightarrow> dict_get d k s = None \<Longrightarrow> safe {(d, k)} s (dbAdd d k v s) id"
  using store_evolves [of s d k v] by (simp add: dbAdd_def safe_def)

lemma dbOverwrite_safe: "expires_ok s \<Longrightarrow> dict_get d k s \<noteq> None \<Longrightarrow> safe {(d, k)} s (dbOverwrite d k v s) id"
  using store_evolves [of s d k v] by (simp add: dbOverwrite_def safe_def)

lemma stored: "dbAdd d k v s = Some s' \<Longrightarrow> dict_get d k s' = Some v" "dbOverwrite d k v s = Some s' \<Longrightarrow> dict_get d k s' = Some v"
  by (auto simp: dbAdd_def dbOverwrite_def update_conv' split: if_splits)

lemma expire_evolves:
  assumes "\<And>k'. k' \<noteq> k \<Longrightarrow> map_of (f (db_expires (sv_db s d))) k' = expire_get d k' s"
  shows "evolves {(d, k)} s (upd_db d (\<lambda>db. db\<lparr>db_expires := f (db_expires db)\<rparr>) s)"
  by (rule evolves_one) (simp_all add: get_folds assms)

lemma removeExpire_safe: "expires_ok s \<Longrightarrow> dict_get d k s \<noteq> None \<Longrightarrow> safe {(d, k)} s (removeExpire d k s) fst"
  using expire_evolves [of k "AList.delete k" s d]
  by (auto simp: removeExpire_def safe_def expires_ok_def delete_conv' get_folds)

lemma setExpire_safe: "expires_ok s \<Longrightarrow> dict_get d k s \<noteq> None \<Longrightarrow> safe {(d, k)} s (setExpire d k t s) id"
  using expire_evolves [of k "AList.update k t" s d]
  by (auto simp: setExpire_def safe_def expires_ok_def update_conv' get_folds)


section \<open>The commands on keys\<close>

lemma incr_dirty_simps [simp]:
  "dict_get d k (incr_dirty n s) = dict_get d k s" "expire_get d k (incr_dirty n s) = expire_get d k s"
  "expires_ok (incr_dirty n s) = expires_ok s" "cl_of c (incr_dirty n s) = cl_of c s" "sv_db (incr_dirty n s) = sv_db s"
  "sv_stream (incr_dirty n s) = sv_stream s" "sv_propagate_in_transaction (incr_dirty n s) = sv_propagate_in_transaction s"
  "sv_in_exec (incr_dirty n s) = sv_in_exec s" "sv_dirty (incr_dirty n s) = sv_dirty s + n"
  by (auto simp: incr_dirty_def dict_get_def expire_get_def expires_ok_def)

lemma evolves_incr: "evolves K s s' \<Longrightarrow> evolves K s (incr_dirty n s')"
proof -
  have "log_step s' (incr_dirty n s') []" by (simp add: log_step_def plain_def)
  then have "evolves {} s' (incr_dirty n s')" by (auto simp: evolves_def same_settings_def incr_dirty_def data_at_def dict_get_def expire_get_def)
  then show "evolves K s s' \<Longrightarrow> evolves K s (incr_dirty n s')" using evolves_trans [of K s s' "{}"] by simp
qed

lemma safe_obtain:
  assumes "safe K s m st"
  obtains x where "m = Some x" "expires_ok (st x)" "evolves K s (st x)"
  using assms unfolding safe_def by blast

text \<open>A bind whose first part leaves no key untold.\<close>

lemma safe_then:
  assumes "safe {} s m st" and "\<And>x. m = Some x \<Longrightarrow> expires_ok (st x) \<Longrightarrow> safe K (st x) (g x) st'"
  shows "safe K s (Option.bind m g) st'"
  using safe_bind [of "{}" s m st K g st'] assms by simp

lemma safe_then2:
  assumes "safe {} s m fst" and "\<And>s' y. m = Some (s', y) \<Longrightarrow> expires_ok s' \<Longrightarrow> safe K s' (g s' y) st'"
  shows "safe K s (Option.bind m (\<lambda>(s', y). g s' y)) st'"
  using safe_then [OF assms(1), of K "\<lambda>(s', y). g s' y" st'] assms(2) by auto

lemma safe_if: "(P \<Longrightarrow> safe K s a st) \<Longrightarrow> (\<not> P \<Longrightarrow> safe K s b st) \<Longrightarrow> safe K s (if P then a else b) st"
  by simp

lemma safe_here: "expires_ok (st x) \<Longrightarrow> st x = s \<Longrightarrow> safe K s (Some x) st"
  by (simp add: safe_def)

lemma safe_after: "evolves {} s s' \<Longrightarrow> safe K s' m st \<Longrightarrow> safe K s m st"
  using evolves_trans [of "{}" s s' K] unfolding safe_def by auto

lemma safe_told:
  assumes "evolves {(d, k)} s s'" and "expires_ok s'" and "st x = incr_dirty n (signalModifiedKey d k s')"
  shows "safe {} s (Some x) st"
  using assms evolves_touch [of d k "{}" s s'] by (auto simp: safe_def signalModifiedKey_def intro: evolves_incr)

lemma safe_change_told:
  assumes "safe {(d, k)} s m id"
  shows "safe {} s (Option.bind m (\<lambda>s. Some (incr_dirty n (signalModifiedKey d k s), r, cmd))) fst"
proof (rule safe_obtain [OF assms])
  fix s' assume "m = Some s'" "expires_ok (id s')" "evolves {(d, k)} s (id s')"
  then show ?thesis using safe_told [of d k s s' fst "(incr_dirty n (signalModifiedKey d k s'), r, cmd)" n] by simp
qed

lemma genericSetKey_safe:
  assumes "expires_ok s"
  shows "safe {} s (genericSetKey d k v keepttl True s) id"
    and "genericSetKey d k v keepttl True s = Some s' \<Longrightarrow> dict_get d k s' = Some v \<and> told d k s'"
proof -
  have "safe {} s (genericSetKey d k v keepttl True s) id \<and>
    (\<forall>s'. genericSetKey d k v keepttl True s = Some s' \<longrightarrow> dict_get d k s' = Some v \<and> told d k s')"
  proof (rule safe_obtain [OF lookupKeyWrite_safe [OF assms, of d k]])
    fix x assume x: "lookupKeyWrite d k s = Some x" "expires_ok (fst x)" "evolves {} s (fst x)"
    obtain s1 old where x': "x = (s1, old)" by (cases x)
    have old: "old = dict_get d k s1" using lookupKeyWrite_result x(1) x' by simp
    have "safe {(d, k)} s1 (if old = None then dbAdd d k v s1 else dbOverwrite d k v s1) id"
      using dbAdd_safe [of s1 d k v] dbOverwrite_safe [of s1 d k v] x(2) x' old by simp
    then obtain s2 where s2: "(if old = None then dbAdd d k v s1 else dbOverwrite d k v s1) = Some s2" "expires_ok s2" "evolves {(d, k)} s1 s2"
      by (auto elim: safe_obtain)
    have v2: "dict_get d k s2 = Some v" using stored s2(1) by (cases "old = None") auto
    obtain s3 where s3: "(if \<not> keepttl then map_option fst (removeExpire d k s2) else Some s2) = Some s3" "expires_ok s3"
      "evolves {(d, k)} s2 s3" "dict_get d k s3 = Some v"
    proof (cases keepttl)
      case False
      obtain y where y: "removeExpire d k s2 = Some y" "expires_ok (fst y)" "evolves {(d, k)} s2 (fst y)"
        using removeExpire_safe [of s2 d k] s2(2) v2 by (auto elim: safe_obtain)
      moreover have "dict_get d k (fst y) = Some v" using y(1) v2 by (auto simp: removeExpire_def get_folds)
      ultimately show ?thesis using that False by simp
    qed (use that s2 v2 in simp)
    have "evolves {(d, k)} s s1" using x(3) x' by (simp add: evolves_more)
    then have "evolves {(d, k)} s s3" by (rule evolves_then [OF evolves_then [OF _ s2(3)] s3(3)])
    then have "evolves {} s (touchWatchedKey d k s3)" by (rule evolves_touch)
    then show ?thesis
      using x(1) x' s2(1) s3 by (simp add: genericSetKey_def safe_def signalModifiedKey_def told_touch)
  qed
  then show "safe {} s (genericSetKey d k v keepttl True s) id"
    and "genericSetKey d k v keepttl True s = Some s' \<Longrightarrow> dict_get d k s' = Some v \<and> told d k s'" by simp_all
qed


lemma getGenericCommand_safe: "expires_ok s \<Longrightarrow> safe {} s (getGenericCommand ro d k s) fst"
  unfolding getGenericCommand_def
  by (rule safe_then [OF lookupKeyRead_safe]) (auto intro!: safe_here split: option.split)

lemma told_incr [simp]: "told d k (incr_dirty n s) = told d k s"
  by (simp add: told_def watching_def watchers_def)

lemma set_store_safe:
  assumes "expires_ok s"
  shows "safe {} s (do {
        s \<leftarrow> genericSetKey d k v keepttl True s;
        let s = incr_dirty 1 s;
        case texp of None \<Rightarrow> Some (s, r, cmd1)
        | Some (ms, when) \<Rightarrow> do { s \<leftarrow> setExpire d k when s; Some (s, r, cmd2 ms) } }) fst"
proof (rule safe_obtain [OF genericSetKey_safe(1) [OF assms, of d k v keepttl]])
  fix s1 assume s1: "genericSetKey d k v keepttl True s = Some s1" "expires_ok (id s1)" "evolves {} s (id s1)"
  have post: "dict_get d k s1 = Some v" "told d k s1" using genericSetKey_safe(2) [OF assms s1(1)] by simp_all
  let ?s = "incr_dirty 1 s1"
  have ev: "evolves {} s ?s" "expires_ok ?s" using s1 by (simp_all add: evolves_incr)
  show ?thesis
  proof (cases texp)
    case None
    then show ?thesis using s1(1) ev by (simp add: safe_def)
  next
    case (Some mw)
    obtain s2 where s2: "setExpire d k (snd mw) ?s = Some s2" "expires_ok s2" "evolves {(d, k)} ?s s2"
      using setExpire_safe [of ?s d k "snd mw"] ev(2) post(1) by (auto elim: safe_obtain)
    then have "evolves {} s s2" using evolves_told [OF ev(1) _ s2(3)] post(2) by simp
    then show ?thesis using s1(1) s2 Some by (cases mw) (simp add: safe_def)
  qed
qed

lemma nx_xx_safe:
  assumes "expires_ok s"
  shows "safe {} s (if b then do { (s, old) \<leftarrow> lookupKeyWrite d k s; Some (s, P old) } else Some (s, c)) fst"
  using lookupKeyWrite_safe [OF assms, of d k] assms by (auto simp: safe_def)

lemma set_get_safe: "expires_ok s \<Longrightarrow> safe {} s (if b then getGenericCommand False d k s else Some (s, Ok, True)) fst"
  by (simp add: getGenericCommand_safe safe_here)

lemma set_safe:
  assumes "expires_ok s"
  shows "safe {} s (setGenericCommand nx xx get keepttl k v ex c s) fst"
  unfolding setGenericCommand_def Let_def
proof (split option.split, intro conjI allI impI, goal_cases)
  case 1
  then show ?case using assms by (simp add: safe_here)
next
  case (2 texp)
  show ?case
    apply (rule safe_then2 [OF nx_xx_safe [OF assms]])
    apply (rule safe_then2 [OF nx_xx_safe], assumption)
    apply (rule safe_if, simp add: safe_here)
    apply (rule safe_then2 [OF set_get_safe], assumption)
    apply (split prod.split, intro allI impI, rule safe_if, simp add: safe_here)
    apply (rule set_store_safe [unfolded Let_def], assumption)
    done
qed

lemma del_loop_safe: "expires_ok s \<Longrightarrow> safe {} s (del_loop d ks n s) fst"
proof (induction ks arbitrary: n s)
  case Nil
  then show ?case by (simp add: safe_here)
next
  case (Cons k ks)
  show ?case
    unfolding del_loop.simps
  proof (rule safe_then2 [OF expireIfNeeded_safe [OF Cons.prems]])
    fix s1 and b :: bool assume ok: "expires_ok s1"
    let ?s = "fst (dbSyncDelete d k s1)"
    have ev: "evolves {} s1 (incr_dirty 1 (signalModifiedKey d k ?s))" "expires_ok (incr_dirty 1 (signalModifiedKey d k ?s))"
      using delete_touch [OF ok, of d k] by (auto simp: signalModifiedKey_def intro: evolves_incr)
    have gone: "evolves {} s1 ?s" if "dict_get d k s1 = None"
    proof -
      have "expire_get d k s1 = None" by (rule no_expire [OF ok that])
      then have "evolves ({d} \<times> {}) s1 ?s"
        unfolding dbSyncDelete_def fst_conv using that by (intro evolves_upd_db) (auto simp: delete_conv' get_folds)
      then show ?thesis by simp
    qed
    show "safe {} s1 (let (s, deleted) = dbSyncDelete d k s1 in if deleted then del_loop d ks (n + 1) (incr_dirty 1 (signalModifiedKey d k s)) else del_loop d ks n s) fst"
    proof (cases "dict_get d k s1 = None")
      case True
      then have "\<not> snd (dbSyncDelete d k s1)" by (simp add: dbSyncDelete_def)
      then show ?thesis
        using safe_after [OF gone [OF True] Cons.IH [OF dbSyncDelete_evolves(2) [OF ok]]] by (simp add: split_beta)
    next
      case False
      then have "snd (dbSyncDelete d k s1)" by (simp add: dbSyncDelete_def)
      then show ?thesis using safe_after [OF ev(1) Cons.IH [OF ev(2)]] by (simp add: split_beta)
    qed
  qed
qed


lemma del_safe: "expires_ok s \<Longrightarrow> safe {} s (delGenericCommand ks c s) fst"
  unfolding delGenericCommand_def by (rule safe_then2 [OF del_loop_safe]) (auto intro: safe_here)

lemma exists_loop_safe: "expires_ok s \<Longrightarrow> safe {} s (exists_loop d ks n s) fst"
proof (induction ks arbitrary: n s)
  case Nil
  then show ?case by (simp add: safe_here)
next
  case (Cons k ks)
  show ?case
    unfolding exists_loop.simps by (rule safe_then2 [OF lookupKeyRead_safe [OF Cons.prems]]) (rule Cons.IH)
qed

lemma exists_safe: "expires_ok s \<Longrightarrow> safe {} s (existsCommand ks c s) fst"
  unfolding existsCommand_def by (rule safe_then2 [OF exists_loop_safe]) (auto intro: safe_here)

text \<open>The second half of \<open>RENAME\<close> and \<open>MOVE\<close>: the object is added at one place and deleted at another.\<close>

lemma dbDelete_evolves:
  assumes "expires_ok s"
  shows "evolves {(d, k)} s (fst (dbDelete d k s))" "expires_ok (fst (dbDelete d k s))"
    "dict_get d' k' (fst (dbDelete d k s)) = (if d' = d \<and> k' = k then None else dict_get d' k' s)"
  unfolding dbDelete_def by (rule dbSyncDelete_evolves [OF assms])+

lemma evolves_touch2:
  assumes "evolves {(d2, k2), (d1, k1)} s s'"
  shows "evolves {} s (touchWatchedKey d2 k2 (touchWatchedKey d1 k1 s'))"
proof (rule evolves_touch, rule evolves_touch)
  show "evolves {(d1, k1), (d2, k2)} s s'" using assms by (simp add: insert_commute)
qed

lemma transfer_safe:
  assumes ok: "expires_ok s" and free: "dict_get d2 k2 s = None" and pre: "evolves {(d2, k2), (d1, k1)} s0 s"
  shows "safe {} s0 (do {
      s \<leftarrow> dbAdd d2 k2 ob s;
      s \<leftarrow> (if expire \<noteq> - 1 then setExpire d2 k2 expire s else Some s);
      Some (incr_dirty 1 (signalModifiedKey d2 k2 (signalModifiedKey d1 k1 (fst (dbDelete d1 k1 s)))), r, cmd) }) fst"
proof -
  obtain s1 where s1: "dbAdd d2 k2 ob s = Some s1" "expires_ok s1" "evolves {(d2, k2)} s s1"
    using dbAdd_safe [OF ok free, of ob] by (auto elim: safe_obtain)
  have v: "dict_get d2 k2 s1 \<noteq> None" using stored(1) [OF s1(1)] by simp
  obtain s2 where s2: "(if expire \<noteq> - 1 then setExpire d2 k2 expire s1 else Some s1) = Some s2" "expires_ok s2" "evolves {(d2, k2)} s1 s2"
    using setExpire_safe [OF s1(2) v, of expire] s1(2) by (cases "expire = - 1") (auto elim: safe_obtain)
  have "evolves ({(d2, k2)} \<union> {(d1, k1)}) s (fst (dbDelete d1 k1 s2))"
    by (rule evolves_trans [OF evolves_then [OF s1(3) s2(3)] dbDelete_evolves(1) [OF s2(2)]])
  then have "evolves {(d2, k2), (d1, k1)} s (fst (dbDelete d1 k1 s2))" by (simp add: insert_commute)
  then have "evolves {(d2, k2), (d1, k1)} s0 (fst (dbDelete d1 k1 s2))" by (rule evolves_then [OF pre])
  then show ?thesis using s1(1) s2(1) dbDelete_evolves(2) [OF s2(2)]
    by (simp add: safe_def signalModifiedKey_def evolves_incr evolves_touch2)
qed

lemma rename_safe:
  assumes "expires_ok s"
  shows "safe {} s (renameGenericCommand nx k1 k2 c s) fst"
  unfolding renameGenericCommand_def Let_def
proof (rule safe_then2 [OF lookupKeyWrite_safe [OF assms]], split option.split, intro conjI allI impI, goal_cases)
  case (1 s1 ob)
  then show ?case by (simp add: safe_here)
next
  case (2 s1 y ob)
  obtain expire where ex: "getExpire (db_of c s) k1 s1 = Some expire" using getExpire_safe [OF 2(2)] by auto
  show ?case
    unfolding ex bind.bind_lunit
  proof (rule safe_if, simp add: safe_here 2, rule safe_then2 [OF lookupKeyWrite_safe [OF 2(2)]], rule safe_if, goal_cases)
    case (1 s2 old)
    then show ?case by (simp add: safe_here)
  next
    case (2 s2 old)
    have old: "dict_get (db_of c s) k2 s2 = old" using lookupKeyWrite_result [OF 2(2)] by simp
    show ?case
    proof (rule transfer_safe)
      let ?s = "if old \<noteq> None then fst (dbDelete (db_of c s) k2 s2) else s2"
      show "expires_ok ?s" using dbDelete_evolves(2) [OF 2(3)] 2(3) by simp
      show "dict_get (db_of c s) k2 ?s = None" using dbDelete_evolves(3) [OF 2(3)] old by simp
      have "evolves {(db_of c s, k2), (db_of c s, k1)} s2 (fst (dbDelete (db_of c s) k2 s2))"
        by (rule evolves_mono [OF dbDelete_evolves(1) [OF 2(3)]]) simp
      then show "evolves {(db_of c s, k2), (db_of c s, k1)} s2 ?s" by simp
    qed
  qed
qed

lemma move_safe:
  assumes "expires_ok s"
  shows "safe {} s (moveCommand k i c s) fst"
  unfolding moveCommand_def Let_def
proof (rule safe_if, simp add: safe_here assms, rule safe_if, simp add: safe_here assms,
    rule safe_then2 [OF lookupKeyWrite_safe [OF assms]], split option.split, intro conjI allI impI, goal_cases)
  case (1 s1 ob)
  then show ?case by (simp add: safe_here)
next
  case (2 s1 y ob)
  obtain expire where ex: "getExpire (db_of c s) k s1 = Some expire" using getExpire_safe [OF 2(4)] by auto
  show ?case
    unfolding ex bind.bind_lunit
  proof (rule safe_then2 [OF lookupKeyWrite_safe [OF 2(4)]], rule safe_if, goal_cases)
    case (1 s2 old)
    then show ?case by (simp add: safe_here)
  next
    case (2 s2 old)
    have "dict_get (nat i) k s2 = old" using lookupKeyWrite_result [OF 2(1)] by simp
    then show ?case by (intro transfer_safe) (use 2 in simp_all)
  qed
qed


text \<open>Emptying and swapping databases.\<close>

lemma fold_mark_where:
  fixes C :: "key \<Rightarrow> bool" and l :: "(key \<times> nat list) list"
  defines "f \<equiv> \<lambda>(k, cs) s. if C k then fold mark_dirty cs s else s"
  shows "evolves K s (fold f l s)" "sv_db (fold f l s) = sv_db s"
    "(k, cs) \<in> set l \<Longrightarrow> C k \<Longrightarrow> c \<in> set cs \<Longrightarrow> cl_dirty_cas (cl_of c (fold f l s))"
proof -
  have step: "evolves K' s' (f x s')" "sv_db (f x s') = sv_db s'" for x s' K'
    by (auto simp: f_def evolves_mark fold_mark_dirty split: prod.split)
  show ev: "evolves K s (fold f l s)" for s K l
    by (induction l arbitrary: s) (auto intro: evolves_then step)
  show "sv_db (fold f l s) = sv_db s" by (induction l arbitrary: s) (auto simp: step)
  show "(k, cs) \<in> set l \<Longrightarrow> C k \<Longrightarrow> c \<in> set cs \<Longrightarrow> cl_dirty_cas (cl_of c (fold f l s))"
  proof (induction l arbitrary: s)
    case (Cons x l)
    show ?case
    proof (cases "x = (k, cs)")
      case True
      then have "cl_dirty_cas (cl_of c (f x s))" using Cons.prems by (simp add: f_def fold_mark_dirty)
      then show ?thesis using ev [of "{}" "f x s" l] at_most_dirty_mono unfolding evolves_def by auto
    qed (use Cons in auto)
  qed simp
qed

lemma touchAll_evolves:
  "evolves K s (touchAllWatchedKeysInDb d r s)" "sv_db (touchAllWatchedKeysInDb d r s) = sv_db s"
  "dict_get d k s \<noteq> None \<or> (\<exists>d'. r = Some d' \<and> dict_get d' k s \<noteq> None) \<Longrightarrow> told d k (touchAllWatchedKeysInDb d r s)"
proof -
  let ?C = "\<lambda>k. dict_get d k s \<noteq> None \<or> (\<exists>d'. r = Some d' \<and> dict_get d' k s \<noteq> None)"
  have eq: "touchAllWatchedKeysInDb d r s = fold (\<lambda>(k, cs) s. if ?C k then fold mark_dirty cs s else s) (db_watched_keys (sv_db s d)) s"
    unfolding touchAllWatchedKeysInDb_def by (rule fold_cong) (auto simp: fun_eq_iff split: option.split)
  show "evolves K s (touchAllWatchedKeysInDb d r s)" unfolding eq by (rule fold_mark_where)
  show db: "sv_db (touchAllWatchedKeysInDb d r s) = sv_db s" unfolding eq by (rule fold_mark_where)
  assume "?C k"
  then show "told d k (touchAllWatchedKeysInDb d r s)"
    using fold_mark_where(3) [of k _ "db_watched_keys (sv_db s d)" ?C _ s] db unfolding told_def watching_def eq
    by (auto simp: watchers_def eq split: option.splits dest!: map_of_SomeD)
qed

lemma signalFlushedDb_evolves:
  "evolves K s (signalFlushedDb dbs s)" "sv_db (signalFlushedDb dbs s) = sv_db s"
  "d \<in> set dbs \<Longrightarrow> dict_get d k s \<noteq> None \<Longrightarrow> told d k (signalFlushedDb dbs s)"
proof -
  show ev: "evolves K s (signalFlushedDb dbs s)" for s K dbs
    unfolding signalFlushedDb_def by (induction dbs arbitrary: s) (auto intro: evolves_then touchAll_evolves(1))
  show "sv_db (signalFlushedDb dbs s) = sv_db s"
    unfolding signalFlushedDb_def by (induction dbs arbitrary: s) (auto simp: touchAll_evolves(2))
  show "d \<in> set dbs \<Longrightarrow> dict_get d k s \<noteq> None \<Longrightarrow> told d k (signalFlushedDb dbs s)"
  proof (induction dbs arbitrary: s)
    case (Cons x dbs)
    let ?s = "touchAllWatchedKeysInDb x None s"
    show ?case
    proof (cases "x = d")
      case True
      then have "told d k ?s" using Cons.prems touchAll_evolves(3) [of d k s None] by simp
      then show ?thesis using told_mono [OF _ ev [of "{}" ?s dbs]] by (simp add: signalFlushedDb_def)
    next
      case False
      then show ?thesis using Cons touchAll_evolves(2) [of x None s] by (simp add: signalFlushedDb_def dict_get_def)
    qed
  qed simp
qed

lemma emptyDbStructure_evolves:
  assumes "expires_ok s"
  shows "expires_ok (fst (emptyDbStructure dbs s)) \<and>
    evolves {(d, k). d \<in> set dbs \<and> dict_get d k s \<noteq> None} s (fst (emptyDbStructure dbs s))"
  using assms unfolding emptyDbStructure_def fst_conv
proof (induction dbs arbitrary: s)
  case (Cons d dbs)
  let ?s = "upd_db d (\<lambda>db. db\<lparr>db_dict := [], db_expires := []\<rparr>) s"
  let ?f = "fold (\<lambda>d. upd_db d (\<lambda>db. db\<lparr>db_dict := [], db_expires := []\<rparr>)) dbs"
  have ok: "expires_ok ?s" using Cons.prems by (simp add: expires_ok_def)
  have "evolves ({d} \<times> {k. dict_get d k s \<noteq> None}) s ?s"
    using no_expire [OF Cons.prems] by (intro evolves_upd_db) auto
  from evolves_trans [OF this conjunct2 [OF Cons.IH [OF ok]]]
  have "evolves {(d', k). d' \<in> set (d # dbs) \<and> dict_get d' k s \<noteq> None} s (?f ?s)"
    by (rule evolves_mono) (auto split: if_splits)
  then show ?case using Cons.IH [OF ok] by simp
qed simp

lemma emptyDb_evolves:
  assumes "expires_ok s"
  shows "expires_ok (fst (emptyDb dbs s))" "evolves {} s (fst (emptyDb dbs s))"
proof -
  let ?s = "signalFlushedDb dbs s"
  have same: "dict_get d k ?s = dict_get d k s" "expire_get d k ?s = expire_get d k s" for d k
    by (simp_all add: dict_get_def expire_get_def signalFlushedDb_evolves)
  have ok: "expires_ok ?s" using assms by (simp add: expires_ok_def same)
  show "expires_ok (fst (emptyDb dbs s))"
    using emptyDbStructure_evolves [OF ok] by (simp add: emptyDb_def)
  have ev: "evolves {(d, k). d \<in> set dbs \<and> dict_get d k ?s \<noteq> None} ?s (fst (emptyDb dbs s))"
    using emptyDbStructure_evolves [OF ok] by (simp add: emptyDb_def)
  show "evolves {} s (fst (emptyDb dbs s))"
  proof (rule evolves_all_told)
    show "evolves {(d, k). d \<in> set dbs \<and> dict_get d k ?s \<noteq> None} s (fst (emptyDb dbs s))"
      by (rule evolves_then [OF signalFlushedDb_evolves(1) ev])
    fix d k assume "(d, k) \<in> {(d, k). d \<in> set dbs \<and> dict_get d k ?s \<noteq> None}"
    then have "told d k ?s" by (intro signalFlushedDb_evolves(3)) (auto simp: same)
    then show "told d k (fst (emptyDb dbs s))" by (rule told_mono [OF _ ev])
  qed
qed


lemma flush_safe:
  assumes "expires_ok s"
  shows "safe {} s (flushdbCommand c s) fst" "safe {} s (flushallCommand c s) fst"
  using emptyDb_evolves [OF assms] by (auto simp: flushdbCommand_def flushallCommand_def safe_def split_beta evolves_incr)

lemma swap_evolves:
  assumes ok: "expires_ok s" and valid: "valid_db i s" "valid_db j s"
  shows "\<exists>s'. dbSwapDatabases i j s = Some s' \<and> expires_ok s' \<and> evolves {} s s'"
proof (cases "i = j")
  case True
  then show ?thesis using assms by (simp add: dbSwapDatabases_def)
next
  case False
  define a b where "a = nat i" and "b = nat j"
  have ab: "a \<noteq> b" using False valid by (simp add: a_def b_def valid_db_def eq_nat_nat_iff)
  define s1 where "s1 = upd_db a (\<lambda>db. db\<lparr>db_dict := db_dict (sv_db s b), db_expires := db_expires (sv_db s b)\<rparr>) s"
  define s2 where "s2 = upd_db b (\<lambda>db. db\<lparr>db_dict := db_dict (sv_db s a), db_expires := db_expires (sv_db s a)\<rparr>) s1"
  define s3 where "s3 = touchAllWatchedKeysInDb a (Some b) s2"
  define s4 where "s4 = touchAllWatchedKeysInDb b (Some a) s3"
  let ?K = "{k. dict_get a k s \<noteq> None \<or> dict_get b k s \<noteq> None}"
  have get2: "dict_get d k s2 = (if d = a then dict_get b k s else if d = b then dict_get a k s else dict_get d k s)"
    "expire_get d k s2 = (if d = a then expire_get b k s else if d = b then expire_get a k s else expire_get d k s)" for d k
    using ab by (simp_all add: s1_def s2_def get_folds)
  have get3: "dict_get d k s3 = dict_get d k s2" "expire_get d k s3 = expire_get d k s2"
    "dict_get d k s4 = dict_get d k s2" "expire_get d k s4 = expire_get d k s2" for d k
    by (simp_all add: s3_def s4_def dict_get_def expire_get_def touchAll_evolves)
  have "evolves ({a} \<times> ?K) s s1"
    unfolding s1_def using no_expire [OF ok] by (intro evolves_upd_db) (auto simp: get_folds)
  moreover have "evolves ({b} \<times> ?K) s1 s2"
    unfolding s2_def using no_expire [OF ok] ab by (intro evolves_upd_db) (auto simp: get_folds s1_def)
  ultimately have "evolves ({a} \<times> ?K \<union> {b} \<times> ?K) s s2" by (rule evolves_trans)
  then have ev: "evolves ({a} \<times> ?K \<union> {b} \<times> ?K) s s4"
    unfolding s4_def s3_def by (intro evolves_then [OF evolves_then [OF _ touchAll_evolves(1)] touchAll_evolves(1)])
  have "told a k s4" if "k \<in> ?K" for k
    using that touchAll_evolves(3) [of a k s2 "Some b"] told_mono [OF _ touchAll_evolves(1)] ab by (auto simp: s4_def s3_def get2)
  moreover have "told b k s4" if "k \<in> ?K" for k
    using that touchAll_evolves(3) [of b k s3 "Some a"] ab by (auto simp: s4_def get2 get3)
  ultimately have "evolves {} s s4" by (intro evolves_all_told [OF ev]) auto
  moreover have "expires_ok s4" using ok unfolding expires_ok_def get3 get2 by auto
  moreover have "dbSwapDatabases i j s = Some s4"
    using False valid by (simp add: dbSwapDatabases_def Let_def s4_def s3_def s2_def s1_def a_def b_def)
  ultimately show ?thesis by blast
qed

lemma swapdb_safe: "expires_ok s \<Longrightarrow> safe {} s (swapdbCommand i j c s) fst"
proof (cases "valid_db i s \<and> valid_db j s")
  case True
  then show "expires_ok s \<Longrightarrow> safe {} s (swapdbCommand i j c s) fst"
    using swap_evolves [of s i j] by (auto simp: swapdbCommand_def safe_def evolves_incr)
next
  case False
  then have "dbSwapDatabases i j s = None" by (auto simp: dbSwapDatabases_def)
  then show "expires_ok s \<Longrightarrow> safe {} s (swapdbCommand i j c s) fst" by (simp add: swapdbCommand_def safe_here)
qed

lemma expire_safe:
  assumes "expires_ok s"
  shows "safe {} s (expireGenericCommand k n seconds relative c s) fst"
  unfolding expireGenericCommand_def Let_def
proof (rule safe_if, simp add: safe_here assms, rule safe_then2 [OF lookupKeyWrite_safe [OF assms]],
    rule safe_if, simp add: safe_here, rule safe_if, goal_cases)
  case (1 s1 ob)
  have "snd (dbSyncDelete (db_of c s) k s1)" using lookupKeyWrite_result [OF 1(2)] 1 by (simp add: dbSyncDelete_def)
  moreover have "evolves {(db_of c s, k)} s1 (incr_dirty 1 (fst (dbSyncDelete (db_of c s) k s1)))"
    using dbSyncDelete_evolves(1) [OF 1(3)] by (rule evolves_incr)
  ultimately show ?case
    using dbSyncDelete_evolves(2) [OF 1(3), of "db_of c s" k] evolves_touch
    by (auto simp: split_beta safe_def signalModifiedKey_def)
next
  case (2 s1 ob)
  have "dict_get (db_of c s) k s1 \<noteq> None" using lookupKeyWrite_result [OF 2(2)] 2 by simp
  from safe_change_told [OF setExpire_safe [OF 2(3) this]] show ?case .
qed

lemma persist_safe:
  assumes "expires_ok s"
  shows "safe {} s (persistCommand k c s) fst"
  unfolding persistCommand_def Let_def
proof (rule safe_then2 [OF lookupKeyWrite_safe [OF assms]], rule safe_if, simp add: safe_here, goal_cases)
  case (1 s1 ob)
  have some: "dict_get (db_of c s) k s1 \<noteq> None" using lookupKeyWrite_result [OF 1(1)] 1 by simp
  then obtain s2 b where s2: "removeExpire (db_of c s) k s1 = Some (s2, b)" "expires_ok s2" "evolves {(db_of c s, k)} s1 s2"
    using removeExpire_safe [OF 1(2), of "db_of c s" k] by (auto elim: safe_obtain)
  have none: "evolves {} s1 s2" if "\<not> b"
  proof -
    have "expire_get (db_of c s) k s1 = None" "s2 = upd_db (db_of c s) (\<lambda>db. db\<lparr>db_expires := AList.delete k (db_expires db)\<rparr>) s1"
      using s2(1) that some by (auto simp: removeExpire_def)
    then have "evolves ({db_of c s} \<times> {}) s1 s2"
      by (simp only:) (rule evolves_upd_db, simp_all add: delete_conv' get_folds)
    then show ?thesis by simp
  qed
  show ?case
  proof (cases b)
    case True
    then show ?thesis
      using s2 safe_told [OF s2(3,2), of fst "(incr_dirty 1 (signalModifiedKey (db_of c s) k s2), Number 1, PERSIST k)" 1] by simp
  next
    case False
    then show ?thesis using s2 none by (simp add: safe_def)
  qed
qed

lemma setbit_safe:
  assumes "expires_ok s"
  shows "safe {} s (stored_setbit k arg2 arg3 c s) fst"
proof -
  let ?d = "db_of c s" and ?set = "\<lambda>ob. setbitCommand (sv_max_bulk_len s) ob arg2 arg3" and ?cmd = "SETBIT k arg2 arg3"
  have store: "safe {} s (do {
       (s, ob) \<leftarrow> lookupKeyWrite ?d k s;
       case e_object (?set ob) of
         None \<Rightarrow> Some (s, Bits (e_reply (?set ob)), ?cmd)
       | Some v \<Rightarrow>
           if e_dirty (?set ob) = 0 then Some (s, Bits (e_reply (?set ob)), ?cmd)
           else do {
             s \<leftarrow> (if ob = None then dbAdd ?d k v s else dbOverwrite ?d k v s);
             Some (incr_dirty (e_dirty (?set ob)) (signalModifiedKey ?d k s), Bits (e_reply (?set ob)), ?cmd) } }) fst"
  proof (rule safe_then2 [OF lookupKeyWrite_safe [OF assms]], split option.split, intro conjI allI impI, simp add: safe_here,
      rule safe_if, simp add: safe_here, goal_cases)
    case (1 s1 ob v)
    show ?case
      by (rule safe_change_told) (use lookupKeyWrite_result [OF 1(1)] 1 dbAdd_safe dbOverwrite_safe in \<open>auto split: if_splits\<close>)
  qed
  show ?thesis
    using store assms unfolding stored_setbit_def Let_def
    by (cases "e_reply (?set None)") (simp_all add: safe_here split: option.split cong: option.case_cong)
qed

lemma getbit_safe: "expires_ok s \<Longrightarrow> safe {} s (stored_getbit k arg2 c s) fst"
  unfolding stored_getbit_def Let_def
  by (auto split: reply.split intro!: safe_here safe_then2 [OF lookupKeyRead_safe])

end
