(* ===== verification/Multi_Proof.thy ===== *)
theory Multi_Proof
  imports Keyspace_Proof
begin

text \<open>
  Correctness of transactions: the invariant of the key space and of the watched keys, that no
  assertion fails, the guarantee of \<^verbatim>\<open>WATCH\<close> for any run of the server, and that a transaction is
  propagated as one block.
\<close>

section \<open>The invariant\<close>

text \<open>The clients listed at a key are those that list the key, and both lists have no repetition.\<close>

definition index_ok :: "server \<Rightarrow> bool" where
  "index_ok s \<longleftrightarrow>
     (\<forall>c d k. c \<in> watching s d k \<longleftrightarrow> (k, d) \<in> set (cl_watched_keys (cl_of c s))) \<and>
     (\<forall>d k cs. watchers d k s = Some cs \<longrightarrow> cs \<noteq> [] \<and> distinct cs) \<and>
     (\<forall>c. distinct (cl_watched_keys (cl_of c s)))"

definition queues_ok :: "server \<Rightarrow> bool" where
  "queues_ok s \<longleftrightarrow> (\<forall>c. \<forall>cmd \<in> set (cl_commands (cl_of c s)). \<not> immediate cmd)"

definition inv :: "server \<Rightarrow> bool" where
  "inv s \<longleftrightarrow> index_ok s \<and> expires_ok s \<and> queues_ok s"

text \<open>
  What a client that watches keys is guaranteed by a step: it goes on watching them, and unless it
  is marked dirty none of them has changed.
\<close>

definition cas :: "nat \<Rightarrow> server \<Rightarrow> server \<Rightarrow> bool" where
  "cas c s s' \<longleftrightarrow> (\<forall>k d. (k, d) \<in> set (cl_watched_keys (cl_of c s)) \<longrightarrow>
     (k, d) \<in> set (cl_watched_keys (cl_of c s')) \<and> (cl_dirty_cas (cl_of c s) \<longrightarrow> cl_dirty_cas (cl_of c s')) \<and>
     (cl_dirty_cas (cl_of c s') \<or> data_at s' d k = data_at s d k))"

definition moves :: "nat \<Rightarrow> server \<Rightarrow> server \<Rightarrow> bool" where
  "moves c s s' \<longleftrightarrow> inv s' \<and> (\<forall>c'. c' \<noteq> c \<longrightarrow> cas c' s s') \<and> same_settings s s' \<and> sv_dirty s \<le> sv_dirty s' \<and>
     (\<exists>l. log_step s s' l)"

lemma cas_refl [simp]: "cas c s s"
  by (simp add: cas_def)

lemma cas_trans: "cas c s s' \<Longrightarrow> cas c s' s'' \<Longrightarrow> cas c s s''"
  unfolding cas_def by metis

lemma same_settings_trans: "same_settings s s' \<Longrightarrow> same_settings s' s'' \<Longrightarrow> same_settings s s''"
  by (simp add: same_settings_def)

lemma moves_trans:
  assumes "moves c s s'" and "moves c s' s''"
  shows "moves c s s''"
proof -
  obtain l m where lm: "log_step s s' l" "log_step s' s'' m" using assms by (auto simp: moves_def)
  have "sv_in_exec s' = sv_in_exec s" using assms(1) by (simp add: moves_def same_settings_def)
  from log_step_trans [OF lm this] have "\<exists>l. log_step s s'' l" ..
  then show ?thesis using assms cas_trans same_settings_trans unfolding moves_def by (meson le_trans)
qed

lemma moves_refl: "inv s \<Longrightarrow> moves c s s"
  using log_step_refl by (auto simp: moves_def same_settings_def)

lemma evolves_client: "evolves K s s' \<Longrightarrow> at_most_dirty (cl_of c s) (cl_of c s')"
  by (simp add: evolves_def)

lemma evolves_index: "evolves K s s' \<Longrightarrow> index_ok s \<Longrightarrow> index_ok s'"
proof -
  assume ev: "evolves K s s'" and ok: "index_ok s"
  have "watchers d k s' = watchers d k s" for d k using ev by (simp add: watchers_def evolves_def)
  moreover have "cl_watched_keys (cl_of c s') = cl_watched_keys (cl_of c s)" for c
    by (rule at_most_dirty_fields [OF evolves_client [OF ev]])
  ultimately show "index_ok s'" using ok by (simp add: index_ok_def watching_def)
qed

lemma evolves_cas: "evolves {} s s' \<Longrightarrow> index_ok s \<Longrightarrow> cas c s s'"
proof -
  assume ev: "evolves {} s s'" and ok: "index_ok s"
  have "cl_watched_keys (cl_of c s') = cl_watched_keys (cl_of c s)"
    by (rule at_most_dirty_fields [OF evolves_client [OF ev]])
  moreover have "cl_dirty_cas (cl_of c s) \<longrightarrow> cl_dirty_cas (cl_of c s')"
    using at_most_dirty_mono [OF evolves_client [OF ev]] by simp
  moreover have "cl_dirty_cas (cl_of c s') \<or> data_at s' d k = data_at s d k" if "(k, d) \<in> set (cl_watched_keys (cl_of c s))" for d k
    using ev ok that unfolding evolves_def index_ok_def by blast
  ultimately show "cas c s s'" by (simp add: cas_def)
qed

lemma evolves_moves:
  assumes "evolves {} s s'" and "inv s" and "expires_ok s'"
  shows "moves c s s'" "cas c s s'"
proof -
  have "cl_commands (cl_of c s') = cl_commands (cl_of c s)" for c
    by (rule at_most_dirty_fields [OF evolves_client [OF assms(1)]])
  then have "inv s'" using assms evolves_index by (auto simp: inv_def queues_ok_def)
  moreover have "cas c' s s'" for c' using assms(1,2) by (intro evolves_cas) (simp_all add: inv_def)
  ultimately show "moves c s s'" "cas c s s'" using assms(1) by (simp_all add: moves_def evolves_def)
qed

text \<open>A change of the fields of one client that keeps what it watches.\<close>

lemma client_moves:
  assumes "inv s" and "cl_watched_keys (f (cl_of c s)) = cl_watched_keys (cl_of c s)"
    and "\<forall>cmd \<in> set (cl_commands (f (cl_of c s))). \<not> immediate cmd"
  shows "moves c s (upd_client c f s)"
    and "(cl_dirty_cas (cl_of c s) \<longrightarrow> cl_dirty_cas (f (cl_of c s))) \<Longrightarrow> cas c s (upd_client c f s)"
proof -
  have "inv (upd_client c f s)"
    using assms by (auto simp: inv_def index_ok_def queues_ok_def expires_ok_def watching_def)
  moreover have "log_step s (upd_client c f s) []" by (simp add: log_step_def plain_def)
  ultimately show "moves c s (upd_client c f s)" by (auto simp: moves_def cas_def data_at_def)
  show "(cl_dirty_cas (cl_of c s) \<longrightarrow> cl_dirty_cas (f (cl_of c s))) \<Longrightarrow> cas c s (upd_client c f s)"
    using assms(2) by (simp add: cas_def data_at_def)
qed

section \<open>Watching and unwatching\<close>

definition unwatch_one :: "nat \<Rightarrow> key \<Rightarrow> nat \<Rightarrow> nat list \<Rightarrow> server \<Rightarrow> server" where
  "unwatch_one c k d clients s =
     upd_client c (\<lambda>cl. cl\<lparr>cl_watched_keys := tl (cl_watched_keys cl)\<rparr>)
       (upd_db d (\<lambda>db. db\<lparr>db_watched_keys :=
          (if remove1 c clients = [] then AList.delete k (db_watched_keys db)
           else AList.update k (remove1 c clients) (db_watched_keys db))\<rparr>) s)"

lemma unwatch_one_simps:
  "dict_get d' k' (unwatch_one c k d cs s) = dict_get d' k' s" "expire_get d' k' (unwatch_one c k d cs s) = expire_get d' k' s"
  "cl_of c' (unwatch_one c k d cs s) = (if c' = c then (cl_of c s)\<lparr>cl_watched_keys := tl (cl_watched_keys (cl_of c s))\<rparr> else cl_of c' s)"
  "watchers d' k' (unwatch_one c k d cs s) = (if d' = d \<and> k' = k then if remove1 c cs = [] then None else Some (remove1 c cs) else watchers d' k' s)"
  "same_settings s (unwatch_one c k d cs s)" "sv_dirty (unwatch_one c k d cs s) = sv_dirty s" "sv_stream (unwatch_one c k d cs s) = sv_stream s"
  "sv_propagate_in_transaction (unwatch_one c k d cs s) = sv_propagate_in_transaction s"
  by (simp_all add: unwatch_one_def get_folds delete_conv' update_conv') (simp add: same_settings_def upd_client_def upd_db_def)

lemma unwatch_one_inv:
  assumes inv: "inv s" and wk: "cl_watched_keys (cl_of c s) = (k, d) # wks" and cs: "watchers d k s = Some cs"
  shows "inv (unwatch_one c k d cs s)"
proof -
  let ?s = "unwatch_one c k d cs s"
  have ok: "index_ok s" using inv by (simp add: inv_def)
  have dist: "distinct cs" "distinct ((k, d) # wks)" using ok cs wk unfolding index_ok_def by metis+
  have list: "cl_watched_keys (cl_of c' ?s) = (if c' = c then wks else cl_watched_keys (cl_of c' s))" for c'
    using wk by (simp add: unwatch_one_simps)
  have w: "watching ?s d' k' = (if d' = d \<and> k' = k then watching s d k - {c} else watching s d' k')" for d' k'
  proof -
    have "set (remove1 c cs) = set cs - {c}" using dist(1) by simp
    then show ?thesis using cs by (cases "remove1 c cs = []") (auto simp: watching_def unwatch_one_simps simp del: set_remove1_eq)
  qed
  have "c' \<in> watching ?s d' k' \<longleftrightarrow> (k', d') \<in> set (cl_watched_keys (cl_of c' ?s))" for c' d' k'
  proof -
    have "c' \<in> watching s d' k' \<longleftrightarrow> (k', d') \<in> set (cl_watched_keys (cl_of c' s))" using ok by (simp add: index_ok_def)
    then show ?thesis using wk dist(2) unfolding w list by auto
  qed
  moreover have "ds \<noteq> [] \<and> distinct ds" if "watchers d' k' ?s = Some ds" for d' k' ds
    using that ok dist(1) unfolding unwatch_one_simps index_ok_def by (auto split: if_splits)
  moreover have "distinct (cl_watched_keys (cl_of c' ?s))" for c'
    using ok dist(2) unfolding list by (simp add: index_ok_def)
  ultimately have "index_ok ?s" by (simp add: index_ok_def)
  then show ?thesis using inv by (simp add: inv_def expires_ok_def queues_ok_def unwatch_one_simps)
qed

lemma unwatch_one_moves:
  assumes "inv s" and "cl_watched_keys (cl_of c s) = (k, d) # wks" and "watchers d k s = Some cs"
  shows "moves c s (unwatch_one c k d cs s)"
proof -
  have "log_step s (unwatch_one c k d cs s) []" by (auto simp: log_step_def plain_def unwatch_one_simps)
  then show ?thesis using unwatch_one_inv [OF assms] by (auto simp: moves_def cas_def data_at_def unwatch_one_simps)
qed

text \<open>What an operation leaves alone when it only touches the watched keys and flags of a client.\<close>

definition quiet :: "server \<Rightarrow> server \<Rightarrow> bool" where
  "quiet s s' \<longleftrightarrow> same_data s s' \<and> sv_stream s' = sv_stream s \<and> sv_dirty s' = sv_dirty s \<and>
     sv_propagate_in_transaction s' = sv_propagate_in_transaction s"

lemma quiet_trans: "quiet s s' \<Longrightarrow> quiet s' s'' \<Longrightarrow> quiet s s''"
  by (simp add: quiet_def same_data_def)

lemma quiet_client: "quiet s (upd_client c f s)"
  by (simp add: quiet_def same_data_def)

lemma unwatch_loop_moves:
  assumes "inv s" and "cl_watched_keys (cl_of c s) = wks"
  shows "\<exists>s'. unwatch_loop c wks s = Some s' \<and> moves c s s' \<and> quiet s s' \<and> cl_of c s' = (cl_of c s)\<lparr>cl_watched_keys := []\<rparr>"
  using assms
proof (induction wks arbitrary: s)
  case Nil
  then show ?case by (simp add: moves_refl quiet_def same_data_def)
next
  case (Cons wk wks)
  obtain k d where wk: "wk = (k, d)" by (cases wk)
  have "c \<in> watching s d k" using Cons.prems wk by (auto simp: inv_def index_ok_def)
  then obtain cs where cs: "watchers d k s = Some cs" "c \<in> set cs" by (auto simp: watching_def split: option.splits)
  let ?s = "unwatch_one c k d cs s"
  have m: "moves c s ?s" using unwatch_one_moves Cons.prems wk cs by simp
  have cl: "cl_of c ?s = (cl_of c s)\<lparr>cl_watched_keys := wks\<rparr>" using Cons.prems wk by (simp add: unwatch_one_simps)
  have "inv ?s" using m by (simp add: moves_def)
  then obtain s' where s': "unwatch_loop c wks ?s = Some s'" "moves c ?s s'" "quiet ?s s'" "cl_of c s' = (cl_of c ?s)\<lparr>cl_watched_keys := []\<rparr>"
    using Cons.IH [of ?s] cl by auto
  have "quiet s ?s" by (simp add: quiet_def same_data_def unwatch_one_simps)
  then have "quiet s s'" using s'(3) by (rule quiet_trans)
  moreover have "unwatch_loop c (wk # wks) s = Some s'" using s'(1) cs wk by (simp add: unwatch_one_def Let_def)
  ultimately show ?case using moves_trans [OF m s'(2)] s'(4) cl by auto
qed

lemma unwatch_moves:
  "inv s \<Longrightarrow> \<exists>s'. unwatchAllKeys c s = Some s' \<and> moves c s s' \<and> quiet s s' \<and> cl_of c s' = (cl_of c s)\<lparr>cl_watched_keys := []\<rparr>"
  unfolding unwatchAllKeys_def by (rule unwatch_loop_moves) simp_all

lemma discard_moves:
  assumes "inv s"
  shows "\<exists>s'. discardTransaction c s = Some s' \<and> moves c s s' \<and> quiet s s' \<and>
    cl_of c s' = (cl_of c s)\<lparr>cl_commands := [], cl_cmd_flags := 0, cl_cmd_inv_flags := 0, cl_multi := False, cl_dirty_cas := False,
      cl_dirty_exec := False, cl_watched_keys := []\<rparr>"
proof -
  let ?f = "\<lambda>cl. (initClientMultiState cl)\<lparr>cl_multi := False, cl_dirty_cas := False, cl_dirty_exec := False\<rparr>"
  have m: "moves c s (upd_client c ?f s)" by (rule client_moves [OF assms]) (simp_all add: initClientMultiState_def)
  then have "inv (upd_client c ?f s)" by (simp add: moves_def)
  then obtain s' where s': "unwatchAllKeys c (upd_client c ?f s) = Some s'" "moves c (upd_client c ?f s) s'" "quiet (upd_client c ?f s) s'"
    "cl_of c s' = (cl_of c (upd_client c ?f s))\<lparr>cl_watched_keys := []\<rparr>"
    using unwatch_moves [of "upd_client c ?f s" c] by auto
  then show ?thesis
    using moves_trans [OF m s'(2)] quiet_trans [OF quiet_client s'(3)] by (simp add: discardTransaction_def initClientMultiState_def)
qed


lemma watchForKey_moves:
  assumes inv: "inv s"
  shows "moves c s (watchForKey c k s)" "cas c s (watchForKey c k s)" "quiet s (watchForKey c k s)"
    "(k, db_of c s) \<in> set (cl_watched_keys (cl_of c (watchForKey c k s)))" "db_of c (watchForKey c k s) = db_of c s"
    "cl_dirty_cas (cl_of c (watchForKey c k s)) = cl_dirty_cas (cl_of c s)"
proof -
  let ?d = "db_of c s" and ?s = "watchForKey c k s"
  have "moves c s ?s \<and> cas c s ?s \<and> quiet s ?s \<and> (k, ?d) \<in> set (cl_watched_keys (cl_of c ?s)) \<and> db_of c ?s = ?d \<and>
    cl_dirty_cas (cl_of c ?s) = cl_dirty_cas (cl_of c s)"
  proof (cases "(k, ?d) \<in> set (cl_watched_keys (cl_of c s))")
    case True
    then have "?s = s" by (simp add: watchForKey_def Let_def)
    then show ?thesis using True inv by (simp add: moves_refl quiet_def same_data_def)
  next
    case False
    define cs where "cs = (case watchers ?d k s of None \<Rightarrow> [] | Some clients \<Rightarrow> clients)"
    have s': "?s = upd_client c (\<lambda>cl. cl\<lparr>cl_watched_keys := cl_watched_keys cl @ [(k, ?d)]\<rparr>)
        (upd_db ?d (\<lambda>db. db\<lparr>db_watched_keys := AList.update k (cs @ [c]) (db_watched_keys db)\<rparr>) s)"
      using False by (simp add: watchForKey_def Let_def cs_def)
    have ok: "index_ok s" using inv by (simp add: inv_def)
    have w0: "watching s ?d k = set cs" by (simp add: watching_def cs_def split: option.split)
    have dist: "distinct cs" using ok by (auto simp: cs_def index_ok_def split: option.splits)
    have new: "c \<notin> set cs" using ok False unfolding w0 [symmetric] index_ok_def by blast
    have wat: "watchers d' k' ?s = (if d' = ?d \<and> k' = k then Some (cs @ [c]) else watchers d' k' s)" for d' k'
      unfolding s' by (simp add: update_conv' get_folds)
    have cl: "cl_of c' ?s = (if c' = c then (cl_of c s)\<lparr>cl_watched_keys := cl_watched_keys (cl_of c s) @ [(k, ?d)]\<rparr> else cl_of c' s)" for c'
      unfolding s' by simp
    have rest: "dict_get d' k' ?s = dict_get d' k' s" "expire_get d' k' ?s = expire_get d' k' s" "sv_stream ?s = sv_stream s"
      "sv_dirty ?s = sv_dirty s" "sv_propagate_in_transaction ?s = sv_propagate_in_transaction s" for d' k'
      unfolding s' by (simp_all add: get_folds)
    have sett: "same_settings s ?s" unfolding s' by (simp add: same_settings_def upd_client_def upd_db_def)
    have w: "watching ?s d' k' = (if d' = ?d \<and> k' = k then insert c (watching s ?d k) else watching s d' k')" for d' k'
      unfolding watching_def wat by (simp add: cs_def split: option.split)
    have "c' \<in> watching ?s d' k' \<longleftrightarrow> (k', d') \<in> set (cl_watched_keys (cl_of c' ?s))" for c' d' k'
    proof -
      have "c' \<in> watching s d' k' \<longleftrightarrow> (k', d') \<in> set (cl_watched_keys (cl_of c' s))" using ok by (simp add: index_ok_def)
      then show ?thesis unfolding w cl by auto
    qed
    moreover have "ds \<noteq> [] \<and> distinct ds" if "watchers d' k' ?s = Some ds" for d' k' ds
      using that ok dist new unfolding wat index_ok_def by (auto split: if_splits)
    moreover have "distinct (cl_watched_keys (cl_of c' ?s))" for c' using ok False unfolding cl by (simp add: index_ok_def)
    ultimately have "index_ok ?s" by (simp add: index_ok_def)
    then have "inv ?s" using inv by (simp add: inv_def expires_ok_def queues_ok_def rest cl)
    moreover have "log_step s ?s []" by (auto simp: log_step_def plain_def rest)
    ultimately show ?thesis using sett
      by (auto simp: moves_def cas_def data_at_def rest cl quiet_def same_data_def)
  qed
  then show "moves c s ?s" "cas c s ?s" "quiet s ?s" "(k, ?d) \<in> set (cl_watched_keys (cl_of c ?s))" "db_of c ?s = ?d"
    "cl_dirty_cas (cl_of c ?s) = cl_dirty_cas (cl_of c s)" by simp_all
qed

lemma watch_all:
  assumes "inv s"
  shows "moves c s (fold (watchForKey c) ks s)" "cas c s (fold (watchForKey c) ks s)" "quiet s (fold (watchForKey c) ks s)"
    "\<forall>k \<in> set ks. (k, db_of c s) \<in> set (cl_watched_keys (cl_of c (fold (watchForKey c) ks s)))"
    "cl_dirty_cas (cl_of c (fold (watchForKey c) ks s)) = cl_dirty_cas (cl_of c s)"
proof -
  let ?f = "fold (watchForKey c)"
  have "moves c s (?f ks s) \<and> cas c s (?f ks s) \<and> quiet s (?f ks s) \<and>
    (\<forall>k \<in> set ks. (k, db_of c s) \<in> set (cl_watched_keys (cl_of c (?f ks s)))) \<and>
    cl_dirty_cas (cl_of c (?f ks s)) = cl_dirty_cas (cl_of c s)"
    using assms
  proof (induction ks arbitrary: s)
    case Nil
    then show ?case by (simp add: moves_refl quiet_def same_data_def)
  next
    case (Cons k ks)
    let ?s = "watchForKey c k s"
    note one = watchForKey_moves [OF Cons.prems, where c = c and k = k]
    have "inv ?s" using one(1) by (simp add: moves_def)
    from Cons.IH [OF this] have ih: "moves c ?s (?f ks ?s)" "cas c ?s (?f ks ?s)" "quiet ?s (?f ks ?s)"
      "\<forall>k \<in> set ks. (k, db_of c ?s) \<in> set (cl_watched_keys (cl_of c (?f ks ?s)))"
      "cl_dirty_cas (cl_of c (?f ks ?s)) = cl_dirty_cas (cl_of c ?s)" by simp_all
    have "(k, db_of c s) \<in> set (cl_watched_keys (cl_of c (?f ks ?s)))" using one(4) ih(2) by (auto simp: cas_def)
    then show ?case
      using moves_trans [OF one(1) ih(1)] cas_trans [OF one(2) ih(2)] quiet_trans [OF one(3) ih(3)] ih(4,5) one(5,6) by simp
  qed
  then show "moves c s (?f ks s)" "cas c s (?f ks s)" "quiet s (?f ks s)"
    "\<forall>k \<in> set ks. (k, db_of c s) \<in> set (cl_watched_keys (cl_of c (?f ks s)))"
    "cl_dirty_cas (cl_of c (?f ks s)) = cl_dirty_cas (cl_of c s)" by simp_all
qed


section \<open>Commands\<close>

text \<open>The command that a procedure leaves for propagation.\<close>

definition leaves_plain :: "result \<Rightarrow> bool" where
  "leaves_plain m \<longleftrightarrow> (\<forall>s r cmd. m = Some (s, r, cmd) \<longrightarrow> \<not> immediate cmd)"

lemmas leaves_simps = leaves_plain_def immediate_def Let_def

lemma leaves_set: "leaves_plain (setGenericCommand nx xx get keepttl k v ex c s)"
  by (auto simp: setGenericCommand_def leaves_simps split: if_splits bind_splits prod.splits option.splits)

lemma leaves_bind: "(\<And>x. leaves_plain (f x)) \<Longrightarrow> leaves_plain (Option.bind m f)"
  by (cases m) (simp_all add: leaves_plain_def)

lemma leaves_Some: "leaves_plain (Some (s, r, cmd)) = (\<not> immediate cmd)" "leaves_plain None"
  by (simp_all add: leaves_plain_def)

lemma leaves_if: "leaves_plain a \<Longrightarrow> leaves_plain b \<Longrightarrow> leaves_plain (if P then a else b)"
  by simp

lemma leaves_option: "leaves_plain a \<Longrightarrow> (\<And>x. leaves_plain (f x)) \<Longrightarrow> leaves_plain (case ob of None \<Rightarrow> a | Some x \<Rightarrow> f x)"
  by (cases ob) simp_all

lemma leaves_prod: "(\<And>x y. leaves_plain (f x y)) \<Longrightarrow> leaves_plain (case z of (x, y) \<Rightarrow> f x y)"
  by (cases z) simp

lemmas leaves_intros = leaves_bind leaves_if leaves_option leaves_prod

lemma leaves_keys:
  "leaves_plain (delGenericCommand ks c s)" "leaves_plain (existsCommand ks c s)" "leaves_plain (renameGenericCommand nx k1 k2 c s)"
  "leaves_plain (moveCommand k i c s)" "leaves_plain (persistCommand k c s)" "leaves_plain (expireGenericCommand k n seconds relative c s)"
  unfolding delGenericCommand_def existsCommand_def renameGenericCommand_def moveCommand_def persistCommand_def expireGenericCommand_def Let_def
  by (intro leaves_intros; simp add: leaves_Some immediate_def)+

lemma leaves_dbs:
  "leaves_plain (flushdbCommand c s)" "leaves_plain (flushallCommand c s)" "leaves_plain (swapdbCommand i j c s)"
  "leaves_plain (selectCommand i c s)" "leaves_plain (unwatchCommand c s)"
  by (auto simp: flushdbCommand_def flushallCommand_def swapdbCommand_def selectCommand_def unwatchCommand_def
      leaves_simps split: if_splits bind_splits prod.splits option.splits)

lemma leaves_bits: "leaves_plain (stored_setbit k arg2 arg3 c s)" "leaves_plain (stored_getbit k arg2 c s)"
  by (auto simp: stored_setbit_def stored_getbit_def leaves_simps split: if_splits bind_splits prod.splits option.splits reply.splits)

lemma leaves_queued: "\<not> immediate cmd \<Longrightarrow> leaves_plain (queued_proc c cmd s)"
proof (cases cmd)
  case (GET k)
  then show ?thesis by (auto simp: queued_proc_def leaves_simps)
qed (simp_all add: queued_proc_def leaves_set leaves_keys leaves_dbs leaves_bits immediate_def)

text \<open>What a command does that runs for a client: it succeeds, and the guarantees above hold.\<close>

definition runs :: "nat \<Rightarrow> bool \<Rightarrow> server \<Rightarrow> result \<Rightarrow> bool" where
  "runs c keeps s m \<longleftrightarrow> (\<exists>s' r cmd. m = Some (s', r, cmd) \<and> moves c s s' \<and> (keeps \<longrightarrow> cas c s s'))"

lemma safe_runs: "safe {} s m fst \<Longrightarrow> inv s \<Longrightarrow> runs c b s m"
  using evolves_moves unfolding safe_def runs_def by (metis prod.collapse)

lemma select_runs: "inv s \<Longrightarrow> runs c b s (selectCommand i c s)"
proof -
  assume inv: "inv s"
  let ?f = "\<lambda>cl. cl\<lparr>cl_db := nat i\<rparr>"
  have "\<forall>cmd \<in> set (cl_commands (cl_of c s)). \<not> immediate cmd" using inv by (auto simp: inv_def queues_ok_def)
  then have "moves c s (upd_client c ?f s)" "cas c s (upd_client c ?f s)" using client_moves [OF inv, of ?f c] by simp_all
  then show ?thesis using inv by (simp add: selectCommand_def runs_def moves_refl)
qed

lemma unwatch_runs:
  assumes "inv s"
  shows "runs c False s (unwatchCommand c s)" "runs c False s (map_option (\<lambda>s. (s, r, cmd)) (freeClient c s))"
proof -
  obtain s' where s': "unwatchAllKeys c s = Some s'" "moves c s s'" "cl_of c s' = (cl_of c s)\<lparr>cl_watched_keys := []\<rparr>"
    using unwatch_moves [OF assms] by blast
  have inv: "inv s'" using s'(2) by (simp add: moves_def)
  then have "\<forall>cmd \<in> set (cl_commands (cl_of c s')). \<not> immediate cmd" by (auto simp: inv_def queues_ok_def)
  then have "moves c s' (upd_client c (\<lambda>cl. cl\<lparr>cl_dirty_cas := False\<rparr>) s')" by (intro client_moves [OF inv]) simp_all
  moreover have "moves c s' (upd_client c (\<lambda>_. new_client) s')"
    using s'(3) by (intro client_moves [OF inv]) (simp_all add: new_client_def)
  ultimately show "runs c False s (unwatchCommand c s)" "runs c False s (map_option (\<lambda>s. (s, r, cmd)) (freeClient c s))"
    using moves_trans [OF s'(2)] s'(1) by (simp_all add: unwatchCommand_def freeClient_def runs_def)
qed

lemma queued_runs:
  assumes "inv s" and "\<not> immediate cmd"
  shows "runs c (cmd \<noteq> UNWATCH) s (queued_proc c cmd s)"
proof -
  have ok: "expires_ok s" using assms(1) by (simp add: inv_def)
  note safes = set_safe [OF ok] del_safe [OF ok] exists_safe [OF ok] rename_safe [OF ok] move_safe [OF ok] flush_safe [OF ok]
    swapdb_safe [OF ok] expire_safe [OF ok] persist_safe [OF ok] setbit_safe [OF ok] getbit_safe [OF ok]
  show ?thesis
  proof (cases cmd)
    case (GET k)
    have "safe {} s (queued_proc c cmd s) fst"
      using getGenericCommand_safe [OF ok, of True "db_of c s" k] GET by (auto simp: queued_proc_def safe_def)
    then show ?thesis by (rule safe_runs [OF _ assms(1)])
  qed (use assms in \<open>simp_all add: queued_proc_def safe_runs safes select_runs unwatch_runs immediate_def\<close>)
qed

lemma moves_propagate:
  assumes "moves c s s'" and "keeps \<longrightarrow> cas c s s'" and "\<not> immediate cmd"
  shows "\<exists>s''. propagate d cmd s' = Some s'' \<and> moves c s s'' \<and> (keeps \<longrightarrow> cas c s s'') \<and> (sv_in_exec s \<longrightarrow> sv_propagate_in_transaction s'')"
proof -
  have "cmd \<noteq> MULTI" "cmd \<noteq> EXEC" using assms(3) by (auto simp: immediate_def)
  then obtain s'' where s'': "propagate d cmd s' = Some s''" "evolves {} s' s''" "same_data s' s''"
    "sv_in_exec s' \<longrightarrow> sv_propagate_in_transaction s''"
    using propagate_evolves [of cmd d s' "{}"] by blast
  have inv: "inv s'" and "sv_in_exec s' = sv_in_exec s" using assms(1) by (simp_all add: moves_def same_settings_def)
  moreover have "expires_ok s''" using inv s''(3) by (auto simp: inv_def expires_ok_def same_data_def)
  note m = evolves_moves [OF s''(2) inv this, of c]
  ultimately show ?thesis using s'' moves_trans [OF assms(1) m(1)] cas_trans [OF _ m(2)] assms(2) by auto
qed

text \<open>A command with a change to propagate leaves the transaction opened in the stream.\<close>

lemma call_queued:
  assumes "inv s" and "\<not> immediate cmd"
  shows "\<exists>s' r. call queued_proc prop c cmd s = Some (s', r) \<and> moves c s s' \<and> (cmd \<noteq> UNWATCH \<longrightarrow> cas c s s') \<and>
    (prop \<and> sv_in_exec s \<longrightarrow> sv_dirty s' = sv_dirty s \<or> sv_propagate_in_transaction s')"
proof -
  obtain s1 r cmd' where run: "queued_proc c cmd s = Some (s1, r, cmd')" "moves c s s1" "cmd \<noteq> UNWATCH \<longrightarrow> cas c s s1"
    using queued_runs [OF assms, of c] unfolding runs_def by blast
  have "\<not> immediate cmd'" using leaves_queued [OF assms(2)] run(1) by (auto simp: leaves_plain_def)
  from moves_propagate [OF run(2,3) this, of "db_of c s1"] obtain s2 where
    s2: "propagate (db_of c s1) cmd' s1 = Some s2" "moves c s s2" "cmd \<noteq> UNWATCH \<longrightarrow> cas c s s2"
      "sv_in_exec s \<longrightarrow> sv_propagate_in_transaction s2" by blast
  show ?thesis
  proof (cases "prop \<and> sv_dirty s1 - sv_dirty s > 0")
    case True
    then show ?thesis using run(1) s2 by (simp add: call_def)
  next
    case False
    then have "\<not> prop \<or> sv_dirty s1 = sv_dirty s" using run(2) by (auto simp: moves_def)
    then show ?thesis using run by (auto simp: call_def)
  qed
qed

lemma exec_loop_moves:
  assumes "inv s" and "\<forall>cmd \<in> set cmds. \<not> immediate cmd" and "sv_in_exec s"
  shows "\<exists>s' rs. exec_loop acl c cmds replies s = Some (s', rs) \<and> length rs = length replies + length cmds \<and> moves c s s' \<and>
    (sv_loading s \<or> sv_dirty s' = sv_dirty s \<or> sv_propagate_in_transaction s')"
  using assms
proof (induction cmds arbitrary: s replies)
  case Nil
  then show ?case by (simp add: moves_refl)
next
  case (Cons cmd cmds)
  show ?case
  proof (cases "acl c cmd")
    case False
    then show ?thesis using Cons.IH [of s "replies @ [Error ''NOPERM'']"] Cons.prems by auto
  next
    case True
    obtain s1 r where s1: "call queued_proc (\<not> sv_loading s) c cmd s = Some (s1, r)" "moves c s s1"
      "sv_loading s \<or> sv_dirty s1 = sv_dirty s \<or> sv_propagate_in_transaction s1"
      using call_queued [of s cmd "\<not> sv_loading s" c] Cons.prems by auto
    have st: "inv s1" "sv_in_exec s1" "sv_loading s1 = sv_loading s" using s1(2) Cons.prems by (auto simp: moves_def same_settings_def)
    obtain s' rs where s': "exec_loop acl c cmds (replies @ [r]) s1 = Some (s', rs)" "length rs = length replies + 1 + length cmds"
      "moves c s1 s'" "sv_loading s1 \<or> sv_dirty s' = sv_dirty s1 \<or> sv_propagate_in_transaction s'"
      using Cons.IH [of s1 "replies @ [r]"] Cons.prems st by auto
    have "sv_propagate_in_transaction s1 \<longrightarrow> sv_propagate_in_transaction s'"
      using s'(3) by (auto simp: moves_def log_step_def split: if_splits)
    then show ?thesis using True st(3) s1 s' moves_trans [OF s1(2) s'(3)] by auto
  qed
qed


section \<open>Requests\<close>

text \<open>Outside \<open>EXEC\<close> both flags of the server are clear.\<close>

definition idle :: "server \<Rightarrow> bool" where
  "idle s \<longleftrightarrow> inv s \<and> \<not> sv_in_exec s \<and> \<not> sv_propagate_in_transaction s"

text \<open>What a request appends to the stream: plain commands, or one transaction.\<close>

definition bracketed :: "(nat \<times> command) list \<Rightarrow> bool" where
  "bracketed l \<longleftrightarrow> plain l \<or> (\<exists>d l' d'. l = (d, MULTI) # l' @ [(d', EXEC)] \<and> plain l')"

definition config :: "server \<Rightarrow> nat \<times> bool \<times> bool \<times> bool \<times> nat" where
  "config s = (sv_dbnum s, sv_masterhost s, sv_slave_ro s, sv_loading s, sv_max_bulk_len s)"

definition steps :: "nat \<Rightarrow> bool \<Rightarrow> server \<Rightarrow> server \<Rightarrow> bool" where
  "steps c keeps s s' \<longleftrightarrow> idle s' \<and> (\<forall>c'. c' \<noteq> c \<or> keeps \<longrightarrow> cas c' s s') \<and> config s' = config s \<and>
     (\<exists>l. sv_stream s' = sv_stream s @ l \<and> (sv_loading s \<or> bracketed l))"

lemma moves_steps: "moves c s s' \<Longrightarrow> idle s \<Longrightarrow> (keeps \<longrightarrow> cas c s s') \<Longrightarrow> steps c keeps s s'"
  by (auto simp: moves_def steps_def idle_def log_step_def bracketed_def same_settings_def config_def)

lemma isWatchedKeyExpired_safe: "expires_ok s \<Longrightarrow> \<exists>b. isWatchedKeyExpired wks s = Some b"
proof (induction wks)
  case (Cons wk wks)
  then show ?case using keyIsExpired_safe [of s "snd wk" "fst wk"] by (cases wk) auto
qed (simp add: ex_bool_eq)

lemma isWatchedKeyExpired_False:
  "isWatchedKeyExpired wks s = Some False \<Longrightarrow> (k, d) \<in> set wks \<Longrightarrow> keyIsExpired d k s = Some False"
  by (induction wks) (auto split: bind_splits if_splits)

lemma mark_dirty_moves: "inv s \<Longrightarrow> moves c s (mark_dirty c s)" "quiet s (mark_dirty c s)"
  using client_moves [of s "\<lambda>cl. cl\<lparr>cl_dirty_cas := True\<rparr>" c]
  by (auto simp: mark_dirty_def inv_def queues_ok_def quiet_client)

text \<open>The two ends of \<open>EXEC\<close>: the transaction is discarded, or its commands have run.\<close>

definition no_transaction :: "client \<Rightarrow> bool" where
  "no_transaction cl \<longleftrightarrow> \<not> cl_multi cl \<and> cl_commands cl = [] \<and> cl_watched_keys cl = [] \<and> \<not> cl_dirty_cas cl \<and> \<not> cl_dirty_exec cl"

lemma exec_abort:
  assumes "idle s"
  shows "\<exists>s'. discardTransaction c s = Some s' \<and> steps c False s s' \<and> quiet s s' \<and> no_transaction (cl_of c s')"
proof -
  have "inv s" using assms by (simp add: idle_def)
  from discard_moves [OF this, of c] obtain s' where s': "discardTransaction c s = Some s'" "moves c s s'" "quiet s s'"
    "no_transaction (cl_of c s')" by (auto simp: no_transaction_def)
  then show ?thesis using moves_steps [OF s'(2) assms, of False] by simp
qed


text \<open>Two states with the same databases and clients.\<close>

definition same_base :: "server \<Rightarrow> server \<Rightarrow> bool" where
  "same_base s s' \<longleftrightarrow> sv_db s' = sv_db s \<and> sv_clients s' = sv_clients s"

lemma same_base_inv: "same_base s s' \<Longrightarrow> inv s' = inv s"
  by (simp add: same_base_def inv_def index_ok_def expires_ok_def queues_ok_def watching_def watchers_def dict_get_def expire_get_def)

lemma same_base_cas: "same_base s s' \<Longrightarrow> cas c s s'" "same_base s s' \<Longrightarrow> same_data s s'"
  by (simp_all add: same_base_def cas_def same_data_def data_at_def dict_get_def expire_get_def)

text \<open>The body of \<open>EXEC\<close>, from the point where the flag is set to the end of the transaction.\<close>

definition exec_body :: "(nat \<Rightarrow> command \<Rightarrow> bool) \<Rightarrow> nat \<Rightarrow> bool \<Rightarrow> server \<Rightarrow> (server \<times> cmd_reply list) option" where
  "exec_body acl c old_deny s = do {
     (s, replies) \<leftarrow> exec_loop acl c (cl_commands (cl_of c s)) [] s;
     let s = (if \<not> old_deny then upd_client c (\<lambda>cl. cl\<lparr>cl_deny_blocking := False\<rparr>) s else s);
     s \<leftarrow> discardTransaction c s;
     Some (s, replies)
   }"

lemma keep_queue: "inv s \<Longrightarrow> \<forall>cmd \<in> set (cl_commands (cl_of c s)). \<not> immediate cmd"
  by (simp add: inv_def queues_ok_def)

lemma deny_moves: "inv s \<Longrightarrow> moves c s (upd_client c (\<lambda>cl. cl\<lparr>cl_deny_blocking := b\<rparr>) s)"
  by (rule client_moves) (simp_all add: keep_queue)

lemma exec_body_moves:
  assumes "inv s" and "sv_in_exec s"
  shows "\<exists>s' rs. exec_body acl c old_deny s = Some (s', rs) \<and> length rs = length (cl_commands (cl_of c s)) \<and> moves c s s' \<and>
    no_transaction (cl_of c s') \<and> (sv_loading s \<or> sv_dirty s' = sv_dirty s \<or> sv_propagate_in_transaction s')"
proof -
  obtain s1 rs where s1: "exec_loop acl c (cl_commands (cl_of c s)) [] s = Some (s1, rs)" "length rs = length (cl_commands (cl_of c s))"
    "moves c s s1" "sv_loading s \<or> sv_dirty s1 = sv_dirty s \<or> sv_propagate_in_transaction s1"
    using exec_loop_moves [OF assms(1) keep_queue [OF assms(1), of c] assms(2), where acl = acl and c = c and replies = "[]"] by auto
  define s2 where "s2 = (if \<not> old_deny then upd_client c (\<lambda>cl. cl\<lparr>cl_deny_blocking := False\<rparr>) s1 else s1)"
  have inv1: "inv s1" using s1(3) by (simp add: moves_def)
  have s2: "moves c s1 s2" "quiet s1 s2"
    using deny_moves [OF inv1, of c False] moves_refl [OF inv1] by (simp_all add: s2_def quiet_client) (simp add: quiet_def same_data_def)
  then have "inv s2" by (simp add: moves_def)
  from discard_moves [OF this, of c] obtain s3 where s3: "discardTransaction c s2 = Some s3" "moves c s2 s3" "quiet s2 s3"
    "no_transaction (cl_of c s3)" by (auto simp: no_transaction_def)
  have "exec_body acl c old_deny s = Some (s3, rs)" using s1(1) s3(1) by (simp add: exec_body_def s2_def)
  moreover have "moves c s s3" using moves_trans [OF s1(3) moves_trans [OF s2(1) s3(2)]] .
  ultimately show ?thesis using s1(2,4) s2(2) s3(3,4) by (auto simp: quiet_def)
qed

lemma exec_runs:
  assumes idle: "idle s" and multi: "cl_multi (cl_of c s)" and fresh: "isWatchedKeyExpired (cl_watched_keys (cl_of c s)) s = Some False"
    and clean: "\<not> cl_dirty_cas (cl_of c s)" "\<not> cl_dirty_exec (cl_of c s)"
  shows "\<exists>s' rs l. execCommand acl c s = Some (s', Array rs, EXEC) \<and> length rs = length (cl_commands (cl_of c s)) \<and> idle s' \<and>
    no_transaction (cl_of c s') \<and> (\<forall>c'. c' \<noteq> c \<longrightarrow> cas c' s s') \<and> config s' = config s \<and> sv_stream s' = sv_stream s @ l \<and>
    (l = [] \<and> (sv_loading s \<or> sv_dirty s' = sv_dirty s) \<or> (\<exists>d l'. l = (d, MULTI) # l' \<and> plain l' \<and> sv_dirty s < sv_dirty s'))"
proof -
  let ?deny = "cl_deny_blocking (cl_of c s)"
  define s1 where "s1 = upd_client c (\<lambda>cl. cl\<lparr>cl_deny_blocking := True\<rparr>) s"
  have inv: "inv s" using idle by (simp add: idle_def)
  have s1: "moves c s s1" "quiet s s1" using deny_moves [OF inv] by (simp_all add: s1_def quiet_client)
  then have "inv s1" by (simp add: moves_def)
  then obtain s2 where s2: "unwatchAllKeys c s1 = Some s2" "moves c s1 s2" "quiet s1 s2" "cl_of c s2 = (cl_of c s1)\<lparr>cl_watched_keys := []\<rparr>"
    using unwatch_moves by blast
  have m: "moves c s s2" and q: "quiet s s2" using moves_trans [OF s1(1) s2(2)] quiet_trans [OF s1(2) s2(3)] by auto
  define s3 where "s3 = s2\<lparr>sv_in_exec := True\<rparr>"
  have b3: "same_base s2 s3" by (simp add: same_base_def s3_def)
  have "inv s3" using m same_base_inv [OF b3] by (simp add: moves_def)
  from exec_body_moves [OF this, where acl = acl and c = c and old_deny = ?deny]
  obtain s4 rs where s4: "exec_body acl c ?deny s3 = Some (s4, rs)" "length rs = length (cl_commands (cl_of c s3))" "moves c s3 s4"
    "no_transaction (cl_of c s4)" "sv_loading s3 \<or> sv_dirty s4 = sv_dirty s3 \<or> sv_propagate_in_transaction s4"
    by (auto simp: s3_def)
  define s5 where "s5 = (if sv_propagate_in_transaction s4 then (incr_dirty 1 s4)\<lparr>sv_propagate_in_transaction := False\<rparr> else s4)\<lparr>sv_in_exec := False\<rparr>"
  have b5: "same_base s4 s5" by (simp add: s5_def same_base_def incr_dirty_def)
  have run: "execCommand acl c s = Some (s5, Array rs, EXEC)"
    using multi fresh clean s4(1) s2(1)
    by (auto simp: execCommand_def exec_body_def Let_def s1_def s3_def s5_def afterPropagateExec_def incr_dirty_def split: bind_splits)
  have "idle s5" using s4(3) same_base_inv [OF b5] by (auto simp: idle_def moves_def s5_def)
  moreover have "cas c' s s5" if "c' \<noteq> c" for c'
  proof -
    have "cas c' s s2" "cas c' s3 s4" using m s4(3) that by (simp_all add: moves_def)
    then show ?thesis using cas_trans same_base_cas(1) [OF b3] same_base_cas(1) [OF b5] by blast
  qed
  moreover have "config s5 = config s" using m s4(3) by (simp add: moves_def same_settings_def config_def s3_def s5_def incr_dirty_def)
  moreover obtain l where l: "log_step s3 s4 l" using s4(3) by (auto simp: moves_def)
  have "sv_dirty s3 \<le> sv_dirty s4" "sv_dirty s3 = sv_dirty s" "sv_stream s3 = sv_stream s" "\<not> sv_propagate_in_transaction s3" "sv_in_exec s3"
    "sv_loading s3 = sv_loading s" using s4(3) q m idle by (simp_all add: moves_def quiet_def s3_def idle_def same_settings_def)
  then have "sv_stream s5 = sv_stream s @ l"
    "l = [] \<and> (sv_loading s \<or> sv_dirty s5 = sv_dirty s) \<or> (\<exists>d l'. l = (d, MULTI) # l' \<and> plain l' \<and> sv_dirty s < sv_dirty s5)"
    using l s4(5) by (auto simp: log_step_def s5_def incr_dirty_def)
  moreover have "length rs = length (cl_commands (cl_of c s))" using s4(2) s2(4) by (simp add: s3_def s1_def)
  moreover have "no_transaction (cl_of c s5)" using s4(4) b5 by (simp add: same_base_def)
  ultimately show ?thesis using run by blast
qed


text \<open>What \<open>EXEC\<close> answers: the replies of all the queued commands, or else nothing has changed.\<close>

definition exec_outcome :: "nat \<Rightarrow> server \<Rightarrow> server \<Rightarrow> cmd_reply \<Rightarrow> bool" where
  "exec_outcome c s s' r \<longleftrightarrow>
     (case r of
        Array rs \<Rightarrow> length rs = length (cl_commands (cl_of c s)) \<and> \<not> cl_dirty_cas (cl_of c s) \<and> \<not> cl_dirty_exec (cl_of c s) \<and>
          isWatchedKeyExpired (cl_watched_keys (cl_of c s)) s = Some False
      | _ \<Rightarrow> quiet s s')"

lemma quiet_refl: "quiet s s"
  by (simp add: quiet_def same_data_def)

lemma steps_refl: "idle s \<Longrightarrow> steps c keeps s s"
  by (rule moves_steps) (simp_all add: idle_def moves_refl)

lemma call_quiet: "run c cmd s = Some (s', r, cmd') \<Longrightarrow> quiet s s' \<Longrightarrow> call run prop c cmd s = Some (s', r)"
  by (simp add: call_def quiet_def)

lemma moves_idle: "moves c s s' \<Longrightarrow> idle s \<Longrightarrow> idle s'"
  using moves_steps [of c s s' False] by (simp add: steps_def)

lemma exec_call_abort:
  assumes idle: "idle s" and multi: "cl_multi (cl_of c s)" and expired: "isWatchedKeyExpired (cl_watched_keys (cl_of c s)) s = Some b"
    and dirty: "b \<or> cl_dirty_cas (cl_of c s) \<or> cl_dirty_exec (cl_of c s)"
  shows "\<exists>s' r. call (proc acl) True c EXEC s = Some (s', r) \<and> steps c False s s' \<and> exec_outcome c s s' r \<and> no_transaction (cl_of c s')"
proof -
  define s1 where "s1 = (if b then mark_dirty c s else s)"
  have inv: "inv s" using idle by (simp add: idle_def)
  have s1: "moves c s s1" "quiet s s1" using mark_dirty_moves(1) [OF inv] mark_dirty_moves(2) moves_refl [OF inv] quiet_refl by (simp_all add: s1_def)
  have d1: "cl_dirty_cas (cl_of c s1) \<or> cl_dirty_exec (cl_of c s1)" using dirty by (auto simp: s1_def mark_dirty_def)
  have "idle s1" using moves_idle [OF s1(1) idle] .
  then have "inv s1" by (simp add: idle_def)
  from discard_moves [OF this, of c] obtain s' where s': "discardTransaction c s1 = Some s'" "moves c s1 s'" "quiet s1 s'"
    "no_transaction (cl_of c s')" by (auto simp: no_transaction_def)
  define r where "r = (if cl_dirty_exec (cl_of c s1) then Error ''EXECABORT'' else NullArray)"
  have q: "quiet s s'" using quiet_trans [OF s1(2) s'(3)] .
  have "proc acl c EXEC s = Some (s', r, EXEC)"
    using multi expired d1 s'(1) by (auto simp: proc_def execCommand_def s1_def r_def Let_def)
  then have "call (proc acl) True c EXEC s = Some (s', r)" using q by (rule call_quiet)
  moreover have "steps c False s s'" using moves_steps [OF moves_trans [OF s1(1) s'(2)] idle] by simp
  moreover have "exec_outcome c s s' r" using q by (simp add: exec_outcome_def r_def)
  ultimately show ?thesis using s'(4) by blast
qed

lemma same_base_feed: "same_base s (feed d cmd s)"
  by (simp add: same_base_def feed_def)

lemma exec_call_run:
  assumes idle: "idle s" and multi: "cl_multi (cl_of c s)" and fresh: "isWatchedKeyExpired (cl_watched_keys (cl_of c s)) s = Some False"
    and clean: "\<not> cl_dirty_cas (cl_of c s)" "\<not> cl_dirty_exec (cl_of c s)"
  shows "\<exists>s' r. call (proc acl) True c EXEC s = Some (s', r) \<and> steps c False s s' \<and> exec_outcome c s s' r \<and> no_transaction (cl_of c s')"
proof -
  obtain s1 rs l where s1: "execCommand acl c s = Some (s1, Array rs, EXEC)" "length rs = length (cl_commands (cl_of c s))" "idle s1"
    "no_transaction (cl_of c s1)" "\<forall>c'. c' \<noteq> c \<longrightarrow> cas c' s s1" "config s1 = config s" "sv_stream s1 = sv_stream s @ l"
    "l = [] \<and> (sv_loading s \<or> sv_dirty s1 = sv_dirty s) \<or> (\<exists>d l'. l = (d, MULTI) # l' \<and> plain l' \<and> sv_dirty s < sv_dirty s1)"
    using exec_runs [OF assms, of acl] by blast
  define s2 where "s2 = (if sv_dirty s < sv_dirty s1 then feed (db_of c s1) EXEC s1 else s1)"
  have call: "call (proc acl) True c EXEC s = Some (s2, Array rs)"
    using s1(1,3) by (auto simp: call_def proc_def s2_def propagate_def idle_def)
  have base: "same_base s1 s2" using same_base_feed by (simp add: s2_def) (simp add: same_base_def)
  have "idle s2" using s1(3) same_base_inv [OF base] by (simp add: idle_def s2_def feed_def)
  moreover have "\<forall>c'. c' \<noteq> c \<longrightarrow> cas c' s s2" using s1(5) cas_trans same_base_cas(1) [OF base] by blast
  moreover have "config s2 = config s" using s1(6) by (simp add: s2_def feed_def config_def)
  moreover have "\<exists>l. sv_stream s2 = sv_stream s @ l \<and> (sv_loading s \<or> bracketed l)"
  proof (cases "sv_dirty s < sv_dirty s1")
    case True
    then have "sv_stream s2 = sv_stream s @ l @ [(db_of c s1, EXEC)]" using s1(7) by (simp add: s2_def feed_def)
    moreover have "sv_loading s \<or> bracketed (l @ [(db_of c s1, EXEC)])" using True s1(8) by (auto simp: bracketed_def)
    ultimately show ?thesis by blast
  next
    case False
    then show ?thesis using s1(7,8) by (auto simp: s2_def bracketed_def plain_def)
  qed
  ultimately have "steps c False s s2" by (auto simp: steps_def)
  moreover have "no_transaction (cl_of c s2)" using s1(4) base by (simp add: same_base_def)
  ultimately show ?thesis using call s1(2) fresh clean by (auto simp: exec_outcome_def)
qed

lemma exec_call:
  assumes "idle s"
  shows "\<exists>s' r. call (proc acl) True c EXEC s = Some (s', r) \<and> steps c False s s' \<and> exec_outcome c s s' r \<and>
    (cl_multi (cl_of c s) \<longrightarrow> no_transaction (cl_of c s'))"
proof (cases "cl_multi (cl_of c s)")
  case True
  obtain b where b: "isWatchedKeyExpired (cl_watched_keys (cl_of c s)) s = Some b"
    using isWatchedKeyExpired_safe assms by (auto simp: idle_def inv_def)
  then show ?thesis
    using exec_call_run [OF assms True, of acl] exec_call_abort [OF assms True b, of acl] by (cases b) auto
next
  case False
  then have "call (proc acl) True c EXEC s = Some (s, Error ''EXEC without MULTI'')"
    by (intro call_quiet) (simp_all add: proc_def execCommand_def quiet_refl)
  then show ?thesis using False steps_refl [OF assms] quiet_refl by (simp add: exec_outcome_def)
qed


text \<open>The requests after which a client may watch nothing.\<close>

definition ends_watch :: "command option \<Rightarrow> bool" where
  "ends_watch request \<longleftrightarrow> request = Some EXEC \<or> request = Some DISCARD \<or> request = Some UNWATCH"

definition serves :: "nat \<Rightarrow> bool \<Rightarrow> server \<Rightarrow> (server \<times> cmd_reply) option \<Rightarrow> bool" where
  "serves c keeps s m \<longleftrightarrow> (\<exists>s' r. m = Some (s', r) \<and> steps c keeps s s')"

lemma serves_moves: "m = Some (s', r) \<Longrightarrow> idle s \<Longrightarrow> moves c s s' \<Longrightarrow> (keeps \<longrightarrow> cas c s s') \<Longrightarrow> serves c keeps s m"
  using moves_steps by (auto simp: serves_def)

lemma flagTransaction_moves:
  assumes "inv s"
  shows "moves c s (flagTransaction c s)" "cas c s (flagTransaction c s)" "quiet s (flagTransaction c s)"
  using client_moves [OF assms, of "\<lambda>cl. cl\<lparr>cl_dirty_exec := True\<rparr>" c] keep_queue [OF assms, of c]
  by (auto simp: flagTransaction_def quiet_client moves_refl [OF assms] quiet_refl)

text \<open>A rejected request changes no data.\<close>

lemma reject_serves:
  assumes "idle s"
  shows "\<exists>s' r. rejectCommand msg request c s = Some (s', r) \<and> steps c (\<not> ends_watch request) s s' \<and> quiet s s' \<and>
    (request = Some EXEC \<longrightarrow> no_transaction (cl_of c s')) \<and> \<not> (\<exists>rs. r = Array rs)"
proof -
  have inv: "inv s" using assms by (simp add: idle_def)
  note flag = flagTransaction_moves [OF inv, of c]
  show ?thesis
  proof (cases "request = Some EXEC")
    case True
    have "inv (flagTransaction c s)" using flag(1) by (simp add: moves_def)
    from discard_moves [OF this, of c] obtain s' where s': "discardTransaction c (flagTransaction c s) = Some s'"
      "moves c (flagTransaction c s) s'" "quiet (flagTransaction c s) s'" "no_transaction (cl_of c s')"
      by (auto simp: no_transaction_def)
    then show ?thesis using True moves_steps [OF moves_trans [OF flag(1) s'(2)] assms] quiet_trans [OF flag(3) s'(3)]
      by (simp add: rejectCommand_def ends_watch_def)
  next
    case False
    then show ?thesis using moves_steps [OF flag(1) assms] flag(2,3) by (simp add: rejectCommand_def)
  qed
qed

lemma queue_serves:
  assumes "idle s" and "\<not> immediate cmd"
  shows "steps c True s (queueMultiCommand cmd c s)"
proof -
  let ?f = "\<lambda>cl. cl\<lparr>cl_commands := cl_commands cl @ [cmd], cl_cmd_flags := cl_cmd_flags cl OR cmd_flags cmd,
    cl_cmd_inv_flags := cl_cmd_inv_flags cl OR NOT (cmd_flags cmd)\<rparr>"
  have inv: "inv s" using assms by (simp add: idle_def)
  then have "moves c s (upd_client c ?f s)" "cas c s (upd_client c ?f s)"
    using client_moves [OF inv, of ?f c] keep_queue [OF inv, of c] assms(2) by auto
  then show ?thesis using moves_steps [OF _ assms(1)] steps_refl [OF assms(1)] by (simp add: queueMultiCommand_def)
qed

lemma multi_serves:
  assumes "idle s"
  shows "serves c True s (call (proc acl) True c MULTI s)"
proof -
  have inv: "inv s" using assms by (simp add: idle_def)
  let ?f = "\<lambda>cl. cl\<lparr>cl_multi := True\<rparr>"
  define s' where "s' = (if cl_multi (cl_of c s) then s else upd_client c ?f s)"
  have "moves c s s'" "cas c s s'" "quiet s s'"
    using client_moves [OF inv, of ?f c] keep_queue [OF inv, of c] moves_refl [OF inv] by (auto simp: s'_def quiet_client quiet_refl)
  moreover have "\<exists>r. proc acl c MULTI s = Some (s', r, MULTI)" by (simp add: proc_def multiCommand_def s'_def)
  ultimately show ?thesis using assms by (auto intro: serves_moves [OF call_quiet])
qed

lemma discard_serves:
  assumes "idle s"
  shows "serves c False s (call (proc acl) True c DISCARD s)"
proof (cases "cl_multi (cl_of c s)")
  case True
  have inv: "inv s" using assms by (simp add: idle_def)
  from discard_moves [OF this, of c] obtain s' where s': "discardTransaction c s = Some s'" "moves c s s'" "quiet s s'" by auto
  then have "proc acl c DISCARD s = Some (s', Ok, DISCARD)" using True by (simp add: proc_def discardCommand_def)
  then have "call (proc acl) True c DISCARD s = Some (s', Ok)" using s'(3) by (rule call_quiet)
  then show ?thesis using assms s'(2) by (rule serves_moves) simp
next
  case False
  then have "call (proc acl) True c DISCARD s = Some (s, Error ''DISCARD without MULTI'')"
    by (intro call_quiet) (simp_all add: proc_def discardCommand_def quiet_refl)
  then show ?thesis using steps_refl [OF assms] by (simp add: serves_def)
qed

text \<open>\<open>WATCH\<close> outside a transaction leaves the client watching the keys, with their data as before.\<close>

lemma watch_call:
  assumes "idle s"
  shows "\<exists>s' r. call (proc acl) True c (WATCH ks) s = Some (s', r) \<and> steps c True s s' \<and> quiet s s' \<and>
    (r = Ok \<longrightarrow> (\<forall>k \<in> set ks. (k, db_of c s) \<in> set (cl_watched_keys (cl_of c s'))))"
proof (cases "cl_multi (cl_of c s)")
  case True
  then have "call (proc acl) True c (WATCH ks) s = Some (s, Error ''WATCH inside MULTI is not allowed'')"
    by (intro call_quiet) (simp_all add: proc_def watchCommand_def quiet_refl)
  then show ?thesis using steps_refl [OF assms] quiet_refl by simp
next
  case False
  have inv: "inv s" using assms by (simp add: idle_def)
  note w = watch_all [OF inv, where c = c and ks = ks]
  have "proc acl c (WATCH ks) s = Some (fold (watchForKey c) ks s, Ok, WATCH ks)" using False by (simp add: proc_def watchCommand_def)
  from call_quiet [of "proc acl", OF this w(3)] show ?thesis using w(3,4) moves_steps [OF w(1) assms] w(2) by simp
qed

lemma plain_serves:
  assumes "idle s" and "\<not> immediate cmd"
  shows "serves c (cmd \<noteq> UNWATCH) s (call (proc acl) True c cmd s)"
proof -
  have "proc acl c cmd s = queued_proc c cmd s" using assms(2) by (cases cmd) (simp_all add: proc_def immediate_def)
  then have "call (proc acl) True c cmd s = call queued_proc True c cmd s" by (simp add: call_def)
  moreover obtain s' r where "call queued_proc True c cmd s = Some (s', r)" "moves c s s'" "cmd \<noteq> UNWATCH \<longrightarrow> cas c s s'"
    using call_queued [of s cmd True c] assms by (auto simp: idle_def)
  ultimately show ?thesis using serves_moves [OF _ assms(1)] by simp
qed

lemma call_serves:
  assumes "idle s"
  shows "serves c (\<not> ends_watch (Some cmd)) s (call (proc acl) True c cmd s)"
proof (cases cmd)
  case EXEC
  then show ?thesis using exec_call [OF assms, of acl c] by (auto simp: serves_def ends_watch_def)
next
  case (WATCH ks)
  then show ?thesis using watch_call [OF assms, of acl c ks] by (auto simp: serves_def ends_watch_def)
next
  case MULTI
  then show ?thesis using multi_serves [OF assms] by (simp add: ends_watch_def)
next
  case DISCARD
  then show ?thesis using discard_serves [OF assms] by (simp add: ends_watch_def)
qed (use plain_serves [OF assms, of cmd c acl] in \<open>simp_all add: ends_watch_def immediate_def\<close>)

lemma reject_serves': "idle s \<Longrightarrow> serves c (\<not> ends_watch request) s (rejectCommand msg request c s)"
  using reject_serves unfolding serves_def by blast

lemma request_serves:
  assumes "idle s"
  shows "serves c (\<not> ends_watch request) s (processCommand acl co c request s)"
proof (cases request)
  case None
  then show ?thesis using assms reject_serves' [OF assms, of c None] by (simp add: processCommand_def idle_def)
next
  case (Some cmd)
  note parts = reject_serves' [OF assms, of c "Some cmd"] call_serves [OF assms, of c cmd acl]
  have "serves c (\<not> ends_watch (Some cmd)) s (Some (queueMultiCommand cmd c s, Queued))" if "\<not> immediate cmd"
    using queue_serves [OF assms that, of c] by (auto simp: serves_def steps_def)
  then show ?thesis using parts Some assms by (simp add: processCommand_def idle_def Let_def)
qed


section \<open>Events\<close>

lemma expire_cycle_safe: "expires_ok s \<Longrightarrow> safe {} s (activeExpireCycleTryExpire d k s) id" "expires_ok s \<Longrightarrow> safe {} s (evict_key d k s) id"
proof -
  assume ok: "expires_ok s"
  obtain s' where s': "propagateExpire d k s = Some s'" "evolves {} s s'" "same_data s s'"
    using propagate_evolves [of "DEL [k]" d s "{}"] by (auto simp: propagateExpire_def)
  have ok': "expires_ok s'" using same_data_ok [OF s'(3)] ok by simp
  let ?s = "touchWatchedKey d k (fst (dbSyncDelete d k s'))"
  have "evolves {} s ?s" "expires_ok ?s" using evolves_trans [OF s'(2) delete_touch(1) [OF ok']] delete_touch(2) [OF ok'] by simp_all
  then show "safe {} s (activeExpireCycleTryExpire d k s) id" "safe {} s (evict_key d k s) id" using s'(1) ok
    by (auto simp: activeExpireCycleTryExpire_def evict_key_def safe_def signalModifiedKey_def split: option.split)
qed

lemma safe_serves:
  assumes "safe {} s m id" and "idle s"
  shows "serves c True s (map_option (\<lambda>s. (s, r)) m)"
proof (rule safe_obtain [OF assms(1)])
  fix s' assume s': "m = Some s'" "expires_ok (id s')" "evolves {} s (id s')"
  have "inv s" using assms(2) by (simp add: idle_def)
  from evolves_moves [OF _ this, of s' c] s' show ?thesis using assms(2) by (intro serves_moves) simp_all
qed

text \<open>The client an event belongs to, and whether it ends what the client watches.\<close>

fun event_client :: "event \<Rightarrow> nat" where
  "event_client (Request c _ _) = c"
| "event_client (Close c) = c"
| "event_client _ = 0"

fun unwatches :: "nat \<Rightarrow> event \<Rightarrow> bool" where
  "unwatches c (Request c' request _) \<longleftrightarrow> c' = c \<and> ends_watch request"
| "unwatches c (Close c') \<longleftrightarrow> c' = c"
| "unwatches c _ \<longleftrightarrow> False"

lemma serves_now: "serves c keeps (s\<lparr>sv_now := t\<rparr>) m \<Longrightarrow> serves c keeps s m"
proof -
  assume "serves c keeps (s\<lparr>sv_now := t\<rparr>) m"
  moreover have "cas c' s (s\<lparr>sv_now := t\<rparr>)" for c' by (rule same_base_cas) (simp add: same_base_def)
  ultimately show ?thesis using cas_trans by (fastforce simp: serves_def steps_def config_def)
qed

lemma idle_now: "idle (s\<lparr>sv_now := t\<rparr>) = idle s"
  using same_base_inv [of s "s\<lparr>sv_now := t\<rparr>"] by (simp add: idle_def same_base_def)

lemma handle_serves:
  assumes "idle s"
  shows "serves (event_client e) (\<not> unwatches (event_client e) e) s (handle acl (t, e) s)"
proof -
  let ?s = "s\<lparr>sv_now := t\<rparr>"
  have idle: "idle ?s" using assms by (simp add: idle_now)
  then have ok: "expires_ok ?s" "inv ?s" by (simp_all add: idle_def inv_def)
  have "serves (event_client e) (\<not> unwatches (event_client e) e) ?s (handle acl (t, e) s)"
  proof (cases e)
    case (Request c request co)
    then show ?thesis using request_serves [OF idle] by (simp add: handle_def)
  next
    case (ExpireCycle d k)
    have "safe {} ?s (if sv_masterhost ?s then Some ?s else activeExpireCycleTryExpire d k ?s) id"
      using expire_cycle_safe(1) [OF ok(1), of d k] ok(1) by (simp add: safe_def)
    from safe_serves [OF this idle] show ?thesis using ExpireCycle by (simp add: handle_def Let_def)
  next
    case (Evict d k)
    then show ?thesis using safe_serves [OF expire_cycle_safe(2) [OF ok(1), of d k] idle] by (simp add: handle_def)
  next
    case (Close c)
    obtain s' where "freeClient c ?s = Some s'" "moves c ?s s'" using unwatch_runs(2) [OF ok(2)] by (auto simp: runs_def)
    then show ?thesis using Close idle by (auto simp: handle_def intro: serves_moves)
  qed
  then show ?thesis by (rule serves_now)
qed

lemma handle_steps:
  assumes "idle s" and "handle acl (t, e) s = Some (s', r)"
  shows "idle s'" "\<not> unwatches c e \<Longrightarrow> cas c s s'" "config s' = config s" "\<exists>l. sv_stream s' = sv_stream s @ l \<and> (sv_loading s \<or> bracketed l)"
proof -
  have st: "steps (event_client e) (\<not> unwatches (event_client e) e) s s'"
    using handle_serves [OF assms(1), of e acl t] assms(2) by (simp add: serves_def)
  then show "idle s'" "config s' = config s" "\<exists>l. sv_stream s' = sv_stream s @ l \<and> (sv_loading s \<or> bracketed l)"
    by (simp_all add: steps_def)
  have "unwatches (event_client e) e \<Longrightarrow> c \<noteq> event_client e \<or> unwatches c e" by auto
  then show "cas c s s'" if "\<not> unwatches c e" using st that by (auto simp: steps_def)
qed

lemma handle_all_steps:
  "idle s \<Longrightarrow> \<exists>s'. handle_all acl tes s = Some s' \<and> idle s' \<and> config s' = config s \<and> ((\<forall>te \<in> set tes. \<not> unwatches c (snd te)) \<longrightarrow> cas c s s')"
proof (induction tes arbitrary: s)
  case (Cons te tes)
  obtain t e where te: "te = (t, e)" by (cases te)
  obtain s1 r where s1: "handle acl (t, e) s = Some (s1, r)" using handle_serves [OF Cons.prems, of e acl t] by (auto simp: serves_def)
  note h = handle_steps [OF Cons.prems s1]
  obtain s' where s': "handle_all acl tes s1 = Some s'" "idle s'" "config s' = config s1" "(\<forall>te \<in> set tes. \<not> unwatches c (snd te)) \<longrightarrow> cas c s1 s'"
    using Cons.IH [OF h(1)] by blast
  then show ?case using s1 te h(3) cas_trans [OF h(2) [of c]] by auto
qed simp

lemma idle_init: "idle (initServer dbnum masterhost slave_ro loading max_bulk_len)"
  by (simp add: idle_def inv_def index_ok_def expires_ok_def queues_ok_def watching_def initServer_def new_client_def
      watchers_def dict_get_def expire_get_def)


text \<open>A request that is not queued is rejected or called.\<close>

lemma immediate_request:
  assumes "idle s" and "immediate cmd"
  shows "(\<exists>msg. processCommand acl co c (Some cmd) s = rejectCommand msg (Some cmd) c s) \<or>
    processCommand acl co c (Some cmd) s = call (proc acl) True c cmd s"
proof -
  define R where "R m \<longleftrightarrow> (\<exists>msg. m = rejectCommand msg (Some cmd) c s) \<or> m = call (proc acl) True c cmd s" for m
  have "R (rejectCommand msg (Some cmd) c s)" "R (call (proc acl) True c cmd s)" for msg by (auto simp: R_def)
  then have "R (processCommand acl co c (Some cmd) s)" using assms by (simp add: processCommand_def idle_def Let_def)
  then show ?thesis by (simp add: R_def)
qed

lemma exec_request:
  assumes "idle s" and "processCommand acl co c (Some EXEC) s = Some (s', r)"
  shows "exec_outcome c s s' r" "cl_multi (cl_of c s) \<Longrightarrow> no_transaction (cl_of c s')"
proof -
  have "(\<exists>msg. processCommand acl co c (Some EXEC) s = rejectCommand msg (Some EXEC) c s) \<or>
    processCommand acl co c (Some EXEC) s = call (proc acl) True c EXEC s"
    using assms(1) by (intro immediate_request) (simp_all add: immediate_def)
  then have "exec_outcome c s s' r \<and> (cl_multi (cl_of c s) \<longrightarrow> no_transaction (cl_of c s'))"
  proof
    assume "\<exists>msg. processCommand acl co c (Some EXEC) s = rejectCommand msg (Some EXEC) c s"
    then obtain msg where "rejectCommand msg (Some EXEC) c s = Some (s', r)" using assms(2) by auto
    with reject_serves [OF assms(1), of msg "Some EXEC" c] have "quiet s s'" "no_transaction (cl_of c s')" "\<nexists>rs. r = Array rs" by auto
    then show ?thesis by (cases r) (simp_all add: exec_outcome_def)
  next
    assume "processCommand acl co c (Some EXEC) s = call (proc acl) True c EXEC s"
    then show ?thesis using exec_call [OF assms(1), of acl c] assms(2) by auto
  qed
  then show "exec_outcome c s s' r" "cl_multi (cl_of c s) \<Longrightarrow> no_transaction (cl_of c s')" by simp_all
qed

lemma watch_request:
  assumes "idle s" and "processCommand acl co c (Some (WATCH ks)) s = Some (s', Ok)"
  shows "quiet s s'" "\<forall>k \<in> set ks. (k, db_of c s) \<in> set (cl_watched_keys (cl_of c s'))"
proof -
  have "immediate (WATCH ks)" by (simp add: immediate_def)
  moreover have "rejectCommand msg (Some (WATCH ks)) c s \<noteq> Some (s', Ok)" for msg by (simp add: rejectCommand_def Let_def)
  ultimately have "processCommand acl co c (Some (WATCH ks)) s = call (proc acl) True c (WATCH ks) s"
    using immediate_request [OF assms(1), of "WATCH ks" acl co c] assms(2) by metis
  then show "quiet s s'" "\<forall>k \<in> set ks. (k, db_of c s) \<in> set (cl_watched_keys (cl_of c s'))"
    using watch_call [OF assms(1), of acl c ks] assms(2) by auto
qed

lemma transaction_protected:
  assumes "idle s" and w: "handle acl (t, Request c (Some (WATCH ks)) co) s = Some (s1, Ok)"
    and run: "handle_all acl tes s1 = Some s2" "\<forall>te \<in> set tes. \<not> unwatches c (snd te)"
    and ex: "handle acl (t', Request c (Some EXEC) co') s2 = Some (s3, Array rs)" and k: "k \<in> set ks"
  shows "data_at s2 (db_of c s) k = data_at s (db_of c s) k" "keyIsExpired (db_of c s) k (s2\<lparr>sv_now := t'\<rparr>) = Some False"
proof -
  let ?d = "db_of c s"
  have idle: "idle (s\<lparr>sv_now := t\<rparr>)" using assms(1) by (simp add: idle_now)
  have "processCommand acl co c (Some (WATCH ks)) (s\<lparr>sv_now := t\<rparr>) = Some (s1, Ok)" using w by (simp add: handle_def)
  from watch_request [OF idle this] k have s1: "same_data (s\<lparr>sv_now := t\<rparr>) s1" "(k, ?d) \<in> set (cl_watched_keys (cl_of c s1))"
    by (simp_all add: quiet_def)
  have "idle s1" using handle_steps(1) [OF assms(1) w] .
  then have s2: "idle s2" "cas c s1 s2" using handle_all_steps [of s1 acl tes c] run by auto
  have "processCommand acl co' c (Some EXEC) (s2\<lparr>sv_now := t'\<rparr>) = Some (s3, Array rs)" using ex by (simp add: handle_def)
  from exec_request(1) [OF _ this] s2(1) have out: "\<not> cl_dirty_cas (cl_of c s2)"
    "isWatchedKeyExpired (cl_watched_keys (cl_of c s2)) (s2\<lparr>sv_now := t'\<rparr>) = Some False"
    by (auto simp: exec_outcome_def idle_now)
  have in2: "(k, ?d) \<in> set (cl_watched_keys (cl_of c s2))" and "data_at s2 ?d k = data_at s1 ?d k"
    using s1(2) s2(2) out(1) by (auto simp: cas_def)
  moreover have "data_at s1 ?d k = data_at s ?d k" using s1(1) by (simp add: same_data_def data_at_def dict_get_def expire_get_def)
  ultimately show "data_at s2 ?d k = data_at s ?d k" by simp
  show "keyIsExpired ?d k (s2\<lparr>sv_now := t'\<rparr>) = Some False" by (rule isWatchedKeyExpired_False [OF out(2) in2])
qed

lemma idle_reached:
  assumes "handle_all acl tes (initServer dbnum masterhost slave_ro loading max_bulk_len) = Some s"
  shows "idle s" "sv_loading s = loading"
  using handle_all_steps [OF idle_init [of dbnum masterhost slave_ro loading max_bulk_len], of acl tes] assms
  by (auto simp: config_def initServer_def)

text \<open>For runs on concrete input: the state after an event with a known reply, and after a run.\<close>

lemma known_reply: "map_option snd m = Some r \<Longrightarrow> m = Some (fst (the m), r)"
  by (cases m) auto

lemma known_run: "m \<noteq> None \<Longrightarrow> m = Some (the m)"
  by simp

text \<open>
  A sample run: client 2 stores a key, client 1 watches it and queues a command that overwrites it, and client 2
  reads it meanwhile.
\<close>

definition anyone :: "nat \<Rightarrow> command \<Rightarrow> bool" where
  "anyone c cmd = True"

definition fine :: conditions where
  "fine = \<lparr>co_auth_required = False, co_pubsub = False, co_replica = False, co_out_of_memory = False, co_disk_error = False,
     co_few_replicas = False, co_stale = False\<rparr>"

definition sample_init :: server where
  "sample_init = initServer 1 False False False 64"

definition sample_history :: "(int \<times> event) list" where
  "sample_history = [(1, Request 2 (Some (SET False False False False ''k'' (IntObj 7) None)) fine)]"

definition sample_stored :: server where
  "sample_stored = the (handle_all anyone sample_history sample_init)"

definition sample_watched :: server where
  "sample_watched = fst (the (handle anyone (2, Request 1 (Some (WATCH [''k''])) fine) sample_stored))"

definition sample_events :: "(int \<times> event) list" where
  "sample_events = [(3, Request 1 (Some MULTI) fine), (4, Request 2 (Some (GET ''k'')) fine),
     (5, Request 1 (Some (SET False False False False ''k'' (IntObj 8) None)) fine)]"

definition sample_queued :: server where
  "sample_queued = the (handle_all anyone sample_events sample_watched)"

definition sample_exec :: "(server \<times> cmd_reply) option" where
  "sample_exec = handle anyone (6, Request 1 (Some EXEC) fine) sample_queued"

lemma handle_all_append: "handle_all acl (tes @ tes') s = Option.bind (handle_all acl tes s) (handle_all acl tes')"
  by (induction tes arbitrary: s) (auto split: bind_splits)

lemma sample_runs:
  "handle_all anyone sample_history sample_init = Some sample_stored"
  "handle anyone (2, Request 1 (Some (WATCH [''k''])) fine) sample_stored = Some (sample_watched, Ok)"
  "handle_all anyone sample_events sample_watched = Some sample_queued"
  "handle anyone (6, Request 1 (Some EXEC) fine) sample_queued = Some (fst (the sample_exec), Array [Ok])"
proof -
  have "handle_all anyone sample_history sample_init \<noteq> None"
    unfolding sample_init_def using idle_init handle_all_steps by (metis option.distinct(1))
  then show "handle_all anyone sample_history sample_init = Some sample_stored" unfolding sample_stored_def by (rule known_run)
  have "map_option snd (handle anyone (2, Request 1 (Some (WATCH [''k''])) fine) sample_stored) = Some Ok" by code_simp
  then show w: "handle anyone (2, Request 1 (Some (WATCH [''k''])) fine) sample_stored = Some (sample_watched, Ok)"
    unfolding sample_watched_def by (rule known_reply)
  have "map_option sv_dirty (handle_all anyone sample_events sample_watched) = Some 1" by code_simp
  then have "handle_all anyone sample_events sample_watched \<noteq> None" by auto
  then show "handle_all anyone sample_events sample_watched = Some sample_queued" unfolding sample_queued_def by (rule known_run)
  have "map_option snd sample_exec = Some (Array [Ok])" by code_simp
  from known_reply [OF this] show "handle anyone (6, Request 1 (Some EXEC) fine) sample_queued = Some (fst (the sample_exec), Array [Ok])"
    unfolding sample_exec_def .
qed

lemma sample_reached:
  "handle_all anyone (sample_history @ (2, Request 1 (Some (WATCH [''k''])) fine) # sample_events) sample_init = Some sample_queued"
  using sample_runs(1-3) by (simp add: handle_all_append)

section \<open>Properties\<close>

text \<open>
  C4. Optimistic locking: in any run of the server, if a client watches keys, then any requests of any clients,
  expirations, evictions and closed connections follow in which that client neither ends its
  transaction nor unwatches, and then its \<^verbatim>\<open>EXEC\<close> answers with the replies of the commands, every watched key has
  at that time the value and the expire time it had when it was watched, and is not expired.
\<close>

theorem watch_exec_correct:
  assumes "handle_all acl history (initServer dbnum masterhost slave_ro loading max_bulk_len) = Some s"
    and "handle acl (t, Request c (Some (WATCH ks)) co) s = Some (s1, Ok)"
    and "handle_all acl tes s1 = Some s2" and "\<forall>te \<in> set tes. \<not> unwatches c (snd te)"
    and "handle acl (t', Request c (Some EXEC) co') s2 = Some (s3, Array rs)" and "k \<in> set ks" and "d = cl_db (sv_clients s c)"
  shows "dict_get d k s2 = dict_get d k s \<and> expire_get d k s2 = expire_get d k s \<and>
    keyIsExpired d k (s2\<lparr>sv_now := t'\<rparr>) = Some False"
  using transaction_protected [OF idle_reached(1) [OF assms(1)] assms(2-6)] assms(7) by (simp add: data_at_def)

theorem watch_exec_correct_witness:
  "dict_get 0 ''k'' sample_queued = dict_get 0 ''k'' sample_stored \<and> expire_get 0 ''k'' sample_queued = expire_get 0 ''k'' sample_stored \<and>
   keyIsExpired 0 ''k'' (sample_queued\<lparr>sv_now := 6\<rparr>) = Some False"
proof (rule watch_exec_correct [OF sample_runs(1) [unfolded sample_init_def] sample_runs(2,3) _ sample_runs(4)])
  show "\<forall>te \<in> set sample_events. \<not> unwatches 1 (snd te)" by (simp add: sample_events_def ends_watch_def)
  show "0 = cl_db (sv_clients sample_stored 1)" by code_simp
qed simp

text \<open>
  C8. Every run of the server goes through without a failed assertion, and afterwards the two
  records of the watched keys agree: a client is listed at a key of a database exactly if it lists the key; every key with an
  expire time exists; no queue has a command that is executed at once; and no
  transaction is open in the propagated stream.
\<close>

theorem server_invariant:
  "\<exists>s. handle_all acl tes (initServer dbnum masterhost slave_ro loading max_bulk_len) = Some s \<and>
     index_ok s \<and> expires_ok s \<and> queues_ok s \<and> \<not> sv_in_exec s \<and> \<not> sv_propagate_in_transaction s"
  using handle_all_steps [OF idle_init [of dbnum masterhost slave_ro loading max_bulk_len], of acl tes] by (auto simp: idle_def inv_def)

text \<open>
  C13. \<^verbatim>\<open>EXEC\<close> is all or nothing: it answers with one reply for each queued command, or else neither the data nor the
  propagated stream have changed; in both cases the transaction of the client is over and it watches nothing.
\<close>

theorem exec_all_or_nothing:
  assumes "handle_all acl history (initServer dbnum masterhost slave_ro loading max_bulk_len) = Some s"
    and "handle acl (t, Request c (Some EXEC) co) s = Some (s', r)" and "cl_multi (sv_clients s c)"
  shows "(case r of
      Array rs \<Rightarrow> length rs = length (cl_commands (sv_clients s c))
    | _ \<Rightarrow> (\<forall>d k. dict_get d k s' = dict_get d k s \<and> expire_get d k s' = expire_get d k s) \<and> sv_stream s' = sv_stream s) \<and>
    no_transaction (sv_clients s' c)"
proof -
  have idle: "idle (s\<lparr>sv_now := t\<rparr>)" using idle_reached(1) [OF assms(1)] by (simp add: idle_now)
  have "processCommand acl co c (Some EXEC) (s\<lparr>sv_now := t\<rparr>) = Some (s', r)" using assms(2) by (simp add: handle_def)
  from exec_request [OF idle this] assms(3) show ?thesis
    by (auto simp: exec_outcome_def quiet_def same_data_def dict_get_def expire_get_def split: cmd_reply.splits)
qed

theorem exec_all_or_nothing_witness: "no_transaction (sv_clients (fst (the sample_exec)) 1)"
proof -
  have "cl_multi (sv_clients sample_queued 1)" by code_simp
  from exec_all_or_nothing [OF sample_reached [unfolded sample_init_def] sample_runs(4) this] show ?thesis by simp
qed

text \<open>
  C14. On a server that is not loading a data set, each event adds to the propagated stream commands
  other than \<^verbatim>\<open>MULTI\<close> and \<^verbatim>\<open>EXEC\<close>, or one block of such commands between \<^verbatim>\<open>MULTI\<close> and \<^verbatim>\<open>EXEC\<close>: no transaction
  is left open, split, or mixed with the commands of another client.
\<close>

theorem propagation_bracketed:
  assumes "handle_all acl history (initServer dbnum masterhost slave_ro False max_bulk_len) = Some s"
    and "handle acl te s = Some (s', r)"
  shows "\<exists>l. sv_stream s' = sv_stream s @ l \<and> bracketed l"
proof -
  have "\<not> sv_loading s" using idle_reached(2) [OF assms(1)] by simp
  then show ?thesis using handle_steps(4) [OF idle_reached(1) [OF assms(1)], of acl "fst te" "snd te"] assms(2) by auto
qed



theorem propagation_bracketed_witness: "\<exists>l. sv_stream (fst (the sample_exec)) = sv_stream sample_queued @ l \<and> bracketed l"
proof -
  show ?thesis by (rule propagation_bracketed [OF sample_reached [unfolded sample_init_def] sample_runs(4)])
qed

end
