(* ===== verification/Skiplist.thy ===== *)
theory Skiplist
  imports Sds_Text "HOL-Library.Char_ord" "HOL-Library.List_Lexorder" "HOL-Library.Product_Lexorder"
begin

text \<open>
  The skip list of sorted sets (\<^verbatim>\<open>t_zset.c\<close>): nodes in a heap with a forward pointer and a span for each level, searched
  from the top level down. An address is a natural number; access through a null or dangling pointer, an index beyond
  the levels of a node, a failed assertion and a subtraction that would wrap around make the operation
  \<open>None\<close>. The address and the uninitialised fields of a node from \<^verbatim>\<open>zmalloc\<close> are arguments, as are the numbers that
  \<^verbatim>\<open>random\<close> returns. Scores are of any linearly ordered type: doubles that are numbers, with both
  zeros equal. An element is the text of its string.
\<close>

section \<open>Nodes\<close>

record zlevel =
  zl_forward :: "nat option"
  zl_span :: nat

record 's znode =
  zn_ele :: "string option"
  zn_score :: 's
  zn_backward :: "nat option"
  zn_level :: "zlevel list"

type_synonym 's zheap = "nat \<rightharpoonup> 's znode"

record zskiplist =
  zsl_header :: nat
  zsl_tail :: "nat option"
  zsl_length :: nat
  zsl_level :: nat

definition ZSKIPLIST_MAXLEVEL :: nat where
  "ZSKIPLIST_MAXLEVEL = 32"

text \<open>\<^verbatim>\<open>sdscmp\<close> on the texts of two strings.\<close>

definition text_cmp :: "string \<Rightarrow> string \<Rightarrow> int" where
  "text_cmp a b =
     (let minlen = (if length a < length b then length a else length b); cmp = memcmp (take minlen a) (take minlen b)
      in if cmp = 0 then (if length a > length b then 1 else if length a < length b then - 1 else 0) else cmp)"

definition get_level :: "'s zheap \<Rightarrow> nat \<Rightarrow> nat \<Rightarrow> zlevel option" where
  "get_level h x i = do { n \<leftarrow> h x; if i < length (zn_level n) then Some (zn_level n ! i) else None }"

definition set_level :: "nat \<Rightarrow> nat \<Rightarrow> zlevel \<Rightarrow> 's zheap \<Rightarrow> 's zheap option" where
  "set_level x i l h = do {
     n \<leftarrow> h x;
     if i < length (zn_level n) then Some (h(x \<mapsto> n\<lparr>zn_level := (zn_level n)[i := l]\<rparr>)) else None
   }"

definition set_backward :: "nat \<Rightarrow> nat option \<Rightarrow> 's zheap \<Rightarrow> 's zheap option" where
  "set_backward x p h = do { n \<leftarrow> h x; Some (h(x \<mapsto> n\<lparr>zn_backward := p\<rparr>)) }"

definition usub :: "nat \<Rightarrow> nat \<Rightarrow> nat option" where
  "usub a b = (if b \<le> a then Some (a - b) else None)"

definition nth_opt :: "'a list \<Rightarrow> nat \<Rightarrow> 'a option" where
  "nth_opt xs i = (if i < length xs then Some (xs ! i) else None)"

section \<open>The operations\<close>

definition zslCreateNode :: "nat option \<times> (nat \<Rightarrow> zlevel) \<Rightarrow> nat \<Rightarrow> 's \<Rightarrow> string option \<Rightarrow> 's znode" where
  "zslCreateNode junk level score ele =
     \<lparr>zn_ele = ele, zn_score = score, zn_backward = fst junk, zn_level = map (snd junk) [0..<level]\<rparr>"

definition zslCreate :: "nat \<Rightarrow> nat option \<times> (nat \<Rightarrow> zlevel) \<Rightarrow> ('s::zero) zheap \<Rightarrow> 's zheap \<times> zskiplist" where
  "zslCreate new junk h =
     (let n = zslCreateNode junk ZSKIPLIST_MAXLEVEL 0 None;
          n = n\<lparr>zn_level := replicate ZSKIPLIST_MAXLEVEL \<lparr>zl_forward = None, zl_span = 0\<rparr>, zn_backward := None\<rparr>
      in (h(new \<mapsto> n), \<lparr>zsl_header = new, zsl_tail = None, zsl_length = 0, zsl_level = 1\<rparr>))"

text \<open>The limit \<^verbatim>\<open>ZSKIPLIST_P * 0xFFFF\<close> is 16383.75; \<open>None\<close> if no number ends the loop.\<close>

fun random_loop :: "nat list \<Rightarrow> nat \<Rightarrow> nat option" where
  "random_loop [] level = None"
| "random_loop (r # rs) level = (if 4 * (r mod 65536) < 65535 then random_loop rs (level + 1) else Some level)"

definition zslRandomLevel :: "nat list \<Rightarrow> nat option" where
  "zslRandomLevel rs = do {
     level \<leftarrow> random_loop rs 1;
     Some (if level < ZSKIPLIST_MAXLEVEL then level else ZSKIPLIST_MAXLEVEL)
   }"

text \<open>
  The search at one level, with the rank of the node reached: forward while a condition holds of the next node and its rank.
\<close>

partial_function (option) zsl_walk ::
  "'s zheap \<Rightarrow> (nat \<Rightarrow> 's znode \<Rightarrow> bool option) \<Rightarrow> nat \<Rightarrow> nat \<Rightarrow> nat \<Rightarrow> (nat \<times> nat) option" where
  "zsl_walk h ahead i x r = do {
     l \<leftarrow> get_level h x i;
     case zl_forward l of
       None \<Rightarrow> Some (x, r)
     | Some y \<Rightarrow> do {
         m \<leftarrow> h y;
         b \<leftarrow> ahead (r + zl_span l) m;
         if b then zsl_walk h ahead i y (r + zl_span l) else Some (x, r)
       }
   }"

text \<open>The search from the top level down; the result has for each level the node where it went down, and its rank.\<close>

fun zsl_path :: "'s zheap \<Rightarrow> (nat \<Rightarrow> 's znode \<Rightarrow> bool option) \<Rightarrow> nat \<Rightarrow> nat \<Rightarrow> nat \<Rightarrow> (nat \<times> nat) list option" where
  "zsl_path h ahead 0 x r = Some []"
| "zsl_path h ahead (Suc i) x r = do {
     (x, r) \<leftarrow> zsl_walk h ahead i x r;
     path \<leftarrow> zsl_path h ahead i x r;
     Some (path @ [(x, r)])
   }"

definition before :: "'s::linorder \<Rightarrow> string \<Rightarrow> nat \<Rightarrow> 's znode \<Rightarrow> bool option" where
  "before score ele r n =
     (if zn_score n < score then Some True
      else if zn_score n = score then do { e \<leftarrow> zn_ele n; Some (text_cmp e ele < 0) }
      else Some False)"

fun grow_levels :: "zskiplist \<Rightarrow> nat list \<Rightarrow> 's zheap \<Rightarrow> 's zheap option" where
  "grow_levels zsl [] h = Some h"
| "grow_levels zsl (i # is) h = do {
     l \<leftarrow> get_level h (zsl_header zsl) i;
     h \<leftarrow> set_level (zsl_header zsl) i (l\<lparr>zl_span := zsl_length zsl\<rparr>) h;
     grow_levels zsl is h
   }"

fun link_levels :: "nat \<Rightarrow> (nat \<times> nat) list \<Rightarrow> nat \<Rightarrow> nat list \<Rightarrow> 's zheap \<Rightarrow> 's zheap option" where
  "link_levels x update r0 [] h = Some h"
| "link_levels x update r0 (i # is) h = do {
     (u, r) \<leftarrow> nth_opt update i;
     l \<leftarrow> get_level h u i;
     d \<leftarrow> usub r0 r;
     span \<leftarrow> usub (zl_span l) d;
     h \<leftarrow> set_level x i \<lparr>zl_forward = zl_forward l, zl_span = span\<rparr> h;
     h \<leftarrow> set_level u i \<lparr>zl_forward = Some x, zl_span = d + 1\<rparr> h;
     link_levels x update r0 is h
   }"

fun bump_levels :: "(nat \<times> nat) list \<Rightarrow> nat list \<Rightarrow> 's zheap \<Rightarrow> 's zheap option" where
  "bump_levels update [] h = Some h"
| "bump_levels update (i # is) h = do {
     (u, r) \<leftarrow> nth_opt update i;
     l \<leftarrow> get_level h u i;
     h \<leftarrow> set_level u i (l\<lparr>zl_span := zl_span l + 1\<rparr>) h;
     bump_levels update is h
   }"

text \<open>The ranks are stored as unsigned 32-bit integers.\<close>

definition zslInsert ::
  "nat list \<Rightarrow> nat \<Rightarrow> nat option \<times> (nat \<Rightarrow> zlevel) \<Rightarrow> 's::linorder \<Rightarrow> string \<Rightarrow> zskiplist \<Rightarrow> 's zheap \<Rightarrow> ('s zheap \<times> zskiplist) option" where
  "zslInsert rs x junk score ele zsl h = do {
     path \<leftarrow> zsl_path h (before score ele) (zsl_level zsl) (zsl_header zsl) 0;
     let update = map (\<lambda>(u, r). (u, uint32 r)) path;
     level \<leftarrow> zslRandomLevel rs;
     (h, update) \<leftarrow>
       (if level > zsl_level zsl then do {
          h \<leftarrow> grow_levels zsl [zsl_level zsl..<level] h;
          Some (h, update @ replicate (level - zsl_level zsl) (zsl_header zsl, 0))
        } else Some (h, update));
     let zsl = (if level > zsl_level zsl then zsl\<lparr>zsl_level := level\<rparr> else zsl);
     let h = h(x \<mapsto> zslCreateNode junk level score (Some ele));
     (u0, r0) \<leftarrow> nth_opt update 0;
     h \<leftarrow> link_levels x update r0 [0..<level] h;
     h \<leftarrow> bump_levels update [level..<zsl_level zsl] h;
     h \<leftarrow> set_backward x (if u0 = zsl_header zsl then None else Some u0) h;
     l \<leftarrow> get_level h x 0;
     (h, zsl) \<leftarrow>
       (case zl_forward l of
          Some y \<Rightarrow> do { h \<leftarrow> set_backward y (Some x) h; Some (h, zsl) }
        | None \<Rightarrow> Some (h, zsl\<lparr>zsl_tail := Some x\<rparr>));
     Some (h, zsl\<lparr>zsl_length := zsl_length zsl + 1\<rparr>)
   }"

fun unlink_levels :: "nat \<Rightarrow> (nat \<times> nat) list \<Rightarrow> nat list \<Rightarrow> 's zheap \<Rightarrow> 's zheap option" where
  "unlink_levels x update [] h = Some h"
| "unlink_levels x update (i # is) h = do {
     (u, r) \<leftarrow> nth_opt update i;
     l \<leftarrow> get_level h u i;
     l \<leftarrow> (if zl_forward l = Some x then do {
             k \<leftarrow> get_level h x i;
             span \<leftarrow> usub (zl_span l + zl_span k) 1;
             Some \<lparr>zl_forward = zl_forward k, zl_span = span\<rparr>
           } else do { span \<leftarrow> usub (zl_span l) 1; Some (l\<lparr>zl_span := span\<rparr>) });
     h \<leftarrow> set_level u i l h;
     unlink_levels x update is h
   }"

fun trim_level :: "'s zheap \<Rightarrow> nat \<Rightarrow> nat \<Rightarrow> nat option" where
  "trim_level h header 0 = Some 0"
| "trim_level h header (Suc i) =
     (if i > 0 then do {
        l \<leftarrow> get_level h header i;
        if zl_forward l = None then trim_level h header i else Some (Suc i)
      } else Some (Suc i))"

definition zslDeleteNode :: "nat \<Rightarrow> (nat \<times> nat) list \<Rightarrow> zskiplist \<Rightarrow> 's zheap \<Rightarrow> ('s zheap \<times> zskiplist) option" where
  "zslDeleteNode x update zsl h = do {
     h \<leftarrow> unlink_levels x update [0..<zsl_level zsl] h;
     n \<leftarrow> h x;
     l \<leftarrow> get_level h x 0;
     (h, zsl) \<leftarrow>
       (case zl_forward l of
          Some y \<Rightarrow> do { h \<leftarrow> set_backward y (zn_backward n) h; Some (h, zsl) }
        | None \<Rightarrow> Some (h, zsl\<lparr>zsl_tail := zn_backward n\<rparr>));
     level \<leftarrow> trim_level h (zsl_header zsl) (zsl_level zsl);
     len \<leftarrow> usub (zsl_length zsl) 1;
     Some (h, zsl\<lparr>zsl_level := level, zsl_length := len\<rparr>)
   }"

definition zslFreeNode :: "nat \<Rightarrow> 's zheap \<Rightarrow> 's zheap option" where
  "zslFreeNode x h = (if h x = None then None else Some (h(x := None)))"

text \<open>With \<open>keep\<close> the node is unlinked and handed to the caller; the last result is the node.\<close>

definition zslDelete ::
  "bool \<Rightarrow> 's::linorder \<Rightarrow> string \<Rightarrow> zskiplist \<Rightarrow> 's zheap \<Rightarrow> ('s zheap \<times> zskiplist \<times> nat option) option" where
  "zslDelete keep score ele zsl h = do {
     update \<leftarrow> zsl_path h (before score ele) (zsl_level zsl) (zsl_header zsl) 0;
     (u, r) \<leftarrow> nth_opt update 0;
     l \<leftarrow> get_level h u 0;
     case zl_forward l of
       None \<Rightarrow> Some (h, zsl, None)
     | Some x \<Rightarrow> do {
         n \<leftarrow> h x;
         found \<leftarrow> (if zn_score n = score then do { e \<leftarrow> zn_ele n; Some (text_cmp e ele = 0) } else Some False);
         if found then do {
           (h, zsl) \<leftarrow> zslDeleteNode x update zsl h;
           h \<leftarrow> (if keep then Some h else zslFreeNode x h);
           Some (h, zsl, Some x)
         } else Some (h, zsl, None)
       }
   }"

definition zslUpdateScore ::
  "nat list \<Rightarrow> nat \<Rightarrow> nat option \<times> (nat \<Rightarrow> zlevel) \<Rightarrow> 's::linorder \<Rightarrow> string \<Rightarrow> 's \<Rightarrow> zskiplist \<Rightarrow> 's zheap \<Rightarrow>
   ('s zheap \<times> zskiplist \<times> nat) option" where
  "zslUpdateScore rs new junk curscore ele newscore zsl h = do {
     update \<leftarrow> zsl_path h (before curscore ele) (zsl_level zsl) (zsl_header zsl) 0;
     (u, r) \<leftarrow> nth_opt update 0;
     l \<leftarrow> get_level h u 0;
     x \<leftarrow> zl_forward l;
     n \<leftarrow> h x;
     e \<leftarrow> zn_ele n;
     if \<not> (zn_score n = curscore \<and> text_cmp e ele = 0) then None
     else do {
       k \<leftarrow> get_level h x 0;
       left \<leftarrow> (case zn_backward n of None \<Rightarrow> Some True | Some b \<Rightarrow> do { m \<leftarrow> h b; Some (zn_score m < newscore) });
       right \<leftarrow> (case zl_forward k of None \<Rightarrow> Some True | Some f \<Rightarrow> do { m \<leftarrow> h f; Some (zn_score m > newscore) });
       if left \<and> right then Some (h(x \<mapsto> n\<lparr>zn_score := newscore\<rparr>), zsl, x)
       else do {
         (h, zsl) \<leftarrow> zslDeleteNode x update zsl h;
         (h, zsl) \<leftarrow> zslInsert rs new junk newscore e zsl h;
         h \<leftarrow> zslFreeNode x h;
         Some (h, zsl, new)
       }
     }
   }"


section \<open>Ranges\<close>

record 's zrangespec =
  zr_min :: 's
  zr_max :: 's
  zr_minex :: bool
  zr_maxex :: bool

definition zslValueGteMin :: "'s::linorder \<Rightarrow> 's zrangespec \<Rightarrow> bool" where
  "zslValueGteMin v spec = (if zr_minex spec then v > zr_min spec else v \<ge> zr_min spec)"

definition zslValueLteMax :: "'s::linorder \<Rightarrow> 's zrangespec \<Rightarrow> bool" where
  "zslValueLteMax v spec = (if zr_maxex spec then v < zr_max spec else v \<le> zr_max spec)"

text \<open>The bounds of a lexicographic range: the shared strings below and above every string, or a string.\<close>

datatype lexbound = Minstring | Maxstring | Lex string

record zlexrangespec =
  lx_min :: lexbound
  lx_max :: lexbound
  lx_minex :: bool
  lx_maxex :: bool

fun zslParseLexRangeItem :: "string \<Rightarrow> (lexbound \<times> bool) option" where
  "zslParseLexRangeItem (c # cs) =
     (if c = CHR ''+'' then (if cs \<noteq> [] \<and> hd cs \<noteq> CHR 0x00 then None else Some (Maxstring, True))
      else if c = CHR ''-'' then (if cs \<noteq> [] \<and> hd cs \<noteq> CHR 0x00 then None else Some (Minstring, True))
      else if c = CHR ''('' then Some (Lex cs, True)
      else if c = CHR ''['' then Some (Lex cs, False)
      else None)"
| "zslParseLexRangeItem [] = None"

text \<open>An argument encoded as an integer is refused first; its text is one that the parser of an item refuses.\<close>

definition zslParseLexRange :: "string \<Rightarrow> string \<Rightarrow> zlexrangespec option" where
  "zslParseLexRange lo hi = do {
     (mn, minex) \<leftarrow> zslParseLexRangeItem lo;
     (mx, maxex) \<leftarrow> zslParseLexRangeItem hi;
     Some \<lparr>lx_min = mn, lx_max = mx, lx_minex = minex, lx_maxex = maxex\<rparr>
   }"

text \<open>The first test of \<^verbatim>\<open>sdscmplex\<close> compares pointers; equal texts give 0 either way.\<close>

fun sdscmplex :: "lexbound \<Rightarrow> lexbound \<Rightarrow> int" where
  "sdscmplex Minstring Minstring = 0"
| "sdscmplex Maxstring Maxstring = 0"
| "sdscmplex Minstring b = - 1"
| "sdscmplex a Maxstring = - 1"
| "sdscmplex Maxstring b = 1"
| "sdscmplex a Minstring = 1"
| "sdscmplex (Lex a) (Lex b) = text_cmp a b"

definition zslLexValueGteMin :: "string \<Rightarrow> zlexrangespec \<Rightarrow> bool" where
  "zslLexValueGteMin v spec =
     (if lx_minex spec then sdscmplex (Lex v) (lx_min spec) > 0 else sdscmplex (Lex v) (lx_min spec) \<ge> 0)"

definition zslLexValueLteMax :: "string \<Rightarrow> zlexrangespec \<Rightarrow> bool" where
  "zslLexValueLteMax v spec =
     (if lx_maxex spec then sdscmplex (Lex v) (lx_max spec) < 0 else sdscmplex (Lex v) (lx_max spec) \<le> 0)"

text \<open>
  The functions on ranges of scores and on lexicographic ranges have the same text up to the two comparisons
  and the test for a range that is empty, so that each is written once over these.
\<close>

definition in_range_gen :: "bool \<Rightarrow> ('s znode \<Rightarrow> bool option) \<Rightarrow> ('s znode \<Rightarrow> bool option) \<Rightarrow> zskiplist \<Rightarrow> 's zheap \<Rightarrow> bool option" where
  "in_range_gen never gte lte zsl h =
     (if never then Some False
      else case zsl_tail zsl of
        None \<Rightarrow> Some False
      | Some x \<Rightarrow> do {
          n \<leftarrow> h x;
          b \<leftarrow> gte n;
          if \<not> b then Some False
          else do {
            l \<leftarrow> get_level h (zsl_header zsl) 0;
            case zl_forward l of
              None \<Rightarrow> Some False
            | Some x \<Rightarrow> do { n \<leftarrow> h x; lte n }
          }
        })"

definition first_in_range_gen ::
  "bool \<Rightarrow> ('s znode \<Rightarrow> bool option) \<Rightarrow> ('s znode \<Rightarrow> bool option) \<Rightarrow> zskiplist \<Rightarrow> 's zheap \<Rightarrow> nat option option" where
  "first_in_range_gen never gte lte zsl h = do {
     b \<leftarrow> in_range_gen never gte lte zsl h;
     if \<not> b then Some None
     else do {
       path \<leftarrow> zsl_path h (\<lambda>_ n. map_option Not (gte n)) (zsl_level zsl) (zsl_header zsl) 0;
       (u, r) \<leftarrow> nth_opt path 0;
       l \<leftarrow> get_level h u 0;
       x \<leftarrow> zl_forward l;
       n \<leftarrow> h x;
       b \<leftarrow> lte n;
       Some (if b then Some x else None)
     }
   }"

definition last_in_range_gen ::
  "bool \<Rightarrow> ('s znode \<Rightarrow> bool option) \<Rightarrow> ('s znode \<Rightarrow> bool option) \<Rightarrow> zskiplist \<Rightarrow> 's zheap \<Rightarrow> nat option option" where
  "last_in_range_gen never gte lte zsl h = do {
     b \<leftarrow> in_range_gen never gte lte zsl h;
     if \<not> b then Some None
     else do {
       path \<leftarrow> zsl_path h (\<lambda>_ n. lte n) (zsl_level zsl) (zsl_header zsl) 0;
       (x, r) \<leftarrow> nth_opt path 0;
       n \<leftarrow> h x;
       b \<leftarrow> gte n;
       Some (if b then Some x else None)
     }
   }"

definition empty_range :: "'s::linorder zrangespec \<Rightarrow> bool" where
  "empty_range spec \<longleftrightarrow>
     zr_min spec > zr_max spec \<or> (zr_min spec = zr_max spec \<and> (zr_minex spec \<or> zr_maxex spec))"

definition zslIsInRange :: "'s::linorder zrangespec \<Rightarrow> zskiplist \<Rightarrow> 's zheap \<Rightarrow> bool option" where
  "zslIsInRange spec =
     in_range_gen (empty_range spec) (\<lambda>n. Some (zslValueGteMin (zn_score n) spec)) (\<lambda>n. Some (zslValueLteMax (zn_score n) spec))"

definition zslFirstInRange :: "'s::linorder zrangespec \<Rightarrow> zskiplist \<Rightarrow> 's zheap \<Rightarrow> nat option option" where
  "zslFirstInRange spec =
     first_in_range_gen (empty_range spec) (\<lambda>n. Some (zslValueGteMin (zn_score n) spec)) (\<lambda>n. Some (zslValueLteMax (zn_score n) spec))"

definition zslLastInRange :: "'s::linorder zrangespec \<Rightarrow> zskiplist \<Rightarrow> 's zheap \<Rightarrow> nat option option" where
  "zslLastInRange spec =
     last_in_range_gen (empty_range spec) (\<lambda>n. Some (zslValueGteMin (zn_score n) spec)) (\<lambda>n. Some (zslValueLteMax (zn_score n) spec))"

definition empty_lex_range :: "zlexrangespec \<Rightarrow> bool" where
  "empty_lex_range spec =
     (let cmp = sdscmplex (lx_min spec) (lx_max spec) in cmp > 0 \<or> (cmp = 0 \<and> (lx_minex spec \<or> lx_maxex spec)))"

definition zslIsInLexRange :: "zlexrangespec \<Rightarrow> zskiplist \<Rightarrow> 's zheap \<Rightarrow> bool option" where
  "zslIsInLexRange spec =
     in_range_gen (empty_lex_range spec) (\<lambda>n. map_option (\<lambda>e. zslLexValueGteMin e spec) (zn_ele n))
       (\<lambda>n. map_option (\<lambda>e. zslLexValueLteMax e spec) (zn_ele n))"

definition zslFirstInLexRange :: "zlexrangespec \<Rightarrow> zskiplist \<Rightarrow> 's zheap \<Rightarrow> nat option option" where
  "zslFirstInLexRange spec =
     first_in_range_gen (empty_lex_range spec) (\<lambda>n. map_option (\<lambda>e. zslLexValueGteMin e spec) (zn_ele n))
       (\<lambda>n. map_option (\<lambda>e. zslLexValueLteMax e spec) (zn_ele n))"

definition zslLastInLexRange :: "zlexrangespec \<Rightarrow> zskiplist \<Rightarrow> 's zheap \<Rightarrow> nat option option" where
  "zslLastInLexRange spec =
     last_in_range_gen (empty_lex_range spec) (\<lambda>n. map_option (\<lambda>e. zslLexValueGteMin e spec) (zn_ele n))
       (\<lambda>n. map_option (\<lambda>e. zslLexValueLteMax e spec) (zn_ele n))"

section \<open>Ranks\<close>

definition up_to :: "'s::linorder \<Rightarrow> string \<Rightarrow> nat \<Rightarrow> 's znode \<Rightarrow> bool option" where
  "up_to score ele r n =
     (if zn_score n < score then Some True
      else if zn_score n = score then do { e \<leftarrow> zn_ele n; Some (text_cmp e ele \<le> 0) }
      else Some False)"

fun rank_loop :: "'s::linorder zheap \<Rightarrow> 's \<Rightarrow> string \<Rightarrow> nat \<Rightarrow> nat \<Rightarrow> nat \<Rightarrow> nat option" where
  "rank_loop h score ele 0 x rank = Some 0"
| "rank_loop h score ele (Suc i) x rank = do {
     (x, rank) \<leftarrow> zsl_walk h (up_to score ele) i x rank;
     n \<leftarrow> h x;
     if (case zn_ele n of None \<Rightarrow> False | Some e \<Rightarrow> text_cmp e ele = 0) then Some rank
     else rank_loop h score ele i x rank
   }"

definition zslGetRank :: "'s::linorder \<Rightarrow> string \<Rightarrow> zskiplist \<Rightarrow> 's zheap \<Rightarrow> nat option" where
  "zslGetRank score ele zsl h = rank_loop h score ele (zsl_level zsl) (zsl_header zsl) 0"

fun by_rank_loop :: "'s zheap \<Rightarrow> nat \<Rightarrow> nat \<Rightarrow> nat \<Rightarrow> nat \<Rightarrow> nat option option" where
  "by_rank_loop h rank 0 x traversed = Some None"
| "by_rank_loop h rank (Suc i) x traversed = do {
     (x, traversed) \<leftarrow> zsl_walk h (\<lambda>r _. Some (r \<le> rank)) i x traversed;
     if traversed = rank then Some (Some x) else by_rank_loop h rank i x traversed
   }"

definition zslGetElementByRank :: "nat \<Rightarrow> zskiplist \<Rightarrow> 's zheap \<Rightarrow> nat option option" where
  "zslGetElementByRank rank zsl h = by_rank_loop h rank (zsl_level zsl) (zsl_header zsl) 0"

section \<open>Deleting ranges\<close>

text \<open>
  The dictionary of a sorted set maps an element to its node. The loop deletes from a node on, while a condition
  holds of the rank and the node.
\<close>

partial_function (option) delete_loop ::
  "(nat \<Rightarrow> 's znode \<Rightarrow> bool option) \<Rightarrow> (nat \<times> nat) list \<Rightarrow> nat option \<Rightarrow> nat \<Rightarrow> nat \<Rightarrow> (string \<rightharpoonup> nat) \<Rightarrow> zskiplist \<Rightarrow> 's zheap \<Rightarrow>
   ('s zheap \<times> zskiplist \<times> (string \<rightharpoonup> nat) \<times> nat) option" where
  "delete_loop inside update p r removed dict zsl h =
     (case p of
        None \<Rightarrow> Some (h, zsl, dict, removed)
      | Some x \<Rightarrow> do {
          n \<leftarrow> h x;
          b \<leftarrow> inside r n;
          if \<not> b then Some (h, zsl, dict, removed)
          else do {
            l \<leftarrow> get_level h x 0;
            (h, zsl) \<leftarrow> zslDeleteNode x update zsl h;
            e \<leftarrow> zn_ele n;
            h \<leftarrow> zslFreeNode x h;
            delete_loop inside update (zl_forward l) (r + 1) (removed + 1) (dict(e := None)) zsl h
          }
        })"

definition delete_range_gen ::
  "(nat \<Rightarrow> 's znode \<Rightarrow> bool option) \<Rightarrow> (nat \<Rightarrow> 's znode \<Rightarrow> bool option) \<Rightarrow> (string \<rightharpoonup> nat) \<Rightarrow> zskiplist \<Rightarrow> 's zheap \<Rightarrow>
   ('s zheap \<times> zskiplist \<times> (string \<rightharpoonup> nat) \<times> nat) option" where
  "delete_range_gen ahead inside dict zsl h = do {
     update \<leftarrow> zsl_path h ahead (zsl_level zsl) (zsl_header zsl) 0;
     (u, r) \<leftarrow> nth_opt update 0;
     l \<leftarrow> get_level h u 0;
     delete_loop inside update (zl_forward l) (r + 1) 0 dict zsl h
   }"

definition zslDeleteRangeByScore ::
  "'s::linorder zrangespec \<Rightarrow> (string \<rightharpoonup> nat) \<Rightarrow> zskiplist \<Rightarrow> 's zheap \<Rightarrow> ('s zheap \<times> zskiplist \<times> (string \<rightharpoonup> nat) \<times> nat) option" where
  "zslDeleteRangeByScore spec =
     delete_range_gen (\<lambda>_ n. Some (\<not> zslValueGteMin (zn_score n) spec)) (\<lambda>_ n. Some (zslValueLteMax (zn_score n) spec))"

definition zslDeleteRangeByLex ::
  "zlexrangespec \<Rightarrow> (string \<rightharpoonup> nat) \<Rightarrow> zskiplist \<Rightarrow> 's zheap \<Rightarrow> ('s zheap \<times> zskiplist \<times> (string \<rightharpoonup> nat) \<times> nat) option" where
  "zslDeleteRangeByLex spec =
     delete_range_gen (\<lambda>_ n. map_option (\<lambda>e. \<not> zslLexValueGteMin e spec) (zn_ele n))
       (\<lambda>_ n. map_option (\<lambda>e. zslLexValueLteMax e spec) (zn_ele n))"

definition zslDeleteRangeByRank ::
  "nat \<Rightarrow> nat \<Rightarrow> (string \<rightharpoonup> nat) \<Rightarrow> zskiplist \<Rightarrow> 's zheap \<Rightarrow> ('s zheap \<times> zskiplist \<times> (string \<rightharpoonup> nat) \<times> nat) option" where
  "zslDeleteRangeByRank first until = delete_range_gen (\<lambda>r _. Some (r < first)) (\<lambda>r _. Some (r \<le> until))"

section \<open>Sorted sets\<close>

text \<open>
  A sorted set in the encoding with a skip list: the dictionary has for each element a pointer to the score in its
  node. The sum of two scores is a parameter, \<open>None\<close> where it is not a number.
\<close>

record zset =
  zs_dict :: "string \<rightharpoonup> nat"
  zs_zsl :: zskiplist

datatype zadd_out = ZADD_NONE | ZADD_OUT_NOP | ZADD_OUT_NAN | ZADD_OUT_ADDED | ZADD_OUT_UPDATED

record zadd_in =
  za_incr :: bool
  za_nx :: bool
  za_xx :: bool
  za_gt :: bool
  za_lt :: bool

definition zsetScore :: "string \<Rightarrow> zset \<Rightarrow> 's zheap \<Rightarrow> 's option option" where
  "zsetScore ele zs h =
     (case zs_dict zs ele of None \<Rightarrow> Some None | Some a \<Rightarrow> do { n \<leftarrow> h a; Some (Some (zn_score n)) })"

text \<open>The result has the flag and the new score, where one is stored.\<close>

definition zsetAdd ::
  "('s \<Rightarrow> 's \<Rightarrow> 's option) \<Rightarrow> nat list \<Rightarrow> nat \<Rightarrow> nat option \<times> (nat \<Rightarrow> zlevel) \<Rightarrow> 's::linorder option \<Rightarrow> string \<Rightarrow> zadd_in \<Rightarrow>
   zset \<Rightarrow> 's zheap \<Rightarrow> ('s zheap \<times> zset \<times> zadd_out \<times> 's option) option" where
  "zsetAdd add rs new junk score ele flags zs h =
     (case score of
        None \<Rightarrow> Some (h, zs, ZADD_OUT_NAN, None)
      | Some score \<Rightarrow>
          case zs_dict zs ele of
            Some a \<Rightarrow>
              if za_nx flags then Some (h, zs, ZADD_OUT_NOP, None)
              else do {
                n \<leftarrow> h a;
                let curscore = zn_score n;
                case (if za_incr flags then add score curscore else Some score) of
                  None \<Rightarrow> Some (h, zs, ZADD_OUT_NAN, None)
                | Some score \<Rightarrow>
                    if (za_lt flags \<and> score \<ge> curscore) \<or> (za_gt flags \<and> score \<le> curscore)
                    then Some (h, zs, ZADD_OUT_NOP, None)
                    else if score \<noteq> curscore then do {
                      (h, zsl, x) \<leftarrow> zslUpdateScore rs new junk curscore ele score (zs_zsl zs) h;
                      Some (h, zs\<lparr>zs_zsl := zsl, zs_dict := (zs_dict zs)(ele \<mapsto> x)\<rparr>, ZADD_OUT_UPDATED, Some score)
                    } else Some (h, zs, ZADD_NONE, Some score)
              }
          | None \<Rightarrow>
              if za_xx flags then Some (h, zs, ZADD_OUT_NOP, None)
              else do {
                (h, zsl) \<leftarrow> zslInsert rs new junk score ele (zs_zsl zs) h;
                Some (h, zs\<lparr>zs_zsl := zsl, zs_dict := (zs_dict zs)(ele \<mapsto> new)\<rparr>, ZADD_OUT_ADDED, Some score)
              })"

definition zsetRemoveFromSkiplist :: "string \<Rightarrow> zset \<Rightarrow> 's::linorder zheap \<Rightarrow> ('s zheap \<times> zset \<times> bool) option" where
  "zsetRemoveFromSkiplist ele zs h =
     (case zs_dict zs ele of
        None \<Rightarrow> Some (h, zs, False)
      | Some a \<Rightarrow> do {
          n \<leftarrow> h a;
          (h, zsl, x) \<leftarrow> zslDelete False (zn_score n) ele (zs_zsl zs) h;
          if x = None then None else Some (h, \<lparr>zs_dict = (zs_dict zs)(ele := None), zs_zsl = zsl\<rparr>, True)
        })"

definition zsetDel :: "string \<Rightarrow> zset \<Rightarrow> 's::linorder zheap \<Rightarrow> ('s zheap \<times> zset \<times> bool) option" where
  "zsetDel ele zs h = zsetRemoveFromSkiplist ele zs h"

definition zsetLength :: "zset \<Rightarrow> nat" where
  "zsetLength zs = zsl_length (zs_zsl zs)"

definition zsetRank :: "string \<Rightarrow> bool \<Rightarrow> zset \<Rightarrow> 's::linorder zheap \<Rightarrow> int option" where
  "zsetRank ele reverse zs h =
     (case zs_dict zs ele of
        None \<Rightarrow> Some (- 1)
      | Some a \<Rightarrow> do {
          n \<leftarrow> h a;
          rank \<leftarrow> zslGetRank (zn_score n) ele (zs_zsl zs) h;
          if rank = 0 then None
          else Some (if reverse then int (zsetLength zs) - int rank else int rank - 1)
        })"

end
