(* ===== verification/Skiplist_Proof.thy ===== *)
theory Skiplist_Proof
  imports Skiplist
begin

text \<open>
  The representation of a sorted sequence by a skip list, and that the search and the operations that change the list
  work on it.
\<close>

section \<open>The order of strings\<close>

lemma text_cmp_simps [simp]:
  "text_cmp [] [] = 0" "text_cmp [] (b # bs) = - 1" "text_cmp (a # as) [] = 1"
  "text_cmp (a # as) (b # bs) = (if a = b then text_cmp as bs else int (of_char a) - int (of_char b))"
  by (auto simp: text_cmp_def Let_def)

lemma text_cmp_less: "text_cmp a b < 0 \<longleftrightarrow> a < b"
proof (induction a arbitrary: b)
  case Nil
  then show ?case by (cases b) auto
next
  case (Cons x xs)
  then show ?case by (cases b) (auto simp: less_char_def)
qed

lemma text_cmp_eq: "text_cmp a b = 0 \<longleftrightarrow> a = b"
proof (induction a arbitrary: b)
  case Nil
  then show ?case by (cases b) auto
next
  case (Cons x xs)
  then show ?case by (cases b) auto
qed

lemma text_cmp_le: "text_cmp a b \<le> 0 \<longleftrightarrow> a \<le> b"
  using text_cmp_less [of a b] text_cmp_eq [of a b] by auto

text \<open>The comparison is \<^verbatim>\<open>sdscmp\<close> of the component of strings.\<close>

lemma sdscmp_text: "sds_inv s \<Longrightarrow> sds_inv t \<Longrightarrow> sdscmp s t = text_cmp (sds_str s) (sds_str t)"
  using length_sds_str [of s] length_sds_str [of t] by (auto simp: sdscmp_def text_cmp_def Let_def sds_str_def)

section \<open>The representation\<close>

definition node :: "'s zheap \<Rightarrow> nat \<Rightarrow> 's znode" where
  "node h a = the (h a)"

definition ht :: "'s zheap \<Rightarrow> nat \<Rightarrow> nat" where
  "ht h a = length (zn_level (node h a))"

definition key :: "'s zheap \<Rightarrow> nat \<Rightarrow> 's \<times> string" where
  "key h a = (zn_score (node h a), the (zn_ele (node h a)))"

text \<open>The link at a level to the first of the following nodes that is high enough, with the distance.\<close>

fun hop :: "(nat \<Rightarrow> nat) \<Rightarrow> nat \<Rightarrow> nat list \<Rightarrow> zlevel" where
  "hop H i [] = \<lparr>zl_forward = None, zl_span = 0\<rparr>"
| "hop H i (a # as) =
     (if i < H a then \<lparr>zl_forward = Some a, zl_span = 1\<rparr>
      else \<lparr>zl_forward = zl_forward (hop H i as), zl_span = zl_span (hop H i as) + 1\<rparr>)"

definition zsl_nodes :: "'s zheap \<Rightarrow> nat \<Rightarrow> nat \<Rightarrow> nat list \<Rightarrow> bool" where
  "zsl_nodes h hdr lev as \<longleftrightarrow>
     distinct (hdr # as) \<and> set (hdr # as) \<subseteq> dom h \<and> ht h hdr = ZSKIPLIST_MAXLEVEL \<and> 1 \<le> lev \<and> lev \<le> ZSKIPLIST_MAXLEVEL \<and>
     (\<forall>a \<in> set as. 1 \<le> ht h a \<and> ht h a \<le> lev)"

text \<open>The level of the list is the height of its highest node.\<close>

definition zsl_top :: "'s zheap \<Rightarrow> nat \<Rightarrow> nat list \<Rightarrow> bool" where
  "zsl_top h lev as \<longleftrightarrow> lev = 1 \<or> (\<exists>a \<in> set as. ht h a = lev)"

definition zsl_links :: "'s zheap \<Rightarrow> nat \<Rightarrow> nat \<Rightarrow> nat list \<Rightarrow> bool" where
  "zsl_links h hdr lev as \<longleftrightarrow>
     (\<forall>xs a ys i. hdr # as = xs @ a # ys \<longrightarrow> i < ht h a \<longrightarrow> i < lev \<longrightarrow> zn_level (node h a) ! i = hop (ht h) i ys) \<and>
     (\<forall>i. lev \<le> i \<longrightarrow> i < ZSKIPLIST_MAXLEVEL \<longrightarrow> zl_forward (zn_level (node h hdr) ! i) = None)"

definition zsl_backs :: "'s zheap \<Rightarrow> nat \<Rightarrow> nat list \<Rightarrow> bool" where
  "zsl_backs h hdr as \<longleftrightarrow>
     (\<forall>xs a b ys. hdr # as = xs @ a # b # ys \<longrightarrow> zn_backward (node h b) = (if xs = [] then None else Some a))"

definition zsl_order :: "'s::linorder zheap \<Rightarrow> nat \<Rightarrow> nat list \<Rightarrow> bool" where
  "zsl_order h hdr as \<longleftrightarrow> zn_ele (node h hdr) = None \<and> (\<forall>a \<in> set as. zn_ele (node h a) \<noteq> None) \<and>
     sorted_wrt (<) (map (key h) as) \<and> distinct (map (snd \<circ> key h) as)"

definition zsl_rep :: "'s::linorder zheap \<Rightarrow> zskiplist \<Rightarrow> nat list \<Rightarrow> bool" where
  "zsl_rep h zsl as \<longleftrightarrow>
     zsl_nodes h (zsl_header zsl) (zsl_level zsl) as \<and> zsl_top h (zsl_level zsl) as \<and> zsl_links h (zsl_header zsl) (zsl_level zsl) as \<and>
     zsl_backs h (zsl_header zsl) as \<and> zsl_order h (zsl_header zsl) as \<and>
     zsl_tail zsl = (if as = [] then None else Some (last as)) \<and> zsl_length zsl = length as"

subsection \<open>Links\<close>

lemma hop_skip: "\<forall>y \<in> set ys. H y \<le> i \<Longrightarrow>
    hop H i (ys @ zs) = \<lparr>zl_forward = zl_forward (hop H i zs), zl_span = length ys + zl_span (hop H i zs)\<rparr>"
  by (induction ys) auto

lemma hop_at: "\<forall>y \<in> set ys. H y \<le> i \<Longrightarrow> i < H z \<Longrightarrow>
    hop H i (ys @ z # zs) = \<lparr>zl_forward = Some z, zl_span = length ys + 1\<rparr>"
  by (simp add: hop_skip)

lemma hop_inside: "y \<in> set ys \<Longrightarrow> i < H y \<Longrightarrow> hop H i (ys @ zs) = hop H i ys"
  by (induction ys) auto

lemma hop_cong: "(\<And>y. y \<in> set ys \<Longrightarrow> H y = H' y) \<Longrightarrow> hop H i ys = hop H' i ys"
  by (induction ys) auto

lemma hop_None: "zl_forward (hop H i ys) = None \<longleftrightarrow> (\<forall>y \<in> set ys. H y \<le> i)"
  by (induction ys) auto

lemma hop_forward: "zl_forward (hop H i ys) = Some y \<Longrightarrow> y \<in> set ys \<and> i < H y"
  by (induction ys) (auto split: if_splits)

text \<open>A list splits at its first element that is high enough.\<close>

lemma split_high:
  obtains "\<forall>y \<in> set ys. H y \<le> (i :: nat)" | xs y zs where "ys = xs @ y # zs" "\<forall>x \<in> set xs. H x \<le> i" "i < H y"
  using split_list_first_propE [of ys "\<lambda>y. i < H y"] by (metis linorder_not_less)

subsection \<open>The search\<close>

text \<open>
  The nodes where the search goes down: at each level the last node before the position that is high enough. A condition
  fits a position if it holds exactly of the nodes before it, with their ranks.
\<close>

definition goes_down :: "(nat \<Rightarrow> nat) \<Rightarrow> nat list \<Rightarrow> nat \<Rightarrow> nat \<times> nat \<Rightarrow> bool" where
  "goes_down H us i ur \<longleftrightarrow> (\<exists>xs ys. us = xs @ fst ur # ys \<and> snd ur = length xs \<and> i < H (fst ur) \<and> (\<forall>y \<in> set ys. H y \<le> i))"

definition fits :: "'s zheap \<Rightarrow> (nat \<Rightarrow> 's znode \<Rightarrow> bool option) \<Rightarrow> nat list \<Rightarrow> nat list \<Rightarrow> bool" where
  "fits h ahead us vs \<longleftrightarrow>
     (\<forall>xs a ys. us @ vs = xs @ a # ys \<longrightarrow> ahead (length xs + 1) (node h a) = Some (length xs < length us))"

lemma get_level_link:
  assumes "zsl_nodes h hdr lev as" and "zsl_links h hdr lev as" and "hdr # as = xs @ a # ys" and "i < ht h a" and "i < lev"
  shows "get_level h a i = Some (hop (ht h) i ys)"
proof -
  have "a \<in> set (hdr # as)" using assms(3) by simp
  then have "a \<in> dom h" using assms(1) unfolding zsl_nodes_def by blast
  then have "h a = Some (node h a)" by (auto simp: node_def)
  moreover have "zn_level (node h a) ! i = hop (ht h) i ys" using assms unfolding zsl_links_def by blast
  ultimately show ?thesis using assms(4) by (simp add: get_level_def ht_def)
qed

lemma in_heap: "zsl_nodes h hdr lev as \<Longrightarrow> a \<in> set (hdr # as) \<Longrightarrow> h a = Some (node h a)"
  unfolding zsl_nodes_def node_def by force

lemma walk_down:
  assumes nodes: "zsl_nodes h hdr lev (us @ vs)" and links: "zsl_links h hdr lev (us @ vs)" and fit: "fits h ahead us vs" and "i < lev"
  shows "hdr # us = xs @ x # ys \<Longrightarrow> i < ht h x \<Longrightarrow> \<exists>ur. zsl_walk h ahead i x (length xs) = Some ur \<and> goes_down (ht h) (hdr # us) i ur"
proof (induction "length ys" arbitrary: xs x ys rule: less_induct)
  case less
  have all: "hdr # us @ vs = xs @ x # ys @ vs" using less.prems(1) by (metis append_Cons append_assoc)
  note link = get_level_link [OF nodes links all less.prems(2) assms(4)]
  have at: "h a = Some (node h a)" "ahead (length ps) (node h a) = Some (length ps \<le> length us)" 
    if split: "xs @ x # ys @ vs = ps @ a # qs" and ne: "ps \<noteq> []" for ps a qs
  proof -
    obtain p ps' where ps: "ps = p # ps'" using ne by (cases ps) auto
    then have "us @ vs = ps' @ a # qs" using split all by simp
    then show "h a = Some (node h a)" "ahead (length ps) (node h a) = Some (length ps \<le> length us)"
      using in_heap [OF nodes, of a] fit ps unfolding fits_def by auto
  qed
  have len: "length us = length xs + length ys" using arg_cong [OF less.prems(1), of length] by simp
  show ?case
  proof (rule split_high [of ys "ht h" i])
    assume low: "\<forall>y \<in> set ys. ht h y \<le> i"
    then have gd: "goes_down (ht h) (hdr # us) i (x, length xs)" using less.prems by (auto simp: goes_down_def)
    have hop: "hop (ht h) i (ys @ vs) = \<lparr>zl_forward = zl_forward (hop (ht h) i vs), zl_span = length ys + zl_span (hop (ht h) i vs)\<rparr>"
      by (rule hop_skip [OF low])
    have "zsl_walk h ahead i x (length xs) = Some (x, length xs)"
    proof (rule split_high [of vs "ht h" i])
      assume "\<forall>y \<in> set vs. ht h y \<le> i"
      then have "zl_forward (hop (ht h) i vs) = None" by (simp add: hop_None)
      then show ?thesis using link hop by (simp add: zsl_walk.simps)
    next
      fix v1 v v2 assume v: "vs = v1 @ v # v2" "\<forall>x \<in> set v1. ht h x \<le> i" "i < ht h v"
      have "hop (ht h) i vs = \<lparr>zl_forward = Some v, zl_span = length v1 + 1\<rparr>" using hop_at [OF v(2,3)] v(1) by simp
      moreover have "h v = Some (node h v)" "ahead (length (xs @ x # ys @ v1)) (node h v) = Some False"
        using at [of "xs @ x # ys @ v1" v v2] v(1) len by simp_all
      ultimately show ?thesis using link hop by (simp add: zsl_walk.simps)
    qed
    then show ?thesis using gd by blast
  next
    fix y1 y y2 assume y: "ys = y1 @ y # y2" "\<forall>x \<in> set y1. ht h x \<le> i" "i < ht h y"
    have "hop (ht h) i (ys @ vs) = \<lparr>zl_forward = Some y, zl_span = length y1 + 1\<rparr>" using hop_at [OF y(2,3)] y(1) by simp
    moreover have "h y = Some (node h y)" "ahead (length (xs @ x # y1)) (node h y) = Some True"
      using at [of "xs @ x # y1" y "y2 @ vs"] y(1) len by simp_all
    ultimately have "zsl_walk h ahead i x (length xs) = zsl_walk h ahead i y (length (xs @ x # y1))"
      using link by (subst zsl_walk.simps) simp
    moreover have "hdr # us = (xs @ x # y1) @ y # y2" using less.prems(1) y(1) by simp
    from less.hyps [OF _ this y(3)] y(1) obtain ur where "zsl_walk h ahead i y (length (xs @ x # y1)) = Some ur" "goes_down (ht h) (hdr # us) i ur"
      by auto
    ultimately show ?thesis by simp
  qed
qed

lemma path_down:
  assumes "zsl_nodes h hdr lev (us @ vs)" and "zsl_links h hdr lev (us @ vs)" and "fits h ahead us vs" and "k \<le> lev"
    and "hdr # us = xs @ x # ys" and "k \<le> ht h x"
  shows "\<exists>path. zsl_path h ahead k x (length xs) = Some path \<and> length path = k \<and> (\<forall>i < k. goes_down (ht h) (hdr # us) i (path ! i))"
  using assms(4-)
proof (induction k arbitrary: x xs ys)
  case (Suc k)
  obtain u r where ur: "zsl_walk h ahead k x (length xs) = Some (u, r)" "goes_down (ht h) (hdr # us) k (u, r)"
    using walk_down [OF assms(1-3), of k xs x ys] Suc.prems by fastforce
  then obtain xs' ys' where s: "hdr # us = xs' @ u # ys'" "r = length xs'" "k < ht h u" by (auto simp: goes_down_def)
  obtain path where path: "zsl_path h ahead k u (length xs') = Some path" "length path = k"
    "\<forall>i < k. goes_down (ht h) (hdr # us) i (path ! i)" using Suc.IH [OF _ s(1)] Suc.prems(1) s(3) by auto
  have "goes_down (ht h) (hdr # us) i ((path @ [(u, r)]) ! i)" if "i < Suc k" for i
    using that path(2,3) ur(2) by (cases "i = k") (auto simp: nth_append)
  then show ?case using ur(1) path(1,2) s(2) by simp
qed simp


section \<open>Loops over the levels\<close>

definition lv :: "'s zheap \<Rightarrow> nat \<Rightarrow> nat \<Rightarrow> zlevel" where
  "lv h a i = zn_level (node h a) ! i"

text \<open>Heaps that differ only in the contents of levels.\<close>

definition same_shape :: "'s zheap \<Rightarrow> 's zheap \<Rightarrow> bool" where
  "same_shape h h' \<longleftrightarrow>
     (\<forall>a. map_option (\<lambda>n. (zn_ele n, zn_score n, zn_backward n, length (zn_level n))) (h' a) =
          map_option (\<lambda>n. (zn_ele n, zn_score n, zn_backward n, length (zn_level n))) (h a))"

lemma same_shape_refl: "same_shape h h"
  by (simp add: same_shape_def)

lemma same_shape_trans: "same_shape h h' \<Longrightarrow> same_shape h' h'' \<Longrightarrow> same_shape h h''"
  by (simp add: same_shape_def)

lemma same_shape_at:
  assumes "same_shape h h'"
  shows "h' a = None \<longleftrightarrow> h a = None"
    and "h a \<noteq> None \<Longrightarrow> zn_ele (node h' a) = zn_ele (node h a)" "h a \<noteq> None \<Longrightarrow> zn_score (node h' a) = zn_score (node h a)"
    and "h a \<noteq> None \<Longrightarrow> zn_backward (node h' a) = zn_backward (node h a)" "h a \<noteq> None \<Longrightarrow> ht h' a = ht h a"
  using assms [unfolded same_shape_def, rule_format, of a]
  by (cases "h a"; cases "h' a"; simp add: node_def ht_def)+

lemma same_shape_dom: "same_shape h h' \<Longrightarrow> dom h' = dom h"
  by (rule set_eqI) (simp only: domIff same_shape_at(1) not_False_eq_True)

lemma set_level_effect:
  assumes "h x \<noteq> None" and "i < ht h x"
  shows "\<exists>h'. set_level x i l h = Some h' \<and> same_shape h h' \<and> (\<forall>a j. lv h' a j = (if a = x \<and> j = i then l else lv h a j))"
  using assms by (auto simp: set_level_def same_shape_def lv_def node_def ht_def)

lemma get_level_lv: "h x \<noteq> None \<Longrightarrow> i < ht h x \<Longrightarrow> get_level h x i = Some (lv h x i)"
  by (auto simp: get_level_def lv_def node_def ht_def)

text \<open>A loop over levels whose step at a level reads and writes this level only.\<close>

locale level_loop =
  fixes loop :: "nat list \<Rightarrow> 's zheap \<Rightarrow> 's zheap option"
    and eff :: "nat \<Rightarrow> (nat \<Rightarrow> zlevel) \<Rightarrow> nat \<Rightarrow> zlevel"
    and ready :: "'s zheap \<Rightarrow> nat \<Rightarrow> bool"
  assumes loop_Nil: "loop [] h = Some h"
    and loop_Cons: "ready h i \<Longrightarrow> \<exists>h'. loop (i # ks) h = loop ks h' \<and> same_shape h h' \<and>
      (\<forall>a j. lv h' a j = (if j = i then eff i (\<lambda>b. lv h b i) a else lv h a j))"
    and ready_same: "ready h i \<Longrightarrow> same_shape h h' \<Longrightarrow> (\<And>a. lv h' a i = lv h a i) \<Longrightarrow> ready h' i"
begin

lemma effect:
  "distinct ks \<Longrightarrow> \<forall>i \<in> set ks. ready h i \<Longrightarrow>
   \<exists>h'. loop ks h = Some h' \<and> same_shape h h' \<and> (\<forall>a j. lv h' a j = (if j \<in> set ks then eff j (\<lambda>b. lv h b j) a else lv h a j))"
proof (induction ks arbitrary: h)
  case Nil
  then show ?case by (simp add: loop_Nil same_shape_refl)
next
  case (Cons i ks)
  obtain h1 where h1: "loop (i # ks) h = loop ks h1" "same_shape h h1"
    "\<forall>a j. lv h1 a j = (if j = i then eff i (\<lambda>b. lv h b i) a else lv h a j)" using loop_Cons Cons.prems by force
  have other: "lv h1 a j = lv h a j" if "j \<in> set ks" for a j using h1(3) that Cons.prems(1) by auto
  have rd: "\<forall>j \<in> set ks. ready h1 j" using ready_same [OF _ h1(2)] other Cons.prems(2) by auto
  have "distinct ks" using Cons.prems(1) by simp
  from Cons.IH [OF this rd] obtain h' where h': "loop ks h1 = Some h'" "same_shape h1 h'"
    "\<forall>a j. lv h' a j = (if j \<in> set ks then eff j (\<lambda>b. lv h1 b j) a else lv h1 a j)" by blast
  have "lv h' a j = (if j \<in> set (i # ks) then eff j (\<lambda>b. lv h b j) a else lv h a j)" for a j
  proof (cases "j \<in> set ks")
    case True
    then have "(\<lambda>b. lv h1 b j) = (\<lambda>b. lv h b j)" using other by auto
    then show ?thesis using h'(3) True by simp
  next
    case False
    then show ?thesis using h'(3) h1(3) by simp
  qed
  then show ?case using h1(1,2) h'(1,2) same_shape_trans by auto
qed

end

definition grow_ready :: "zskiplist \<Rightarrow> 's zheap \<Rightarrow> nat \<Rightarrow> bool" where
  "grow_ready zsl h i \<longleftrightarrow> h (zsl_header zsl) \<noteq> None \<and> i < ht h (zsl_header zsl)"

interpretation grow: level_loop "grow_levels zsl"
  "\<lambda>i l a. if a = zsl_header zsl then (l a)\<lparr>zl_span := zsl_length zsl\<rparr> else l a" "grow_ready zsl" for zsl
proof (unfold_locales, goal_cases)
  case (2 h i ks)
  let ?l = "(lv h (zsl_header zsl) i)\<lparr>zl_span := zsl_length zsl\<rparr>"
  obtain h1 where "set_level (zsl_header zsl) i ?l h = Some h1" "same_shape h h1"
    "\<forall>a j. lv h1 a j = (if a = zsl_header zsl \<and> j = i then ?l else lv h a j)"
    using set_level_effect [of h "zsl_header zsl" i ?l] 2 by (auto simp: grow_ready_def)
  then show ?case using 2 get_level_lv [of h "zsl_header zsl" i] by (intro exI [of _ h1]) (auto simp: grow_ready_def)
next
  case (3 h i h')
  then show ?case using same_shape_at(1,5) [OF 3(2)] by (simp add: grow_ready_def)
qed simp

definition update_ready :: "(nat \<times> nat) list \<Rightarrow> 's zheap \<Rightarrow> nat \<Rightarrow> bool" where
  "update_ready update h i \<longleftrightarrow> i < length update \<and> h (fst (update ! i)) \<noteq> None \<and> i < ht h (fst (update ! i))"

lemma update_ready_same: "update_ready update h i \<Longrightarrow> same_shape h h' \<Longrightarrow> update_ready update h' i"
  using same_shape_at(1,5) [of h h'] by (simp add: update_ready_def)

interpretation bump: level_loop "bump_levels update"
  "\<lambda>i l a. if a = fst (update ! i) then (l a)\<lparr>zl_span := zl_span (l a) + 1\<rparr> else l a" "update_ready update" for update
proof (unfold_locales, goal_cases)
  case (2 h i ks)
  obtain u r where u: "update ! i = (u, r)" by (cases "update ! i")
  let ?l = "(lv h u i)\<lparr>zl_span := zl_span (lv h u i) + 1\<rparr>"
  obtain h1 where "set_level u i ?l h = Some h1" "same_shape h h1" "\<forall>a j. lv h1 a j = (if a = u \<and> j = i then ?l else lv h a j)"
    using set_level_effect [of h u i ?l] 2 u by (auto simp: update_ready_def)
  then show ?case using 2 u get_level_lv [of h u i] by (intro exI [of _ h1]) (auto simp: update_ready_def nth_opt_def)
qed (simp_all add: update_ready_same)

definition link_ready :: "nat \<Rightarrow> (nat \<times> nat) list \<Rightarrow> nat \<Rightarrow> 's zheap \<Rightarrow> nat \<Rightarrow> bool" where
  "link_ready x update r0 h i \<longleftrightarrow> update_ready update h i \<and> h x \<noteq> None \<and> i < ht h x \<and> fst (update ! i) \<noteq> x \<and>
     snd (update ! i) \<le> r0 \<and> r0 - snd (update ! i) \<le> zl_span (lv h (fst (update ! i)) i)"

definition link_eff :: "nat \<Rightarrow> (nat \<times> nat) list \<Rightarrow> nat \<Rightarrow> nat \<Rightarrow> (nat \<Rightarrow> zlevel) \<Rightarrow> nat \<Rightarrow> zlevel" where
  "link_eff x update r0 i l a =
     (let (u, r) = update ! i in
      if a = x then \<lparr>zl_forward = zl_forward (l u), zl_span = zl_span (l u) - (r0 - r)\<rparr>
      else if a = u then \<lparr>zl_forward = Some x, zl_span = r0 - r + 1\<rparr>
      else l a)"

interpretation link: level_loop "link_levels x update r0" "link_eff x update r0" "link_ready x update r0" for x update r0
proof (unfold_locales, goal_cases)
  case (2 h i ks)
  obtain u r where u: "update ! i = (u, r)" by (cases "update ! i")
  note rd = 2 [unfolded link_ready_def update_ready_def u, simplified]
  let ?new = "\<lparr>zl_forward = zl_forward (lv h u i), zl_span = zl_span (lv h u i) - (r0 - r)\<rparr>"
  obtain h1 where h1: "set_level x i ?new h = Some h1" "same_shape h h1" "\<forall>a j. lv h1 a j = (if a = x \<and> j = i then ?new else lv h a j)"
    using set_level_effect [of h x i ?new] rd by auto
  have "h1 u \<noteq> None" "i < ht h1 u" using same_shape_at(1,5) [OF h1(2), of u] rd by simp_all
  from set_level_effect [OF this, of "\<lparr>zl_forward = Some x, zl_span = r0 - r + 1\<rparr>"] obtain h2 where
    h2: "set_level u i \<lparr>zl_forward = Some x, zl_span = r0 - r + 1\<rparr> h1 = Some h2" "same_shape h1 h2"
      "\<forall>a j. lv h2 a j = (if a = u \<and> j = i then \<lparr>zl_forward = Some x, zl_span = r0 - r + 1\<rparr> else lv h1 a j)" by auto
  have "link_levels x update r0 (i # ks) h = link_levels x update r0 ks h2"
    using rd h1(1) h2(1) get_level_lv [of h u i] by (simp add: u nth_opt_def usub_def)
  moreover have "lv h2 a j = (if j = i then link_eff x update r0 i (\<lambda>b. lv h b i) a else lv h a j)" for a j
    using h1(3) h2(3) rd by (simp add: link_eff_def u)
  ultimately show ?case using same_shape_trans [OF h1(2) h2(2)] by blast
next
  case (3 h i h')
  then show ?case using same_shape_at(1,5) [OF 3(2), of x] update_ready_same by (auto simp: link_ready_def)
qed simp

definition unlink_ready :: "nat \<Rightarrow> (nat \<times> nat) list \<Rightarrow> 's zheap \<Rightarrow> nat \<Rightarrow> bool" where
  "unlink_ready x update h i \<longleftrightarrow> update_ready update h i \<and> 1 \<le> zl_span (lv h (fst (update ! i)) i) \<and> h x \<noteq> None \<and>
     (zl_forward (lv h (fst (update ! i)) i) = Some x \<longrightarrow> i < ht h x)"

definition unlink_eff :: "nat \<Rightarrow> (nat \<times> nat) list \<Rightarrow> nat \<Rightarrow> (nat \<Rightarrow> zlevel) \<Rightarrow> nat \<Rightarrow> zlevel" where
  "unlink_eff x update i l a =
     (if a = fst (update ! i) then
        (if zl_forward (l a) = Some x then \<lparr>zl_forward = zl_forward (l x), zl_span = zl_span (l a) + zl_span (l x) - 1\<rparr>
         else (l a)\<lparr>zl_span := zl_span (l a) - 1\<rparr>)
      else l a)"

interpretation unlink: level_loop "unlink_levels x update" "unlink_eff x update" "unlink_ready x update" for x update
proof (unfold_locales, goal_cases)
  case (2 h i ks)
  obtain u r where u: "update ! i = (u, r)" by (cases "update ! i")
  note rd = 2 [unfolded unlink_ready_def update_ready_def u, simplified]
  let ?l = "unlink_eff x update i (\<lambda>b. lv h b i) u"
  obtain h1 where h1: "set_level u i ?l h = Some h1" "same_shape h h1" "\<forall>a j. lv h1 a j = (if a = u \<and> j = i then ?l else lv h a j)"
    using set_level_effect [of h u i ?l] rd by auto
  have "unlink_levels x update (i # ks) h = unlink_levels x update ks h1"
  proof (cases "zl_forward (lv h u i) = Some x")
    case True
    then show ?thesis using rd h1(1) get_level_lv [of h u i] get_level_lv [of h x i]
      by (simp add: u nth_opt_def usub_def unlink_eff_def)
  next
    case False
    then show ?thesis using rd h1(1) get_level_lv [of h u i] by (simp add: u nth_opt_def usub_def unlink_eff_def)
  qed
  moreover have "lv h1 a j = (if j = i then unlink_eff x update i (\<lambda>b. lv h b i) a else lv h a j)" for a j
    using h1(3) by (auto simp: unlink_eff_def u)
  ultimately show ?case using h1(2) by blast
next
  case (3 h i h')
  then show ?case using same_shape_at(1,5) [OF 3(2), of x] update_ready_same by (auto simp: unlink_ready_def)
qed simp


section \<open>Insertion\<close>

lemma split_last_unique:
  assumes "xs @ a # ys = xs' @ b # ys'" and "P a" and "P b" and "\<forall>y \<in> set ys. \<not> P y" and "\<forall>y \<in> set ys'. \<not> P y"
  shows "xs = xs' \<and> a = b \<and> ys = ys'"
proof -
  have "rev ys @ a # rev xs = rev ys' @ b # rev xs'" using arg_cong [OF assms(1), of rev] by simp
  moreover have "takeWhile (Not \<circ> P) (rev ys @ a # rev xs) = rev ys" "takeWhile (Not \<circ> P) (rev ys' @ b # rev xs') = rev ys'"
    using assms(2-5) by (simp_all add: takeWhile_tail)
  ultimately have "ys = ys'" by (metis rev_rev_ident)
  then show ?thesis using assms(1) by simp
qed

lemma goes_down_at:
  assumes "goes_down H us i (u, r)" and "us = xs @ u # ys" and "distinct us"
  shows "\<forall>y \<in> set ys. H y \<le> i" "r = length xs" "i < H u"
proof -
  obtain xs' ys' where s: "us = xs' @ u # ys'" "r = length xs'" "i < H u" "\<forall>y \<in> set ys'. H y \<le> i" using assms(1) by (auto simp: goes_down_def)
  have "distinct (xs @ u # ys)" "distinct (xs' @ u # ys')" using assms(2,3) s(1) by metis+
  then have "u \<notin> set ys" "u \<notin> set ys'" by simp_all
  from split_last_unique [of xs u ys xs' u ys' "(=) u"] this assms(2) s(1) have "xs = xs' \<and> ys = ys'" by auto
  then show "\<forall>y \<in> set ys. H y \<le> i" "r = length xs" "i < H u" using s by auto
qed

lemma goes_down_other:
  assumes "goes_down H us i (u, r)" and "us = xs @ a # ys" and "i < H a" and "a \<noteq> u"
  shows "\<exists>y \<in> set ys. i < H y"
proof (rule ccontr)
  assume "\<not> (\<exists>y \<in> set ys. i < H y)"
  moreover obtain xs' ys' where "us = xs' @ u # ys'" "i < H u" "\<forall>y \<in> set ys'. H y \<le> i" using assms(1) by (auto simp: goes_down_def)
  ultimately have "a = u" using split_last_unique [of xs a ys xs' u ys' "\<lambda>y. i < H y"] assms(2,3) by force
  then show False using assms(4) by simp
qed

text \<open>Where a node of the list is, when another is put in between.\<close>

lemma split_insert:
  assumes "us @ x # vs = xs @ a # ys"
  obtains "a = x" "xs = us" "ys = vs" | zs where "us = xs @ a # zs" "ys = zs @ x # vs" | zs where "vs = zs @ a # ys" "xs = us @ x # zs"
proof -
  consider ws where "us = xs @ ws" "ws @ x # vs = a # ys" | ws where "us @ ws = xs" "x # vs = ws @ a # ys"
    using assms by (auto simp: append_eq_append_conv2)
  then show thesis
  proof cases
    case (1 ws)
    then show thesis using that(1,2) by (cases ws) auto
  next
    case (2 ws)
    then show thesis using that(1,3) by (cases ws) auto
  qed
qed

lemma linksD:
  "zsl_links h hdr lev as \<Longrightarrow> hdr # as = xs @ a # ys \<Longrightarrow> i < ht h a \<Longrightarrow> i < lev \<Longrightarrow> lv h a i = hop (ht h) i ys"
  unfolding zsl_links_def lv_def by blast

lemma zsl_links_lv:
  "zsl_links h hdr lev as \<longleftrightarrow>
     (\<forall>xs a ys i. hdr # as = xs @ a # ys \<longrightarrow> i < ht h a \<longrightarrow> i < lev \<longrightarrow> lv h a i = hop (ht h) i ys) \<and>
     (\<forall>i. lev \<le> i \<longrightarrow> i < ZSKIPLIST_MAXLEVEL \<longrightarrow> zl_forward (lv h hdr i) = None)"
  by (simp add: zsl_links_def lv_def)

text \<open>
  A node is put between two parts of the list: the links of the nodes before it, of the node itself, and of the nodes
  after it.
\<close>

definition insert_eff :: "nat \<Rightarrow> nat \<Rightarrow> (nat \<times> nat) list \<Rightarrow> nat \<Rightarrow> nat \<Rightarrow> (nat \<Rightarrow> zlevel) \<Rightarrow> nat \<Rightarrow> zlevel" where
  "insert_eff x level update r0 j l a =
     (if j < level then link_eff x update r0 j l a
      else if a = fst (update ! j) then (l a)\<lparr>zl_span := zl_span (l a) + 1\<rparr> else l a)"

lemma insert_hop:
  assumes links: "zsl_links h hdr lev (us @ vs)" and dist: "distinct (hdr # us @ vs)" and down: "goes_down (ht h) (hdr # us) j (update ! j)"
    and x: "x \<notin> set (hdr # us @ vs)" and H: "\<And>a. a \<noteq> x \<Longrightarrow> H a = ht h a" "H x = level" and j: "j < lev" "r0 = length us"
    and split: "hdr # us @ x # vs = xs @ a # ys" and a: "j < H a"
    and l: "\<And>b. b \<noteq> x \<Longrightarrow> l b = lv h b j"
  shows "insert_eff x level update r0 j l a = hop H j ys"
proof -
  obtain u r where u: "update ! j = (u, r)" by (cases "update ! j")
  obtain xu yu where s: "hdr # us = xu @ u # yu" "r = length xu" "j < ht h u" "\<forall>y \<in> set yu. ht h y \<le> j"
    using down u by (auto simp: goes_down_def)
  have old: "lv h b j = hop (ht h) j (ps @ vs)" if "hdr # us = qs @ b # ps" "j < ht h b" for b ps qs
    using linksD [OF links _ that(2) j(1), of qs "ps @ vs"] that(1) by (metis append_Cons append_assoc)
  have d: "r0 - r = length yu" using arg_cong [OF s(1), of length] s(2) j(2) by simp
  have eqH: "hop H j ps = hop (ht h) j ps" if "x \<notin> set ps" for ps using that H(1) by (intro hop_cong) metis
  have ux: "u \<noteq> x" using s(1) x by (metis append_Cons in_set_conv_decomp set_ConsD Un_iff set_append)
  from split have "(hdr # us) @ x # vs = xs @ a # ys" by simp
  then show ?thesis
  proof (cases rule: split_insert)
    case 1
    then have "j < level" using a H(2) by simp
    then show ?thesis
      using 1 old [OF s(1,3)] hop_skip [OF s(4), of vs] d eqH [of vs] x l [OF ux] u by (simp add: insert_eff_def link_eff_def)
  next
    case (2 zs)
    have ax: "a \<noteq> x" and zx: "x \<notin> set zs" using arg_cong [OF 2(1), of set] x by auto
    have ha: "j < ht h a" using a H(1) [OF ax] by simp
    note link = old [OF 2(1) ha]
    show ?thesis
    proof (cases "a = u")
      case True
      have "distinct (hdr # us)" using dist by simp
      from goes_down_at [OF down [unfolded u] 2(1) [unfolded True] this]
      have low: "\<forall>y \<in> set zs. ht h y \<le> j" and "r = length xs" by simp_all
      then have len: "length zs = length yu" using s(2) arg_cong [OF s(1), of length] arg_cong [OF 2(1), of length] by simp
      have lowH: "\<forall>y \<in> set zs. H y \<le> j" using low zx H(1) by (metis)
      show ?thesis
      proof (cases "j < level")
        case True
        then show ?thesis using \<open>a = u\<close> ax u d len hop_at [OF lowH, of x vs] H(2) 2(2) by (simp add: insert_eff_def link_eff_def)
      next
        case False
        then have "hop H j ys = (hop (ht h) j (zs @ vs))\<lparr>zl_span := zl_span (hop (ht h) j (zs @ vs)) + 1\<rparr>"
          using 2(2) hop_skip [OF low, of vs] hop_skip [OF lowH, of "x # vs"] H(2) eqH [of vs] x by simp
        then show ?thesis using False \<open>a = u\<close> u link l [OF ax] by (simp add: insert_eff_def)
      qed
    next
      case False
      obtain y where y: "y \<in> set zs" "j < ht h y" using goes_down_other [OF down [unfolded u] 2(1) ha False] by blast
      then have "hop H j ys = hop (ht h) j (zs @ vs)"
        using 2(2) hop_inside [of y zs j H "x # vs"] hop_inside [of y zs j "ht h" vs] H(1) zx eqH [OF zx] by metis
      then show ?thesis using False ax u link l [OF ax] by (simp add: insert_eff_def link_eff_def)
    qed
  next
    case (3 zs)
    have ax: "a \<noteq> x" "x \<notin> set ys" using 3(1) x by auto
    have "a \<noteq> u" using 3(1) s(1) dist by (metis append_Cons distinct_append in_set_conv_decomp disjoint_iff append_assoc)
    moreover have "lv h a j = hop (ht h) j ys"
      using linksD [OF links, of "hdr # us @ zs" a ys j] 3(1) a H(1) [OF ax(1)] j(1) by simp
    ultimately show ?thesis using ax u l [OF ax(1)] eqH [OF ax(2)] by (simp add: insert_eff_def link_eff_def)
  qed
qed


lemma node_upd [simp]: "node (h(x \<mapsto> n)) a = (if a = x then n else node h a)"
  by (simp add: node_def)

lemma ht_upd [simp]: "ht (h(x \<mapsto> n)) a = (if a = x then length (zn_level n) else ht h a)"
  by (simp add: ht_def)

lemma lv_upd [simp]: "lv (h(x \<mapsto> n)) a j = (if a = x then zn_level n ! j else lv h a j)"
  by (simp add: lv_def)

lemma link_span:
  assumes "zsl_links h hdr lev (us @ vs)" and "goes_down (ht h) (hdr # us) j (u, r)" and "j < lev"
  shows "r \<le> length us" "length us - r \<le> zl_span (lv h u j)" "u \<in> set (hdr # us)" "j < ht h u"
proof -
  obtain xu yu where s: "hdr # us = xu @ u # yu" "r = length xu" "j < ht h u" "\<forall>y \<in> set yu. ht h y \<le> j"
    using assms(2) by (auto simp: goes_down_def)
  have "hdr # us @ vs = xu @ u # (yu @ vs)" using s(1) by (metis append_Cons append_assoc)
  from linksD [OF assms(1) this s(3) assms(3)] have "lv h u j = hop (ht h) j (yu @ vs)" .
  then show "length us - r \<le> zl_span (lv h u j)" using hop_skip [OF s(4), of vs] arg_cong [OF s(1), of length] s(2) by simp
  show "r \<le> length us" using arg_cong [OF s(1), of length] s(2) by simp
  show "u \<in> set (hdr # us)" "j < ht h u" using arg_cong [OF s(1), of set] s(3) by auto
qed

lemma insert_links:
  assumes nodes: "zsl_nodes h hdr lev (us @ vs)" and links: "zsl_links h hdr lev (us @ vs)" and x: "h x = None"
    and level: "length (zn_level n) = level" "1 \<le> level" "level \<le> lev"
    and upd: "length update = lev" "\<forall>i < lev. goes_down (ht h) (hdr # us) i (update ! i)"
  shows "\<exists>h1 h2. link_levels x update (length us) [0..<level] (h(x \<mapsto> n)) = Some h1 \<and> bump_levels update [level..<lev] h1 = Some h2 \<and>
    same_shape (h(x \<mapsto> n)) h2 \<and> zsl_nodes h2 hdr lev (us @ x # vs) \<and> zsl_links h2 hdr lev (us @ x # vs)"
proof -
  let ?h = "h(x \<mapsto> n)" and ?r = "length us"
  have dist: "distinct (hdr # us @ vs)" and dom: "set (hdr # us @ vs) \<subseteq> dom h" and max: "lev \<le> ZSKIPLIST_MAXLEVEL" "ht h hdr = ZSKIPLIST_MAXLEVEL"
    and hts: "\<forall>a \<in> set (us @ vs). 1 \<le> ht h a \<and> ht h a \<le> lev" and lev1: "1 \<le> lev" using nodes by (simp_all add: zsl_nodes_def)
  have xn: "x \<notin> set (hdr # us @ vs)" using dom x by auto
  have up: "fst (update ! i) \<noteq> x" "?h (fst (update ! i)) \<noteq> None" "i < ht ?h (fst (update ! i))" "snd (update ! i) \<le> ?r"
    "?r - snd (update ! i) \<le> zl_span (lv ?h (fst (update ! i)) i)" if "i < lev" for i
    using link_span [OF links, of i "fst (update ! i)" "snd (update ! i)"] upd(2) that xn dom by (auto simp: domIff)
  have "\<forall>i \<in> set [0..<level]. link_ready x update ?r ?h i"
    using up level upd(1) by (auto simp: link_ready_def update_ready_def)
  from link.effect [OF distinct_upt this] obtain h1 where h1: "link_levels x update ?r [0..<level] ?h = Some h1" "same_shape ?h h1"
    "\<forall>a j. lv h1 a j = (if j \<in> set [0..<level] then link_eff x update ?r j (\<lambda>b. lv ?h b j) a else lv ?h a j)" by blast
  have "\<forall>i \<in> set [level..<lev]. update_ready update ?h i" using up upd(1) by (auto simp: update_ready_def)
  then have "\<forall>i \<in> set [level..<lev]. update_ready update h1 i" using update_ready_same [OF _ h1(2)] by blast
  from bump.effect [OF distinct_upt this] obtain h2 where h2: "bump_levels update [level..<lev] h1 = Some h2" "same_shape h1 h2"
    "\<forall>a j. lv h2 a j = (if j \<in> set [level..<lev] then if a = fst (update ! j) then (lv h1 a j)\<lparr>zl_span := zl_span (lv h1 a j) + 1\<rparr> else lv h1 a j else lv h1 a j)"
    by blast
  have sh: "same_shape ?h h2" using same_shape_trans [OF h1(2) h2(2)] .
  have eff: "lv h2 a j = (if j < lev then insert_eff x level update ?r j (\<lambda>b. lv ?h b j) a else lv ?h a j)" for a j
    using h1(3) h2(3) level(3) by (auto simp: insert_eff_def)
  have H: "ht h2 a = (if a = x then level else ht h a)" if "a \<in> set (hdr # us @ x # vs)" for a
    using same_shape_at(5) [OF sh, of a] that dom level(1) by (auto simp: domIff)
  have dom2: "set (hdr # us @ x # vs) \<subseteq> dom h2" using same_shape_dom [OF sh] dom by auto
  have "zsl_nodes h2 hdr lev (us @ x # vs)"
    unfolding zsl_nodes_def using dom2 dist xn max lev1 hts level H by auto
  moreover have "lv h2 a i = hop (ht h2) i ys" if "hdr # us @ x # vs = xs @ a # ys" "i < ht h2 a" "i < lev" for xs a ys i
  proof -
    let ?H = "(ht h)(x := level)"
    have "a \<in> set (hdr # us @ x # vs)" "set ys \<subseteq> set (hdr # us @ x # vs)" using arg_cong [OF that(1), of set] by auto
    then have eq: "ht h2 a = ?H a" "hop (ht h2) i ys = hop ?H i ys" using H by (auto intro!: hop_cong)
    have "insert_eff x level update ?r i (\<lambda>b. lv ?h b i) a = hop ?H i ys"
      by (rule insert_hop [OF links dist upd(2) [rule_format, OF that(3)] xn _ _ that(3) refl that(1)]) (use that(2) eq in auto)
    then show ?thesis using eff that(3) eq by simp
  qed
  moreover have "zl_forward (lv h2 hdr i) = None" if "lev \<le> i" "i < ZSKIPLIST_MAXLEVEL" for i
    using links that xn eff by (auto simp: zsl_links_lv)
  ultimately show ?thesis using h1(1) h2(1) sh unfolding zsl_links_lv by blast
qed

lemma grow_links:
  assumes nodes: "zsl_nodes h (zsl_header zsl) lev as" and links: "zsl_links h (zsl_header zsl) lev as" and len: "zsl_length zsl = length as"
    and lev': "lev \<le> lev'" "lev' \<le> ZSKIPLIST_MAXLEVEL"
  shows "\<exists>h'. grow_levels zsl [lev..<lev'] h = Some h' \<and> same_shape h h' \<and> zsl_nodes h' (zsl_header zsl) lev' as \<and>
    zsl_links h' (zsl_header zsl) lev' as"
proof -
  let ?hdr = "zsl_header zsl"
  have dist: "distinct (?hdr # as)" and dom: "set (?hdr # as) \<subseteq> dom h" and max: "ht h ?hdr = ZSKIPLIST_MAXLEVEL"
    and hts: "\<forall>a \<in> set as. 1 \<le> ht h a \<and> ht h a \<le> lev" and lev1: "1 \<le> lev" using nodes by (simp_all add: zsl_nodes_def)
  have "\<forall>i \<in> set [lev..<lev']. grow_ready zsl h i" using dom max lev' by (auto simp: grow_ready_def)
  from grow.effect [OF distinct_upt this] obtain h' where h': "grow_levels zsl [lev..<lev'] h = Some h'" "same_shape h h'"
    "\<forall>a j. lv h' a j = (if j \<in> set [lev..<lev'] then if a = ?hdr then (lv h a j)\<lparr>zl_span := zsl_length zsl\<rparr> else lv h a j else lv h a j)"
    by blast
  have H: "ht h' a = ht h a" if "a \<in> set (?hdr # as)" for a using same_shape_at(5) [OF h'(2), of a] that dom by auto
  have "zsl_nodes h' ?hdr lev' as" unfolding zsl_nodes_def
    using dist dom same_shape_dom [OF h'(2)] H max lev' lev1 hts by force
  moreover have "lv h' a i = hop (ht h') i ys" if s: "?hdr # as = xs @ a # ys" "i < ht h' a" "i < lev'" for xs a ys i
  proof -
    have a: "a \<in> set (?hdr # as)" "set ys \<subseteq> set as" using arg_cong [OF s(1), of set] s(1) by (auto, cases xs, auto)
    have eq: "hop (ht h') i ys = hop (ht h) i ys" using H a(2) by (intro hop_cong) auto
    show ?thesis
    proof (cases "i < lev")
      case True
      then show ?thesis using linksD [OF links s(1)] s(2) H [OF a(1)] h'(3) eq by simp
    next
      case False
      then have hdr: "a = ?hdr" using s(2) H [OF a(1)] hts a(1) by auto
      then have "ys = as" using dist s(1) by (cases xs) auto
      then have "hop (ht h) i ys = \<lparr>zl_forward = None, zl_span = length as\<rparr>" using hts False hop_skip [of as "ht h" i "[]"] by force
      moreover have "zl_forward (lv h ?hdr i) = None" using links False s(3) lev' by (simp add: zsl_links_lv)
      ultimately show ?thesis using h'(3) hdr eq False s(3) len by simp
    qed
  qed
  moreover have "zl_forward (lv h' ?hdr i) = None" if "lev' \<le> i" "i < ZSKIPLIST_MAXLEVEL" for i
    using links that h'(3) lev' by (simp add: zsl_links_lv)
  ultimately show ?thesis using h'(1,2) unfolding zsl_links_lv by blast
qed


subsection \<open>Backward pointers and order\<close>

text \<open>Heaps that differ only in backward pointers.\<close>

definition same_links :: "'s zheap \<Rightarrow> 's zheap \<Rightarrow> bool" where
  "same_links h h' \<longleftrightarrow> dom h' = dom h \<and>
     (\<forall>a. zn_ele (node h' a) = zn_ele (node h a) \<and> zn_score (node h' a) = zn_score (node h a) \<and> zn_level (node h' a) = zn_level (node h a))"

lemma same_links_refl: "same_links h h"
  by (simp add: same_links_def)

lemma same_links_trans: "same_links h h' \<Longrightarrow> same_links h' h'' \<Longrightarrow> same_links h h''"
  by (simp add: same_links_def)

lemma same_links_fields:
  assumes "same_links h h'"
  shows "ht h' = ht h" "key h' = key h" "lv h' = lv h" "zsl_nodes h' hdr lev as = zsl_nodes h hdr lev as"
    "zsl_links h' hdr lev as = zsl_links h hdr lev as" "zsl_top h' lev as = zsl_top h lev as"
    "zsl_order h' hdr as = zsl_order h hdr as" "dom h' = dom h"
proof -
  show [simp]: "ht h' = ht h" "key h' = key h" "lv h' = lv h" "dom h' = dom h"
    using assms by (auto simp: same_links_def ht_def key_def lv_def fun_eq_iff)
  show "zsl_nodes h' hdr lev as = zsl_nodes h hdr lev as" "zsl_top h' lev as = zsl_top h lev as"
    "zsl_links h' hdr lev as = zsl_links h hdr lev as" by (simp_all add: zsl_nodes_def zsl_top_def zsl_links_lv)
  show "zsl_order h' hdr as = zsl_order h hdr as" using assms by (simp add: zsl_order_def same_links_def)
qed

lemma set_backward_effect:
  assumes "a \<in> dom h"
  shows "\<exists>h'. set_backward a p h = Some h' \<and> same_links h h' \<and>
    (\<forall>b. zn_backward (node h' b) = (if b = a then p else zn_backward (node h b)))"
  using assms by (auto simp: set_backward_def same_links_def node_def)

lemma insert_backs:
  assumes backs: "zsl_backs h hdr (us @ vs)" and dist: "distinct (hdr # us @ x # vs)"
    and B: "\<And>b. b \<in> set (us @ x # vs) \<Longrightarrow> zn_backward (node h' b) =
      (if b = x then if us = [] then None else Some (last us) else if vs \<noteq> [] \<and> b = hd vs then Some x else zn_backward (node h b))"
  shows "zsl_backs h' hdr (us @ x # vs)"
  unfolding zsl_backs_def
proof (intro allI impI)
  fix xs a b ys assume split: "hdr # us @ x # vs = xs @ a # b # ys"
  have b: "b \<in> set (us @ x # vs)" using split by (cases xs) (auto simp: append_eq_Cons_conv)
  have old: "hdr # us @ vs = xs' @ a' # b' # ys' \<Longrightarrow> zn_backward (node h b') = (if xs' = [] then None else Some a')" for xs' a' b' ys'
    using backs unfolding zsl_backs_def by blast
  from split have "(hdr # us) @ x # vs = (xs @ [a]) @ b # ys" by simp
  then show "zn_backward (node h' b) = (if xs = [] then None else Some a)"
  proof (cases rule: split_insert)
    case 1
    then show ?thesis using B [OF b] by (cases us rule: rev_cases) auto
  next
    case (2 zs)
    then have "hdr # us @ vs = xs @ a # b # (zs @ vs)" by (metis append.assoc append_Cons append_Nil)
    moreover have "b \<in> set us" using 2(1) by (cases xs) auto
    then have "b \<noteq> x" "vs \<noteq> [] \<longrightarrow> b \<noteq> hd vs" using dist by auto
    ultimately show ?thesis using B [OF b] old [of xs a b "zs @ vs"] by auto
  next
    case (3 zs)
    show ?thesis
    proof (cases zs rule: rev_cases)
      case Nil
      then show ?thesis using 3 B [OF b] dist by auto
    next
      case (snoc zs' c)
      then have c: "c = a" "xs = hdr # us @ x # zs'" using 3(2) by auto
      have "b \<noteq> x" "b \<noteq> hd vs" using 3(1) snoc dist by (auto simp: hd_append split: if_splits)
      moreover have "hdr # us @ vs = (hdr # us @ zs') @ a # b # ys" using 3(1) snoc c by simp
      ultimately show ?thesis using B [OF b] old [of "hdr # us @ zs'" a b ys] c by simp
    qed
  qed
qed

lemma insert_order:
  assumes order: "zsl_order h hdr (us @ vs)" and K: "\<And>a. a \<in> set (us @ vs) \<Longrightarrow> key h' a = key h a" "key h' x = k"
    and E: "zn_ele (node h' hdr) = None" "\<And>a. a \<in> set (us @ x # vs) \<Longrightarrow> zn_ele (node h' a) \<noteq> None"
    and "\<forall>a \<in> set us. key h a < k" and "\<forall>a \<in> set vs. k < key h a" and "snd k \<notin> snd ` key h ` set (us @ vs)"
  shows "zsl_order h' hdr (us @ x # vs)"
proof -
  have eq: "map (key h') (us @ x # vs) = map (key h) us @ k # map (key h) vs" using K by simp
  have "sorted_wrt (<) (map (key h) us @ k # map (key h) vs)"
    using order assms(6,7) by (auto simp: zsl_order_def sorted_wrt_append)
  moreover have "distinct (map snd (map (key h) us @ k # map (key h) vs))"
    using order assms(8) by (auto simp: zsl_order_def comp_def)
  ultimately show ?thesis using E unfolding zsl_order_def map_map [symmetric] eq by simp
qed

lemma goes_down_bottom:
  assumes "goes_down H (hdr # us) 0 (u, r)" and "\<forall>a \<in> set us. 1 \<le> H a"
  shows "u = last (hdr # us)" "r = length us"
proof -
  obtain xu yu where s: "hdr # us = xu @ u # yu" "r = length xu" "\<forall>y \<in> set yu. H y \<le> 0" using assms(1) by (auto simp: goes_down_def)
  have "set yu \<subseteq> set us" using s(1) by (cases xu) auto
  then have "yu = []" using s(3) assms(2) by (metis less_eq_nat.simps(1) last_in_set not_one_le_zero order_antisym subset_iff)
  then have e: "hdr # us = xu @ [u]" using s(1) by simp
  then show "u = last (hdr # us)" by simp
  show "r = length us" using s(2) arg_cong [OF e, of length] by simp
qed


subsection \<open>The whole operation\<close>

lemma random_loop_bounds: "random_loop rs level = Some l \<Longrightarrow> level \<le> l"
  by (induction rs arbitrary: level) (fastforce split: if_splits)+

lemma zslRandomLevel_bounds: "zslRandomLevel rs = Some level \<Longrightarrow> 1 \<le> level \<and> level \<le> ZSKIPLIST_MAXLEVEL"
  by (auto simp: zslRandomLevel_def ZSKIPLIST_MAXLEVEL_def split: bind_splits if_splits dest: random_loop_bounds)

text \<open>A condition on the keys that holds of a part of the list fits it.\<close>

lemma fits_key:
  assumes "\<And>a r. a \<in> set (us @ vs) \<Longrightarrow> ahead r (node h a) = Some (P a)" and "\<forall>a \<in> set us. P a" and "\<forall>a \<in> set vs. \<not> P a"
  shows "fits h ahead us vs"
  unfolding fits_def
proof (intro allI impI)
  fix xs a ys assume s: "us @ vs = xs @ a # ys"
  have a: "a \<in> set (us @ vs)" using arg_cong [OF s, of set] by auto
  have nth: "(us @ vs) ! length xs = a" using s by simp
  have len: "length us + length vs = Suc (length xs + length ys)" using arg_cong [OF s, of length] by simp
  have "P a \<longleftrightarrow> length xs < length us"
  proof (cases "length xs < length us")
    case True
    then show ?thesis using nth assms(2) by (auto simp: nth_append)
  next
    case False
    then have "length xs - length us < length vs" using len by simp
    then show ?thesis using False nth assms(3) by (auto simp: nth_append)
  qed
  then show "ahead (length xs + 1) (node h a) = Some (length xs < length us)" using assms(1) [OF a] by simp
qed

lemma before_key: "zn_ele (node h a) \<noteq> None \<Longrightarrow> before score ele r (node h a) = Some (key h a < (score, ele))"
  by (auto simp: before_def key_def text_cmp_less)

text \<open>The parts of the list before and after a key.\<close>

definition lower :: "'s::linorder zheap \<Rightarrow> 's \<times> string \<Rightarrow> nat list \<Rightarrow> nat list" where
  "lower h k as = filter (\<lambda>a. key h a < k) as"

definition upper :: "'s::linorder zheap \<Rightarrow> 's \<times> string \<Rightarrow> nat list \<Rightarrow> nat list" where
  "upper h k as = filter (\<lambda>a. \<not> key h a < k) as"

lemma lower_upper: "sorted_wrt (<) (map (key h) as) \<Longrightarrow> lower h k as @ upper h k as = as"
proof (induction as)
  case (Cons a as)
  show ?case
  proof (cases "key h a < k")
    case True
    then show ?thesis using Cons by (simp add: lower_def upper_def)
  next
    case False
    then have "\<forall>b \<in> set as. \<not> key h b < k" using Cons.prems by (auto intro: order.strict_trans)
    then have "lower h k as = []" "upper h k as = as" by (auto simp: lower_def upper_def filter_empty_conv)
    then show ?thesis using False by (simp add: lower_def upper_def)
  qed
qed (simp add: lower_def upper_def)

lemma rep_split:
  assumes "zsl_rep h zsl as"
  shows "lower h k as @ upper h k as = as" "fits h (before (fst k) (snd k)) (lower h k as) (upper h k as)"
proof -
  have order: "zsl_order h (zsl_header zsl) as" using assms by (simp add: zsl_rep_def)
  then show eq: "lower h k as @ upper h k as = as" by (intro lower_upper) (simp add: zsl_order_def)
  show "fits h (before (fst k) (snd k)) (lower h k as) (upper h k as)"
    by (rule fits_key [where P = "\<lambda>a. key h a < k"])
      (use order eq in \<open>auto simp: before_key zsl_order_def lower_def upper_def\<close>)
qed

lemma rep_path:
  assumes "zsl_rep h zsl (us @ vs)" and "fits h ahead us vs"
  shows "\<exists>path. zsl_path h ahead (zsl_level zsl) (zsl_header zsl) 0 = Some path \<and> length path = zsl_level zsl \<and>
    (\<forall>i < zsl_level zsl. goes_down (ht h) (zsl_header zsl # us) i (path ! i))"
proof -
  have rep: "zsl_nodes h (zsl_header zsl) (zsl_level zsl) (us @ vs)" "zsl_links h (zsl_header zsl) (zsl_level zsl) (us @ vs)"
    using assms(1) by (simp_all add: zsl_rep_def)
  have "zsl_header zsl # us = [] @ zsl_header zsl # us" "zsl_level zsl \<le> ht h (zsl_header zsl)" using rep(1) by (simp_all add: zsl_nodes_def)
  from path_down [OF rep assms(2) order_refl this] show ?thesis by simp
qed


text \<open>The nodes to update at all levels of the new list.\<close>

lemma insert_update:
  assumes nodes: "zsl_nodes h hdr lev (us @ vs)" and path: "length path = lev" "\<forall>i < lev. goes_down (ht h) (hdr # us) i (path ! i)"
    and bound: "length us < 4294967296" and i: "i < max lev level" "i < ZSKIPLIST_MAXLEVEL"
  shows "goes_down (ht h) (hdr # us) i ((map (\<lambda>(u, r). (u, uint32 r)) path @ replicate (level - lev) (hdr, 0)) ! i)"
proof (cases "i < lev")
  case True
  obtain u r where u: "path ! i = (u, r)" by (cases "path ! i")
  then have down: "goes_down (ht h) (hdr # us) i (u, r)" using path(2) True by metis
  then obtain xu yu where xu: "hdr # us = xu @ u # yu" "r = length xu" by (auto simp: goes_down_def)
  have "r \<le> length us" using arg_cong [OF xu(1), of length] xu(2) by simp
  then have "uint32 r = r" using bound by simp
  then show ?thesis using True path(1) u down by (simp add: nth_append)
next
  case False
  moreover have "\<forall>y \<in> set us. ht h y \<le> lev" "i < ht h hdr" using nodes i(2) by (auto simp: zsl_nodes_def)
  ultimately have "goes_down (ht h) (hdr # us) i (hdr, 0)" by (fastforce simp: goes_down_def)
  then show ?thesis using False path(1) i(1) by (simp add: nth_append)
qed

lemma same_shape_order_links:
  assumes "same_shape h h'" and "set (hdr # as) \<subseteq> dom h"
  shows "a \<in> set (hdr # as) \<Longrightarrow> zn_ele (node h' a) = zn_ele (node h a)" "a \<in> set (hdr # as) \<Longrightarrow> key h' a = key h a"
    "a \<in> set (hdr # as) \<Longrightarrow> zn_backward (node h' a) = zn_backward (node h a)" "a \<in> set (hdr # as) \<Longrightarrow> ht h' a = ht h a"
proof -
  have "h a \<noteq> None" if "a \<in> set (hdr # as)" using assms(2) that by (meson domIff subsetD)
  note at = same_shape_at(2-5) [OF assms(1) this]
  show "a \<in> set (hdr # as) \<Longrightarrow> zn_ele (node h' a) = zn_ele (node h a)" "a \<in> set (hdr # as) \<Longrightarrow> key h' a = key h a"
    "a \<in> set (hdr # as) \<Longrightarrow> zn_backward (node h' a) = zn_backward (node h a)" "a \<in> set (hdr # as) \<Longrightarrow> ht h' a = ht h a"
    using at by (simp_all add: key_def)
qed

lemma goes_down_shape:
  assumes "same_shape h h'" and "set (hdr # us) \<subseteq> dom h" and "goes_down (ht h) (hdr # us) i ur"
  shows "goes_down (ht h') (hdr # us) i ur"
proof -
  obtain xs ys where s: "hdr # us = xs @ fst ur # ys" "snd ur = length xs" "i < ht h (fst ur)" "\<forall>y \<in> set ys. ht h y \<le> i"
    using assms(3) by (auto simp: goes_down_def)
  have "fst ur \<in> set (hdr # us)" "set ys \<subseteq> set (hdr # us)" using arg_cong [OF s(1), of set] by auto
  then show ?thesis using s same_shape_order_links(4) [OF assms(1,2)] unfolding goes_down_def by (metis subsetD)
qed

text \<open>The last part: the backward pointers of the new node and of the next one.\<close>

lemma insert_finish:
  assumes nodes: "zsl_nodes h2 hdr lev (us @ x # vs)" and links: "zsl_links h2 hdr lev (us @ x # vs)"
    and old: "zsl_backs h hdr (us @ vs)" "zsl_order h hdr (us @ vs)"
    and same: "\<And>a. a \<in> set (hdr # us @ vs) \<Longrightarrow> zn_ele (node h2 a) = zn_ele (node h a) \<and> key h2 a = key h a \<and> zn_backward (node h2 a) = zn_backward (node h a)"
    and k: "key h2 x = k" "zn_ele (node h2 x) \<noteq> None" "\<forall>a \<in> set us. key h a < k" "\<forall>a \<in> set vs. k < key h a"
      "snd k \<notin> snd ` key h ` set (us @ vs)"
  shows "\<exists>h3 h4 l. set_backward x (if last (hdr # us) = hdr then None else Some (last (hdr # us))) h2 = Some h3 \<and> get_level h3 x 0 = Some l \<and>
    zl_forward l = (if vs = [] then None else Some (hd vs)) \<and> (if vs = [] then h4 = h3 else set_backward (hd vs) (Some x) h3 = Some h4) \<and>
    same_links h2 h4 \<and> zsl_backs h4 hdr (us @ x # vs) \<and> zsl_order h4 hdr (us @ x # vs)"
proof -
  have dist: "distinct (hdr # us @ x # vs)" and dom: "set (hdr # us @ x # vs) \<subseteq> dom h2" and hts: "\<forall>a \<in> set (us @ x # vs). 1 \<le> ht h2 a"
    and lev: "1 \<le> lev" using nodes by (simp_all add: zsl_nodes_def)
  let ?b = "if last (hdr # us) = hdr then None else Some (last (hdr # us))"
  have b: "?b = (if us = [] then None else Some (last us))" using dist by (cases us rule: rev_cases) auto
  obtain h3 where h3: "set_backward x ?b h2 = Some h3" "same_links h2 h3" "\<forall>c. zn_backward (node h3 c) = (if c = x then ?b else zn_backward (node h2 c))"
    using set_backward_effect [of x h2 ?b] dom by auto
  note f3 = same_links_fields [OF h3(2)]
  have "get_level h3 x 0 = Some (hop (ht h3) 0 vs)"
    using get_level_link [of h3 hdr lev "us @ x # vs" "hdr # us" x vs 0] nodes links f3 hts lev by auto
  moreover have "zl_forward (hop (ht h3) 0 vs) = (if vs = [] then None else Some (hd vs))" using hts f3(1) by (cases vs) auto
  moreover obtain h4 where h4: "if vs = [] then h4 = h3 else set_backward (hd vs) (Some x) h3 = Some h4" "same_links h3 h4"
    "\<forall>c. zn_backward (node h4 c) = (if vs \<noteq> [] \<and> c = hd vs then Some x else zn_backward (node h3 c))"
    using set_backward_effect [of "hd vs" h3 "Some x"] dom f3(8) same_links_refl by (cases vs) auto
  have sl: "same_links h2 h4" using same_links_trans [OF h3(2) h4(2)] .
  note f4 = same_links_fields [OF sl]
  have "zsl_backs h4 hdr (us @ x # vs)"
  proof (rule insert_backs [OF old(1) dist])
    fix c assume "c \<in> set (us @ x # vs)"
    then show "zn_backward (node h4 c) = (if c = x then if us = [] then None else Some (last us) else if vs \<noteq> [] \<and> c = hd vs then Some x else zn_backward (node h c))"
      using h4(3) h3(3) b same [of c] dist by auto
  qed
  moreover have "zsl_order h4 hdr (us @ x # vs)"
  proof (rule insert_order [OF old(2) _ _ _ _ k(3-5)])
    show "zn_ele (node h4 hdr) = None" using old(2) same [of hdr] sl by (simp add: zsl_order_def same_links_def)
    show "zn_ele (node h4 a) \<noteq> None" if "a \<in> set (us @ x # vs)" for a
      using that old(2) same [of a] sl k(2) by (auto simp: zsl_order_def same_links_def)
  qed (use f4(2) same k(1) in auto)
  ultimately show ?thesis using h3(1) h4(1) sl by blast
qed

lemma insert_exec:
  assumes path: "zsl_path h (before score ele) (zsl_level zsl) (zsl_header zsl) 0 = Some path"
    and rs: "zslRandomLevel rs = Some level"
    and lev': "lev' = max (zsl_level zsl) level"
    and update: "update = map (\<lambda>(u, r). (u, uint32 r)) path @ replicate (level - zsl_level zsl) (zsl_header zsl, 0)"
    and steps: "grow_levels zsl [zsl_level zsl..<lev'] h = Some h0" "nth_opt update 0 = Some (u0, r0)"
      "link_levels x update r0 [0..<level] (h0(x \<mapsto> zslCreateNode junk level score (Some ele))) = Some h1"
      "bump_levels update [level..<lev'] h1 = Some h2" "set_backward x (if u0 = zsl_header zsl then None else Some u0) h2 = Some h3"
      "get_level h3 x 0 = Some l" "zl_forward l = (if vs = [] then None else Some (hd vs))"
      "if vs = [] then h4 = h3 else set_backward (hd vs) (Some x) h3 = Some h4"
  shows "zslInsert rs x junk score ele zsl h =
    Some (h4, zsl\<lparr>zsl_level := lev', zsl_tail := (if vs = [] then Some x else zsl_tail zsl), zsl_length := zsl_length zsl + 1\<rparr>)"
proof -
  have grown: "(if level > zsl_level zsl then do {
          h \<leftarrow> grow_levels zsl [zsl_level zsl..<level] h;
          Some (h, map (\<lambda>(u, r). (u, uint32 r)) path @ replicate (level - zsl_level zsl) (zsl_header zsl, 0))
        } else Some (h, map (\<lambda>(u, r). (u, uint32 r)) path)) = Some (h0, update)"
    using steps(1) lev' update by (auto simp: max_def split: if_splits)
  have zsl: "(if level > zsl_level zsl then zsl\<lparr>zsl_level := level\<rparr> else zsl) = zsl\<lparr>zsl_level := lev'\<rparr>" using lev' by (simp add: max_def)
  show ?thesis unfolding zslInsert_def path rs bind.bind_lunit Let_def grown zsl prod.case
    using steps(2-) by (cases vs) simp_all
qed

text \<open>The steps up to the new links.\<close>

lemma insert_body:
  fixes h :: "'s::linorder zheap"
  assumes nodes: "zsl_nodes h (zsl_header zsl) (zsl_level zsl) (us @ vs)" and links: "zsl_links h (zsl_header zsl) (zsl_level zsl) (us @ vs)"
    and len: "zsl_length zsl = length (us @ vs)" and bound: "length us < 4294967296" and x: "h x = None"
    and level: "1 \<le> level" "level \<le> ZSKIPLIST_MAXLEVEL" and lev': "lev' = max (zsl_level zsl) level"
    and path: "length path = zsl_level zsl" "\<forall>i < zsl_level zsl. goes_down (ht h) (zsl_header zsl # us) i (path ! i)"
    and update: "update = map (\<lambda>(u, r). (u, uint32 r)) path @ replicate (level - zsl_level zsl) (zsl_header zsl, 0)"
    and n: "length (zn_level n) = level"
  shows "\<exists>h0 h1 h2. grow_levels zsl [zsl_level zsl..<lev'] h = Some h0 \<and> nth_opt update 0 = Some (last (zsl_header zsl # us), length us) \<and>
    link_levels x update (length us) [0..<level] (h0(x \<mapsto> n)) = Some h1 \<and> bump_levels update [level..<lev'] h1 = Some h2 \<and>
    zsl_nodes h2 (zsl_header zsl) lev' (us @ x # vs) \<and> zsl_links h2 (zsl_header zsl) lev' (us @ x # vs) \<and> same_shape (h(x \<mapsto> n)) h2"
proof -
  let ?hdr = "zsl_header zsl"
  have dom: "set (?hdr # us @ vs) \<subseteq> dom h" and hts: "\<forall>a \<in> set us. 1 \<le> ht h a" using nodes by (simp_all add: zsl_nodes_def)
  have l': "zsl_level zsl \<le> lev'" "lev' \<le> ZSKIPLIST_MAXLEVEL" "level \<le> lev'" using nodes level by (simp_all add: lev' zsl_nodes_def)
  have down: "\<forall>i < lev'. goes_down (ht h) (?hdr # us) i (update ! i)"
    using insert_update [OF nodes path bound] l'(2) by (auto simp: update lev')
  have lenu: "length update = lev'" using path(1) by (simp add: update lev')
  obtain h0 where h0: "grow_levels zsl [zsl_level zsl..<lev'] h = Some h0" "same_shape h h0" "zsl_nodes h0 ?hdr lev' (us @ vs)" "zsl_links h0 ?hdr lev' (us @ vs)"
    using grow_links [OF nodes links len l'(1,2)] by blast
  have x0: "h0 x = None" using x same_shape_at(1) [OF h0(2)] by simp
  have down0: "\<forall>i < lev'. goes_down (ht h0) (?hdr # us) i (update ! i)" using down goes_down_shape [OF h0(2)] dom by simp
  obtain h1 h2 where h2: "link_levels x update (length us) [0..<level] (h0(x \<mapsto> n)) = Some h1" "bump_levels update [level..<lev'] h1 = Some h2"
    "same_shape (h0(x \<mapsto> n)) h2" "zsl_nodes h2 ?hdr lev' (us @ x # vs)" "zsl_links h2 ?hdr lev' (us @ x # vs)"
    using insert_links [OF h0(3,4) x0 n level(1) l'(3) lenu down0] by blast
  have "goes_down (ht h) (?hdr # us) 0 (fst (update ! 0), snd (update ! 0))" using down l'(3) level(1) by simp
  from goes_down_bottom [OF this hts] have "nth_opt update 0 = Some (last (?hdr # us), length us)"
    using lenu l'(3) level(1) by (cases "update ! 0") (simp add: nth_opt_def)
  moreover have "same_shape (h(x \<mapsto> n)) h2" using h0(2) h2(3) by (simp add: same_shape_def)
  ultimately show ?thesis using h0(1) h2(1,2,4,5) by blast
qed

lemma zslInsert_rep:
  fixes h :: "'s::linorder zheap"
  assumes rep: "zsl_rep h zsl as" and x: "h x = None" and rs: "zslRandomLevel rs = Some level"
    and new: "ele \<notin> snd ` key h ` set as" and bound: "length as < 4294967296"
  shows "\<exists>h' zsl'. zslInsert rs x junk score ele zsl h = Some (h', zsl') \<and>
    zsl_rep h' zsl' (lower h (score, ele) as @ x # upper h (score, ele) as) \<and> zsl_header zsl' = zsl_header zsl \<and> dom h' = insert x (dom h) \<and>
    key h' x = (score, ele) \<and> (\<forall>a \<in> set as. key h' a = key h a)"
proof -
  define k where "k = (score, ele)"
  define us vs where "us = lower h k as" and "vs = upper h k as"
  note split = rep_split [OF rep, of k, folded us_def vs_def]
  let ?hdr = "zsl_header zsl" and ?n = "zslCreateNode junk level score (Some ele)"
  have rep': "zsl_rep h zsl (us @ vs)" using rep split(1) by simp
  have R: "zsl_nodes h ?hdr (zsl_level zsl) (us @ vs)" "zsl_links h ?hdr (zsl_level zsl) (us @ vs)" "zsl_top h (zsl_level zsl) (us @ vs)"
    "zsl_backs h ?hdr (us @ vs)" "zsl_order h ?hdr (us @ vs)" "zsl_length zsl = length (us @ vs)"
    "zsl_tail zsl = (if us @ vs = [] then None else Some (last (us @ vs)))" using rep' by (simp_all add: zsl_rep_def)
  obtain path where path: "zsl_path h (before score ele) (zsl_level zsl) ?hdr 0 = Some path" "length path = zsl_level zsl"
    "\<forall>i < zsl_level zsl. goes_down (ht h) (?hdr # us) i (path ! i)" using rep_path [OF rep' split(2)] by (auto simp: k_def)
  have level: "1 \<le> level" "level \<le> ZSKIPLIST_MAXLEVEL" using zslRandomLevel_bounds [OF rs] by simp_all
  have bu: "length us < 4294967296" using bound arg_cong [OF split(1), of length] by simp
  have n: "length (zn_level ?n) = level" by (simp add: zslCreateNode_def)
  obtain h0 h1 h2 where h2: "grow_levels zsl [zsl_level zsl..<max (zsl_level zsl) level] h = Some h0"
      "nth_opt (map (\<lambda>(u, r). (u, uint32 r)) path @ replicate (level - zsl_level zsl) (?hdr, 0)) 0 = Some (last (?hdr # us), length us)"
      "link_levels x (map (\<lambda>(u, r). (u, uint32 r)) path @ replicate (level - zsl_level zsl) (?hdr, 0)) (length us) [0..<level] (h0(x \<mapsto> ?n)) = Some h1"
      "bump_levels (map (\<lambda>(u, r). (u, uint32 r)) path @ replicate (level - zsl_level zsl) (?hdr, 0)) [level..<max (zsl_level zsl) level] h1 = Some h2"
      "zsl_nodes h2 ?hdr (max (zsl_level zsl) level) (us @ x # vs)" "zsl_links h2 ?hdr (max (zsl_level zsl) level) (us @ x # vs)" "same_shape (h(x \<mapsto> ?n)) h2"
    using insert_body [OF R(1,2,6) bu x level refl path(2,3) refl n] by blast
  have dom: "set (?hdr # us @ vs) \<subseteq> dom (h(x \<mapsto> ?n))" and xn: "x \<notin> set (?hdr # us @ vs)" using R(1) x by (auto simp: zsl_nodes_def)
  note s2 = same_shape_order_links [OF h2(7) dom]
  have same: "zn_ele (node h2 a) = zn_ele (node h a) \<and> key h2 a = key h a \<and> zn_backward (node h2 a) = zn_backward (node h a)"
    if "a \<in> set (?hdr # us @ vs)" for a using s2(1-3) [OF that] that xn by (auto simp: key_def)
  have kx: "key h2 x = k" "zn_ele (node h2 x) \<noteq> None" "ht h2 x = level"
    using same_shape_at(2,3,5) [OF h2(7), of x] n by (simp_all add: key_def k_def zslCreateNode_def)
  have e: "snd k \<notin> snd ` key h ` set (us @ vs)" using new split(1) by (simp add: k_def)
  have "key h a \<noteq> k" if "a \<in> set vs" for a using e that by (metis Un_iff image_eqI set_append)
  then have kk: "\<forall>a \<in> set us. key h a < k" "\<forall>a \<in> set vs. k < key h a"
    by (auto simp: us_def vs_def lower_def upper_def not_less order.order_iff_strict)
  from insert_finish [OF h2(5,6) R(4,5) same kx(1,2) kk e] obtain h3 h4 l where
    fin: "set_backward x (if last (?hdr # us) = ?hdr then None else Some (last (?hdr # us))) h2 = Some h3" "get_level h3 x 0 = Some l"
      "zl_forward l = (if vs = [] then None else Some (hd vs))" "if vs = [] then h4 = h3 else set_backward (hd vs) (Some x) h3 = Some h4"
      "same_links h2 h4" "zsl_backs h4 ?hdr (us @ x # vs)" "zsl_order h4 ?hdr (us @ x # vs)" by blast
  note run = insert_exec [OF path(1) rs refl refl h2(1-4) fin(1-4)]
  note f4 = same_links_fields [OF fin(5)]
  have "zsl_top h4 (max (zsl_level zsl) level) (us @ x # vs)"
  proof (cases "zsl_level zsl \<le> level")
    case True
    then show ?thesis using kx(3) by (simp add: zsl_top_def f4(1) max_def)
  next
    case False
    have "ht h2 a = ht h a" if "a \<in> set (us @ vs)" for a using s2(4) [of a] that xn by auto
    then have "zsl_top h2 (zsl_level zsl) (us @ vs)" using R(3) by (simp add: zsl_top_def)
    then show ?thesis using False by (auto simp: zsl_top_def f4(1) max_def)
  qed
  then have "zsl_rep h4 (zsl\<lparr>zsl_level := max (zsl_level zsl) level, zsl_tail := (if vs = [] then Some x else zsl_tail zsl), zsl_length := zsl_length zsl + 1\<rparr>) (us @ x # vs)"
    using fin(6,7) h2(5,6) f4(4,5) R(6,7) by (simp add: zsl_rep_def)
  moreover have "dom h4 = insert x (dom h)" using f4(8) same_shape_dom [OF h2(7)] by simp
  moreover have "key h4 x = k" "\<forall>a \<in> set as. key h4 a = key h a" using f4(2) kx(1) same split(1) by auto
  ultimately show ?thesis using run unfolding us_def vs_def k_def by auto
qed

end
