(* ===== verification/Skiplist_Delete.thy ===== *)
theory Skiplist_Delete
  imports Skiplist_Proof
begin

text \<open>
  Deletion from a skip list: of a node at a known place, and of the node with a given key.
\<close>

section \<open>Unlinking a node\<close>

lemma goes_down_in: "goes_down H us i (u, r) \<Longrightarrow> u \<in> set us"
  by (auto simp: goes_down_def)

lemma split_append:
  assumes "us @ vs = xs @ a # ys"
  obtains zs where "us = xs @ a # zs" "ys = zs @ vs" | zs where "vs = zs @ a # ys" "xs = us @ zs"
proof -
  consider ws where "us = xs @ ws" "ws @ vs = a # ys" | ws where "us @ ws = xs" "vs = ws @ a # ys"
    using assms by (auto simp: append_eq_append_conv2)
  then show thesis
  proof cases
    case (1 ws)
    then show thesis using that(1) that(2) [of "[]"] by (cases ws) auto
  next
    case (2 ws)
    then show thesis using that(2) [of ws] by simp
  qed
qed

lemma unlink_hop:
  assumes links: "zsl_links h hdr lev (us @ x # vs)" and dist: "distinct (hdr # us @ x # vs)"
    and down: "goes_down (ht h) (hdr # us) j (update ! j)" and j: "j < lev"
    and split: "hdr # us @ vs = xs @ a # ys" and a: "j < ht h a"
  shows "unlink_eff x update j (\<lambda>b. lv h b j) a = hop (ht h) j ys"
proof -
  obtain u r where u: "update ! j = (u, r)" by (cases "update ! j")
  have uin: "u \<in> set (hdr # us)" using goes_down_in down u by metis
  from split have "(hdr # us) @ vs = xs @ a # ys" by simp
  then show ?thesis
  proof (cases rule: split_append)
    case (1 zs)
    have old: "lv h a j = hop (ht h) j (zs @ x # vs)"
      using linksD [OF links, of xs a "zs @ x # vs" j] 1(1) a j by (metis append_Cons append_assoc)
    show ?thesis
    proof (cases "a = u")
      case True
      have "distinct (hdr # us)" using dist by simp
      from goes_down_at(1) [OF down [unfolded u] 1(1) [unfolded True] this] have low: "\<forall>y \<in> set zs. ht h y \<le> j" .
      show ?thesis
      proof (cases "j < ht h x")
        case x: True
        have "lv h x j = hop (ht h) j vs" using linksD [OF links, of "hdr # us" x vs j] x j by simp
        then show ?thesis using True u old hop_at [OF low x, of vs] hop_skip [OF low, of vs] 1(2) by (simp add: unlink_eff_def)
      next
        case x: False
        have "zl_forward (hop (ht h) j vs) \<noteq> Some x" using hop_forward [of "ht h" j vs x] dist by auto
        then show ?thesis using True u old hop_skip [OF low, of "x # vs"] hop_skip [OF low, of vs] x 1(2) by (simp add: unlink_eff_def)
      qed
    next
      case False
      obtain y where y: "y \<in> set zs" "j < ht h y" using goes_down_other [OF down [unfolded u] 1(1) a False] by blast
      then show ?thesis using False u old hop_inside [of y zs j "ht h"] 1(2) by (simp add: unlink_eff_def)
    qed
  next
    case (2 zs)
    have "lv h a j = hop (ht h) j ys" using linksD [OF links, of "hdr # us @ x # zs" a ys j] 2(1) a j by simp
    moreover have "a \<noteq> u" using uin 2(1) dist by auto
    ultimately show ?thesis using u by (simp add: unlink_eff_def)
  qed
qed

lemma unlink_links:
  assumes nodes: "zsl_nodes h hdr lev (us @ x # vs)" and links: "zsl_links h hdr lev (us @ x # vs)"
    and upd: "lev \<le> length update" "\<forall>i < lev. goes_down (ht h) (hdr # us) i (update ! i)"
  shows "\<exists>h'. unlink_levels x update [0..<lev] h = Some h' \<and> same_shape h h' \<and> zsl_nodes h' hdr lev (us @ vs) \<and> zsl_links h' hdr lev (us @ vs) \<and>
    lv h' x 0 = lv h x 0"
proof -
  have dist: "distinct (hdr # us @ x # vs)" and dom: "set (hdr # us @ x # vs) \<subseteq> dom h" and lev: "1 \<le> lev" using nodes by (simp_all add: zsl_nodes_def)
  have "unlink_ready x update h i" if i: "i < lev" for i
  proof -
    obtain u r where u: "update ! i = (u, r)" by (cases "update ! i")
    then obtain xu yu where s: "hdr # us = xu @ u # yu" "i < ht h u" "\<forall>y \<in> set yu. ht h y \<le> i"
      using upd(2) [rule_format, OF i] unfolding goes_down_def u fst_conv by blast
    have "(hdr # us) @ x # vs = xu @ u # (yu @ x # vs)" unfolding s(1) by simp
    then have lk: "lv h u i = hop (ht h) i (yu @ x # vs)" using linksD [OF links _ s(2) i] by simp
    have sp: "1 \<le> zl_span (lv h u i)" unfolding lk hop_skip [OF s(3)] by simp
    have fw: "zl_forward (lv h u i) = Some x \<longrightarrow> i < ht h x" using hop_forward [of "ht h" i "yu @ x # vs" x] unfolding lk by blast
    have "u \<in> set (hdr # us)" using s(1) by simp
    then have "h u \<noteq> None" "h x \<noteq> None" using dom by (auto simp: subset_iff)
    then show ?thesis using sp fw u s(2) upd(1) i by (simp add: unlink_ready_def update_ready_def domIff)
  qed
  then have "\<forall>i \<in> set [0..<lev]. unlink_ready x update h i" by simp
  from unlink.effect [OF distinct_upt this] obtain h' where h': "unlink_levels x update [0..<lev] h = Some h'" "same_shape h h'"
    "\<forall>a j. lv h' a j = (if j \<in> set [0..<lev] then unlink_eff x update j (\<lambda>b. lv h b j) a else lv h a j)" by blast
  have H: "ht h' a = ht h a" if "a \<in> set (hdr # us @ x # vs)" for a using same_shape_order_links(4) [OF h'(2) dom that] .
  have "zsl_nodes h' hdr lev (us @ vs)"
    unfolding zsl_nodes_def using nodes [unfolded zsl_nodes_def] H same_shape_dom [OF h'(2)] by simp
  moreover have "lv h' a i = hop (ht h') i ys" if s: "hdr # us @ vs = xs @ a # ys" "i < ht h' a" "i < lev" for xs a ys i
  proof -
    have "a \<in> set (hdr # us @ x # vs)" "set ys \<subseteq> set (hdr # us @ x # vs)" using arg_cong [OF s(1), of set] by auto
    then have "ht h' a = ht h a" "hop (ht h') i ys = hop (ht h) i ys" using H [of a] hop_cong [of ys "ht h'" "ht h" i] H by blast+
    then show ?thesis using unlink_hop [OF links dist upd(2) [rule_format, OF s(3)] s(3,1)] h'(3) s(2,3) by simp
  qed
  moreover have "zl_forward (lv h' hdr i) = None" if "lev \<le> i" "i < ZSKIPLIST_MAXLEVEL" for i
    using links that h'(3) by (simp add: zsl_links_lv)
  moreover have "lv h' x 0 = lv h x 0"
  proof -
    have "fst (update ! 0) \<in> set (hdr # us)" using goes_down_in [of "ht h" "hdr # us" 0 "fst (update ! 0)" "snd (update ! 0)"] upd(2) lev by simp
    then have "x \<noteq> fst (update ! 0)" using dist by auto
    then show ?thesis using h'(3) by (simp add: unlink_eff_def)
  qed
  ultimately show ?thesis using h'(1,2) unfolding zsl_links_lv by blast
qed

lemma trim_level_effect:
  assumes "1 \<le> lev" and "h hdr \<noteq> None" and "lev \<le> ht h hdr"
  shows "\<exists>l. trim_level h hdr lev = Some l \<and> 1 \<le> l \<and> l \<le> lev \<and> (l = 1 \<or> zl_forward (lv h hdr (l - 1)) \<noteq> None) \<and>
    (\<forall>i. l \<le> i \<longrightarrow> i < lev \<longrightarrow> zl_forward (lv h hdr i) = None)"
  using assms
proof (induction lev)
  case (Suc lev)
  have get: "get_level h hdr lev = Some (lv h hdr lev)" using get_level_lv [of h hdr lev] Suc.prems by simp
  show ?case
  proof (cases "lev > 0 \<and> zl_forward (lv h hdr lev) = None")
    case True
    then obtain l where "trim_level h hdr lev = Some l" "1 \<le> l" "l \<le> lev" "l = 1 \<or> zl_forward (lv h hdr (l - 1)) \<noteq> None"
      "\<forall>i. l \<le> i \<longrightarrow> i < lev \<longrightarrow> zl_forward (lv h hdr i) = None" using Suc by auto
    then show ?thesis using True get by (auto simp: less_Suc_eq)
  next
    case False
    then show ?thesis using get by auto
  qed
qed simp

lemma trim_links:
  assumes nodes: "zsl_nodes h hdr lev as" and links: "zsl_links h hdr lev as"
  shows "\<exists>l. trim_level h hdr lev = Some l \<and> l \<le> lev \<and> zsl_nodes h hdr l as \<and> zsl_links h hdr l as \<and> zsl_top h l as"
proof -
  have lev: "1 \<le> lev" "h hdr \<noteq> None" "lev \<le> ht h hdr" "lev \<le> ZSKIPLIST_MAXLEVEL" using nodes by (auto simp: zsl_nodes_def)
  obtain l where l: "trim_level h hdr lev = Some l" "1 \<le> l" "l \<le> lev" "l = 1 \<or> zl_forward (lv h hdr (l - 1)) \<noteq> None"
    "\<forall>i. l \<le> i \<longrightarrow> i < lev \<longrightarrow> zl_forward (lv h hdr i) = None" using trim_level_effect [OF lev(1-3)] by blast
  have fwd: "lv h hdr i = hop (ht h) i as" if "i < lev" for i using linksD [OF links, of "[]" hdr as i] lev that by simp
  have hts: "\<forall>a \<in> set as. ht h a \<le> l"
  proof (cases "l < lev")
    case True
    then have "zl_forward (hop (ht h) l as) = None" using l(5) fwd by simp
    then show ?thesis by (simp add: hop_None)
  next
    case False
    then show ?thesis using nodes l(3) by (simp add: zsl_nodes_def)
  qed
  have "zsl_nodes h hdr l as" using nodes hts l(2,3) by (auto simp: zsl_nodes_def)
  moreover have "zsl_links h hdr l as" using links l(3,5) unfolding zsl_links_lv by (meson le_less_linear less_le_trans)
  moreover have "zsl_top h l as"
  proof (cases "l = 1")
    case False
    then have "zl_forward (hop (ht h) (l - 1) as) \<noteq> None" using l(2-4) fwd [of "l - 1"] by simp
    then obtain a where "a \<in> set as" "l - 1 < ht h a" by (auto simp: hop_None not_le)
    then show ?thesis using hts l(2) unfolding zsl_top_def by (intro disjI2 bexI [of _ a]) (auto intro!: le_antisym)
  qed (simp add: zsl_top_def)
  ultimately show ?thesis using l(1,3) by blast
qed


lemma delete_backs:
  assumes backs: "zsl_backs h hdr (us @ x # vs)" and dist: "distinct (hdr # us @ x # vs)"
    and B: "\<And>b. b \<in> set (us @ vs) \<Longrightarrow> zn_backward (node h' b) =
      (if vs \<noteq> [] \<and> b = hd vs then if us = [] then None else Some (last us) else zn_backward (node h b))"
  shows "zsl_backs h' hdr (us @ vs)"
  unfolding zsl_backs_def
proof (intro allI impI)
  fix xs a b ys assume split: "hdr # us @ vs = xs @ a # b # ys"
  have b: "b \<in> set (us @ vs)" using split by (cases xs) auto
  have old: "hdr # us @ x # vs = xs' @ a' # b' # ys' \<Longrightarrow> zn_backward (node h b') = (if xs' = [] then None else Some a')" for xs' a' b' ys'
    using backs unfolding zsl_backs_def by blast
  from split have "(hdr # us) @ vs = (xs @ [a]) @ b # ys" by simp
  then show "zn_backward (node h' b) = (if xs = [] then None else Some a)"
  proof (cases rule: split_append)
    case (1 zs)
    then have "(hdr # us) @ x # vs = xs @ a # b # (zs @ x # vs)" by simp
    moreover have "b \<in> set us" using 1(1) by (cases xs) auto
    then have "\<not> (vs \<noteq> [] \<and> b = hd vs)" using dist by auto
    ultimately show ?thesis using B [OF b] old [of xs a b "zs @ x # vs"] by (simp only: append_Cons if_False)
  next
    case (2 zs)
    show ?thesis
    proof (cases zs rule: rev_cases)
      case Nil
      then have "xs @ [a] = hdr # us" "vs \<noteq> [] \<and> b = hd vs" using 2 by auto
      then show ?thesis using B [OF b] by (cases us rule: rev_cases) auto
    next
      case (snoc zs' c)
      then have c: "c = a" "xs = hdr # us @ zs'" using 2(2) by auto
      have "\<not> (vs \<noteq> [] \<and> b = hd vs)" using 2(1) snoc dist by (auto simp: hd_append split: if_splits)
      moreover have "hdr # us @ x # vs = (hdr # us @ x # zs') @ a # b # ys" using 2(1) snoc c by simp
      ultimately show ?thesis using B [OF b] old [of "hdr # us @ x # zs'" a b ys] c by simp
    qed
  qed
qed

lemma backs_at:
  assumes "zsl_backs h hdr (us @ x # vs)"
  shows "zn_backward (node h x) = (if us = [] then None else Some (last us))"
proof (cases us rule: rev_cases)
  case Nil
  then have "hdr # us @ x # vs = [] @ hdr # x # vs" by simp
  then show ?thesis using assms Nil unfolding zsl_backs_def by (metis (full_types))
next
  case (snoc ys y)
  then have "hdr # us @ x # vs = (hdr # ys) @ y # x # vs" by simp
  then have "zn_backward (node h x) = (if hdr # ys = [] then None else Some y)" using assms unfolding zsl_backs_def by blast
  then show ?thesis using snoc by simp
qed

lemma delete_order:
  assumes "zsl_order h hdr (us @ x # vs)" and "\<And>a. a \<in> set (hdr # us @ vs) \<Longrightarrow> zn_ele (node h' a) = zn_ele (node h a) \<and> key h' a = key h a"
  shows "zsl_order h' hdr (us @ vs)"
proof -
  have eq: "map (key h') (us @ vs) = map (key h) us @ map (key h) vs" using assms(2) by simp
  have e: "zn_ele (node h' hdr) = None" "\<forall>a \<in> set (us @ vs). zn_ele (node h' a) \<noteq> None"
    using assms(1) assms(2) [of hdr] assms(2) unfolding zsl_order_def by auto
  have "sorted_wrt (<) (map (key h) us @ map (key h) vs)" "distinct (map snd (map (key h) us @ map (key h) vs))"
    using assms(1) by (auto simp: zsl_order_def sorted_wrt_append comp_def)
  then show ?thesis using e unfolding zsl_order_def map_map [symmetric] eq by simp
qed

text \<open>Nodes keep their heights, elements and scores.\<close>

definition same_nodes :: "'s zheap \<Rightarrow> 's zheap \<Rightarrow> bool" where
  "same_nodes h h' \<longleftrightarrow> dom h' = dom h \<and> (\<forall>a \<in> dom h. zn_ele (node h' a) = zn_ele (node h a) \<and> key h' a = key h a \<and> ht h' a = ht h a)"

lemma zslDeleteNode_rep:
  assumes rep: "zsl_rep h zsl (us @ x # vs)" and upd: "zsl_level zsl \<le> length update"
      "\<forall>i < zsl_level zsl. goes_down (ht h) (zsl_header zsl # us) i (update ! i)"
  shows "\<exists>h' zsl'. zslDeleteNode x update zsl h = Some (h', zsl') \<and> zsl_rep h' zsl' (us @ vs) \<and> zsl_header zsl' = zsl_header zsl \<and>
    same_nodes h h' \<and> zsl_level zsl' \<le> zsl_level zsl"
proof -
  let ?hdr = "zsl_header zsl" and ?lev = "zsl_level zsl"
  have R: "zsl_nodes h ?hdr ?lev (us @ x # vs)" "zsl_links h ?hdr ?lev (us @ x # vs)" "zsl_backs h ?hdr (us @ x # vs)"
    "zsl_order h ?hdr (us @ x # vs)" "zsl_length zsl = length (us @ x # vs)" "zsl_tail zsl = Some (last (x # vs))" using rep by (simp_all add: zsl_rep_def)
  have dom: "set (?hdr # us @ x # vs) \<subseteq> dom h" and dist: "distinct (?hdr # us @ x # vs)" and hts: "\<forall>a \<in> set (us @ x # vs). 1 \<le> ht h a"
    and lev: "1 \<le> ?lev" using R(1) by (simp_all add: zsl_nodes_def)
  obtain h1 where h1: "unlink_levels x update [0..<?lev] h = Some h1" "same_shape h h1" "zsl_nodes h1 ?hdr ?lev (us @ vs)"
    "zsl_links h1 ?hdr ?lev (us @ vs)" "lv h1 x 0 = lv h x 0" using unlink_links [OF R(1,2) upd] by blast
  note s1 = same_shape_order_links [OF h1(2) dom]
  have "x \<in> dom h1" using dom same_shape_dom [OF h1(2)] by simp
  then have hx: "h1 x = Some (node h1 x)" by (auto simp: node_def)
  have fwd: "get_level h1 x 0 = Some (lv h x 0)" "zl_forward (lv h x 0) = (if vs = [] then None else Some (hd vs))"
  proof -
    have "0 < ht h1 x" using s1(4) [of x] hts by (metis UnCI less_le_trans list.set_intros set_append zero_less_one)
    then show "get_level h1 x 0 = Some (lv h x 0)" using get_level_lv [of h1 x 0] hx h1(5) by simp
    have "lv h x 0 = hop (ht h) 0 vs" using linksD [OF R(2), of "?hdr # us" x vs 0] hts lev by simp
    then show "zl_forward (lv h x 0) = (if vs = [] then None else Some (hd vs))" using hts by (cases vs) auto
  qed
  have bk: "zn_backward (node h1 x) = (if us = [] then None else Some (last us))" using backs_at [OF R(3)] s1(3) by simp
  let ?b = "zn_backward (node h1 x)"
  obtain h2 where h2: "if vs = [] then h2 = h1 else set_backward (hd vs) ?b h1 = Some h2" "same_links h1 h2"
    "\<forall>c. zn_backward (node h2 c) = (if vs \<noteq> [] \<and> c = hd vs then ?b else zn_backward (node h1 c))"
    using set_backward_effect [of "hd vs" h1 ?b] dom same_shape_dom [OF h1(2)] same_links_refl by (cases vs) auto
  note f2 = same_links_fields [OF h2(2)]
  obtain l where l: "trim_level h2 ?hdr ?lev = Some l" "l \<le> ?lev" "zsl_nodes h2 ?hdr l (us @ vs)" "zsl_links h2 ?hdr l (us @ vs)" "zsl_top h2 l (us @ vs)"
    using trim_links [of h2 ?hdr ?lev "us @ vs"] h1(3,4) f2(4,5) by auto
  let ?zsl = "zsl\<lparr>zsl_tail := (if vs = [] then ?b else zsl_tail zsl), zsl_level := l, zsl_length := length (us @ vs)\<rparr>"
  have run: "zslDeleteNode x update zsl h = Some (h2, ?zsl)"
    using h1(1) hx fwd h2(1) l(1) R(5) by (cases vs) (simp_all add: zslDeleteNode_def usub_def)
  have "zsl_backs h2 ?hdr (us @ vs)"
  proof (rule delete_backs [OF R(3) dist])
    fix c assume "c \<in> set (us @ vs)"
    then show "zn_backward (node h2 c) = (if vs \<noteq> [] \<and> c = hd vs then if us = [] then None else Some (last us) else zn_backward (node h c))"
      using h2(3) bk s1(3) [of c] by auto
  qed
  moreover have "zsl_order h2 ?hdr (us @ vs)"
    by (rule delete_order [OF R(4)]) (use s1(1,2) f2(2) h2(2) in \<open>auto simp: same_links_def\<close>)
  ultimately have "zsl_rep h2 ?zsl (us @ vs)" using l(3-5) R(6) bk by (auto simp: zsl_rep_def)
  moreover have "same_nodes h h2" unfolding same_nodes_def
    using f2 same_shape_dom [OF h1(2)] same_shape_at [OF h1(2)] h2(2) by (auto simp: same_links_def key_def domIff)
  ultimately show ?thesis using run l(2) by auto
qed


section \<open>Deletion by key\<close>

lemma rep_cong:
  assumes "\<forall>a \<in> set (zsl_header zsl # as). h' a = h a" and "zsl_rep h zsl as"
  shows "zsl_rep h' zsl as"
proof -
  let ?hdr = "zsl_header zsl"
  have N: "node h' a = node h a" "ht h' a = ht h a" "key h' a = key h a" "lv h' a i = lv h a i" if "a \<in> set (?hdr # as)" for a i
    using assms(1) [rule_format, OF that] by (simp_all add: node_def ht_def key_def lv_def)
  have R: "zsl_nodes h ?hdr (zsl_level zsl) as" "zsl_links h ?hdr (zsl_level zsl) as" "zsl_top h (zsl_level zsl) as" "zsl_backs h ?hdr as"
    "zsl_order h ?hdr as" using assms(2) by (simp_all add: zsl_rep_def)
  have "set (?hdr # as) \<subseteq> dom h'" using R(1) assms(1) by (auto simp: zsl_nodes_def dom_def subset_iff)
  then have "zsl_nodes h' ?hdr (zsl_level zsl) as" "zsl_top h' (zsl_level zsl) as" using R(1,3) N(2) by (simp_all add: zsl_nodes_def zsl_top_def)
  moreover have "zsl_links h' ?hdr (zsl_level zsl) as" unfolding zsl_links_lv
  proof (intro conjI allI impI)
    fix xs a ys i assume s: "?hdr # as = xs @ a # ys" "i < ht h' a" "i < zsl_level zsl"
    have sub: "a \<in> set (?hdr # as)" "set ys \<subseteq> set (?hdr # as)" using arg_cong [OF s(1), of set] by auto
    then have "hop (ht h') i ys = hop (ht h) i ys" using N(2) by (intro hop_cong) blast
    then show "lv h' a i = hop (ht h') i ys" using linksD [OF R(2) s(1)] s(2,3) N [OF sub(1)] by simp
  qed (use R(2) N(4) [of ?hdr] in \<open>simp add: zsl_links_lv\<close>)
  moreover have "zsl_backs h' ?hdr as" unfolding zsl_backs_def
  proof (intro allI impI)
    fix xs a b ys assume s: "?hdr # as = xs @ a # b # ys"
    have "b \<in> set (?hdr # as)" using arg_cong [OF s, of set] by auto
    then show "zn_backward (node h' b) = (if xs = [] then None else Some a)" using R(4) s N(1) unfolding zsl_backs_def by metis
  qed
  moreover have eqs: "map (key h') as = map (key h) as" "map (snd \<circ> key h') as = map (snd \<circ> key h) as" using N(3) by simp_all
  have "zsl_order h' ?hdr as" using R(5) N(1) unfolding zsl_order_def eqs by simp
  ultimately show ?thesis using assms(2) by (simp add: zsl_rep_def)
qed

text \<open>The result of a search: the path, the node before the position and the node at it.\<close>

lemma rep_seek:
  assumes rep: "zsl_rep h zsl (us @ vs)" and "fits h ahead us vs"
  obtains path l where "zsl_path h ahead (zsl_level zsl) (zsl_header zsl) 0 = Some path" "length path = zsl_level zsl"
    "\<forall>i < zsl_level zsl. goes_down (ht h) (zsl_header zsl # us) i (path ! i)"
    "nth_opt path 0 = Some (last (zsl_header zsl # us), length us)"
    "get_level h (last (zsl_header zsl # us)) 0 = Some l" "zl_forward l = (if vs = [] then None else Some (hd vs))"
proof -
  let ?hdr = "zsl_header zsl"
  have R: "zsl_nodes h ?hdr (zsl_level zsl) (us @ vs)" "zsl_links h ?hdr (zsl_level zsl) (us @ vs)" using rep by (simp_all add: zsl_rep_def)
  then have lev: "1 \<le> zsl_level zsl" and hts: "\<forall>a \<in> set us. 1 \<le> ht h a" "\<forall>a \<in> set vs. 1 \<le> ht h a"
    and hh: "1 \<le> ht h ?hdr" by (auto simp: zsl_nodes_def ZSKIPLIST_MAXLEVEL_def)
  obtain path where path: "zsl_path h ahead (zsl_level zsl) ?hdr 0 = Some path" "length path = zsl_level zsl"
    "\<forall>i < zsl_level zsl. goes_down (ht h) (?hdr # us) i (path ! i)" using rep_path [OF assms] by blast
  have "goes_down (ht h) (?hdr # us) 0 (fst (path ! 0), snd (path ! 0))" using path(3) lev by simp
  from goes_down_bottom [OF this hts(1)] have "nth_opt path 0 = Some (last (?hdr # us), length us)"
    using path(2) lev by (cases "path ! 0") (simp add: nth_opt_def)
  moreover have "?hdr # us = butlast (?hdr # us) @ [last (?hdr # us)]" by (rule append_butlast_last_id [symmetric]) simp
  then have "?hdr # us @ vs = butlast (?hdr # us) @ last (?hdr # us) # vs" by (metis append.assoc append_Cons append_Nil)
  moreover have "0 < ht h (last (?hdr # us))" using hts(1) hh by (cases us rule: rev_cases) auto
  ultimately have "get_level h (last (?hdr # us)) 0 = Some (hop (ht h) 0 vs)" using get_level_link [OF R] lev by simp
  moreover have "zl_forward (hop (ht h) 0 vs) = (if vs = [] then None else Some (hd vs))" using hts(2) by (cases vs) auto
  ultimately show thesis using that path \<open>nth_opt path 0 = _\<close> by blast
qed

lemma key_inj: "zsl_rep h zsl as \<Longrightarrow> a \<in> set as \<Longrightarrow> b \<in> set as \<Longrightarrow> snd (key h a) = snd (key h b) \<Longrightarrow> a = b"
  unfolding zsl_rep_def zsl_order_def by (auto simp: distinct_map inj_on_def)

lemma upper_at:
  assumes rep: "zsl_rep h zsl as" and x: "x \<in> set as" "key h x = k"
  obtains vs where "upper h k as = x # vs" "filter (\<lambda>a. a \<noteq> x) as = lower h k as @ vs" "lower h k as @ x # vs = as"
proof -
  have order: "sorted_wrt (<) (map (key h) as)" and dist: "distinct as" using rep by (auto simp: zsl_rep_def zsl_order_def zsl_nodes_def)
  note split = lower_upper [OF order, of k]
  have "x \<in> set (upper h k as)" using x by (simp add: upper_def)
  then obtain y vs where u: "upper h k as = y # vs" by (cases "upper h k as") auto
  have "sorted_wrt (<) (map (key h) (y # vs))" using order split u by (metis map_append sorted_wrt_append)
  moreover have "\<not> key h y < k" using u by (metis (no_types, lifting) filter_eq_ConsD upper_def)
  ultimately have "y = x" using \<open>x \<in> set (upper h k as)\<close> u x(2) by auto
  then have "lower h k as @ x # vs = as" using split u by simp
  moreover from this have "x \<notin> set (lower h k as)" "x \<notin> set vs" using dist by (metis distinct_append distinct.simps(2) disjoint_iff list.set_intros(1))+
  then have "filter (\<lambda>a. a \<noteq> x) (lower h k as) = lower h k as" "filter (\<lambda>a. a \<noteq> x) vs = vs" by (auto simp: filter_id_conv)
  then have "filter (\<lambda>a. a \<noteq> x) (lower h k as @ x # vs) = lower h k as @ vs" by simp
  ultimately show thesis using that u \<open>y = x\<close> by simp
qed

lemma zslDelete_found:
  assumes rep: "zsl_rep h zsl as" and x: "x \<in> set as" "key h x = (score, ele)"
  shows "\<exists>h' zsl'. zslDelete keep score ele zsl h = Some (h', zsl', Some x) \<and> zsl_rep h' zsl' (filter (\<lambda>a. a \<noteq> x) as) \<and>
    zsl_header zsl' = zsl_header zsl \<and> dom h' = (if keep then dom h else dom h - {x}) \<and> (\<forall>a \<in> set as - {x}. key h' a = key h a)"
proof -
  obtain vs where v: "upper h (score, ele) as = x # vs" "filter (\<lambda>a. a \<noteq> x) as = lower h (score, ele) as @ vs" "lower h (score, ele) as @ x # vs = as"
    using upper_at [OF rep x] .
  define us where "us = lower h (score, ele) as"
  have rep': "zsl_rep h zsl (us @ x # vs)" using rep v(3) by (simp add: us_def)
  have fit: "fits h (before score ele) us (x # vs)" using rep_split(2) [OF rep, of "(score, ele)"] v(1) by (simp add: us_def)
  obtain path l where path: "zsl_path h (before score ele) (zsl_level zsl) (zsl_header zsl) 0 = Some path" "length path = zsl_level zsl"
    "\<forall>i < zsl_level zsl. goes_down (ht h) (zsl_header zsl # us) i (path ! i)" "nth_opt path 0 = Some (last (zsl_header zsl # us), length us)"
    "get_level h (last (zsl_header zsl # us)) 0 = Some l" "zl_forward l = Some x" using rep_seek [OF rep' fit] by (metis list.sel(1) list.distinct(1))
  have "zsl_level zsl \<le> length path" using path(2) by simp
  from zslDeleteNode_rep [OF rep' this path(3)] obtain h' zsl' where d: "zslDeleteNode x path zsl h = Some (h', zsl')" "zsl_rep h' zsl' (us @ vs)"
    "zsl_header zsl' = zsl_header zsl" "same_nodes h h'" by blast
  have nodes: "zsl_nodes h (zsl_header zsl) (zsl_level zsl) (us @ x # vs)" "zsl_order h (zsl_header zsl) (us @ x # vs)" using rep' by (simp_all add: zsl_rep_def)
  have hx: "h x = Some (node h x)" using in_heap [OF nodes(1), of x] by simp
  have e: "zn_score (node h x) = score" "zn_ele (node h x) = Some ele" using x(2) nodes(2) by (auto simp: key_def zsl_order_def)
  have found: "(if zn_score (node h x) = score then do { e \<leftarrow> zn_ele (node h x); Some (text_cmp e ele = 0) } else Some False) = Some True"
    using e by (simp add: text_cmp_eq)
  define h'' where "h'' = (if keep then h' else h'(x := None))"
  have xd: "x \<in> dom h'" using d(4) hx by (auto simp: same_nodes_def)
  have run: "zslDelete keep score ele zsl h = Some (h'', zsl', Some x)"
    unfolding zslDelete_def using path d(1) hx found xd by (auto simp: h''_def zslFreeNode_def)
  have xn: "x \<notin> set (zsl_header zsl # us @ vs)" using nodes(1) by (auto simp: zsl_nodes_def)
  have "zsl_rep h'' zsl' (us @ vs)" by (rule rep_cong [OF _ d(2)]) (use xn d(3) in \<open>auto simp: h''_def\<close>)
  moreover have "key h'' a = key h a" if "a \<in> set as - {x}" for a
  proof -
    have "a \<in> dom h" using that rep by (auto simp: zsl_rep_def zsl_nodes_def)
    then show ?thesis using that d(4) by (auto simp: h''_def same_nodes_def key_def node_def)
  qed
  moreover have "dom h'' = (if keep then dom h else dom h - {x})" using d(4) by (auto simp: h''_def same_nodes_def)
  ultimately show ?thesis using run d(3) v(2) us_def by auto
qed

end
