(* ===== verification/Zset_Proof.thy ===== *)
theory Zset_Proof
  imports Skiplist_Delete
begin

text \<open>
  Sorted sets: the dictionary and the skip list together represent a map from elements to scores, and the operations
  implement operations on this map.
\<close>

section \<open>Keys that are not there, and new scores\<close>

lemma zslDelete_absent:
  assumes rep: "zsl_rep h zsl as" and x: "(score, ele) \<notin> key h ` set as"
  shows "zslDelete keep score ele zsl h = Some (h, zsl, None)"
proof -
  let ?k = "(score, ele)"
  define us vs where "us = lower h ?k as" and "vs = upper h ?k as"
  note split = rep_split [OF rep, of ?k, folded us_def vs_def]
  have rep': "zsl_rep h zsl (us @ vs)" using rep split(1) by simp
  have fit: "fits h (before score ele) us vs" using split(2) by simp
  obtain path l where path: "zsl_path h (before score ele) (zsl_level zsl) (zsl_header zsl) 0 = Some path"
    "nth_opt path 0 = Some (last (zsl_header zsl # us), length us)" "get_level h (last (zsl_header zsl # us)) 0 = Some l"
    "zl_forward l = (if vs = [] then None else Some (hd vs))" by (rule rep_seek [OF rep' fit])
  show ?thesis
  proof (cases vs)
    case Nil
    show ?thesis unfolding zslDelete_def path(1) bind.bind_lunit path(2) path(3) prod.case path(4) by (simp add: Nil)
  next
    case (Cons v ws)
    have v: "v \<in> set as" using Cons split(1) by auto
    have nodes: "zsl_nodes h (zsl_header zsl) (zsl_level zsl) as" "zsl_order h (zsl_header zsl) as" using rep by (simp_all add: zsl_rep_def)
    have hv: "h v = Some (node h v)" using in_heap [OF nodes(1), of v] v by simp
    obtain e where e: "zn_ele (node h v) = Some e" using nodes(2) v by (auto simp: zsl_order_def)
    have "key h v \<noteq> ?k" using x v by (metis image_eqI)
    then have "(if zn_score (node h v) = score then do { e \<leftarrow> zn_ele (node h v); Some (text_cmp e ele = 0) } else Some False) = Some False"
      using e by (auto simp: key_def text_cmp_eq)
    then show ?thesis unfolding zslDelete_def path(1) bind.bind_lunit path(2) path(3) prod.case path(4) using hv by (simp add: Cons)
  qed
qed

text \<open>A changed score that leaves the node in its place.\<close>

lemma score_in_place:
  assumes rep: "zsl_rep h zsl (us @ x # vs)" and n: "h x = Some n" and e: "zn_ele n = Some ele"
    and left: "us \<noteq> [] \<Longrightarrow> zn_score (node h (last us)) < newscore" and right: "vs \<noteq> [] \<Longrightarrow> newscore < zn_score (node h (hd vs))"
  shows "zsl_rep (h(x \<mapsto> n\<lparr>zn_score := newscore\<rparr>)) zsl (us @ x # vs)"
proof -
  let ?h = "h(x \<mapsto> n\<lparr>zn_score := newscore\<rparr>)" and ?hdr = "zsl_header zsl"
  have nx: "node h x = n" using n by (simp add: node_def)
  have R: "zsl_nodes h ?hdr (zsl_level zsl) (us @ x # vs)" "zsl_order h ?hdr (us @ x # vs)" using rep by (simp_all add: zsl_rep_def)
  have H: "ht ?h = ht h" "lv ?h = lv h" using nx by (auto simp: fun_eq_iff ht_def lv_def node_def)
  have F: "zn_ele (node ?h a) = zn_ele (node h a)" "zn_backward (node ?h a) = zn_backward (node h a)" for a using nx by auto
  have D: "dom ?h = dom h" using n by auto
  have dist: "x \<notin> set us" "x \<notin> set vs" "x \<noteq> ?hdr" using R(1) by (auto simp: zsl_nodes_def)
  have K: "key ?h x = (newscore, ele)" "\<And>a. a \<noteq> x \<Longrightarrow> key ?h a = key h a" using e by (simp_all add: key_def)
  have order: "sorted_wrt (<) (map (key h) us)" "sorted_wrt (<) (map (key h) vs)" "\<forall>u \<in> set us. \<forall>v \<in> set vs. key h u < key h v"
    using R(2) by (auto simp: zsl_order_def sorted_wrt_append)
  have "key h u < (newscore, ele)" if u: "u \<in> set us" for u
  proof -
    obtain us' z where us: "us = us' @ [z]" using u by (cases us rule: rev_cases) auto
    have "key h u \<le> key h z" using order(1) u us by (auto simp: sorted_wrt_append less_imp_le)
    moreover have "key h z < (newscore, ele)" using left us by (simp add: key_def)
    ultimately show ?thesis by (rule le_less_trans)
  qed
  moreover have "(newscore, ele) < key h v" if v: "v \<in> set vs" for v
  proof -
    obtain z vs' where vs: "vs = z # vs'" using v by (cases vs) auto
    have "key h z \<le> key h v" using order(2) v vs by (auto simp: less_imp_le)
    moreover have "(newscore, ele) < key h z" using right vs by (simp add: key_def)
    ultimately show ?thesis by (rule less_le_trans [rotated])
  qed
  ultimately have "sorted_wrt (<) (map (key h) us @ (newscore, ele) # map (key h) vs)" using order by (auto simp: sorted_wrt_append)
  moreover have M: "map (key ?h) ws = map (key h) ws" if ws: "x \<notin> set ws" for ws
    by (rule map_cong [OF refl], rule K(2)) (use ws in blast)
  have eq1: "map (key ?h) (us @ x # vs) = map (key h) us @ (newscore, ele) # map (key h) vs" using K(1) M [OF dist(1)] M [OF dist(2)] by (simp del: map_eq_conv)
  have "snd (key ?h a) = snd (key h a)" for a using F(1) by (simp add: key_def)
  then have eq: "map (snd \<circ> key ?h) (us @ x # vs) = map (snd \<circ> key h) (us @ x # vs)" by simp
  ultimately have "zsl_order ?h ?hdr (us @ x # vs)" using R(2) F(1) unfolding zsl_order_def eq eq1 by simp
  moreover have "zsl_nodes ?h ?hdr (zsl_level zsl) (us @ x # vs) = zsl_nodes h ?hdr (zsl_level zsl) (us @ x # vs)"
    "zsl_links ?h ?hdr (zsl_level zsl) (us @ x # vs) = zsl_links h ?hdr (zsl_level zsl) (us @ x # vs)"
    "zsl_top ?h (zsl_level zsl) (us @ x # vs) = zsl_top h (zsl_level zsl) (us @ x # vs)"
    "zsl_backs ?h ?hdr (us @ x # vs) = zsl_backs h ?hdr (us @ x # vs)"
    unfolding zsl_nodes_def zsl_links_lv zsl_top_def zsl_backs_def H D F(2) by (rule refl)+
  ultimately show ?thesis using rep unfolding zsl_rep_def by blast
qed

lemma bottom_link:
  assumes "zsl_rep h zsl (us @ x # vs)"
  obtains l where "get_level h x 0 = Some l" "zl_forward l = (if vs = [] then None else Some (hd vs))"
proof -
  have R: "zsl_nodes h (zsl_header zsl) (zsl_level zsl) (us @ x # vs)" "zsl_links h (zsl_header zsl) (zsl_level zsl) (us @ x # vs)"
    using assms by (simp_all add: zsl_rep_def)
  have "zsl_header zsl # us @ x # vs = (zsl_header zsl # us) @ x # vs" by simp
  moreover have "0 < ht h x" "0 < zsl_level zsl" "\<forall>v \<in> set vs. 0 < ht h v"
    using R(1) by (auto simp: zsl_nodes_def ball_Un Suc_le_eq)
  ultimately have "get_level h x 0 = Some (hop (ht h) 0 vs)" "zl_forward (hop (ht h) 0 vs) = (if vs = [] then None else Some (hd vs))"
    using get_level_link [OF R] by (simp, cases vs, simp_all)
  then show thesis by (rule that)
qed

lemma rep_at:
  assumes "zsl_rep h zsl as" and "a \<in> set as"
  shows "h a = Some (node h a)" and "zn_ele (node h a) = Some (snd (key h a))" and "zn_score (node h a) = fst (key h a)"
  using in_heap [of h "zsl_header zsl" "zsl_level zsl" as a] assms by (auto simp: zsl_rep_def zsl_order_def key_def)

lemma seek_key:
  assumes rep: "zsl_rep h zsl as" and x: "x \<in> set as" "key h x = (score, ele)"
  obtains us vs path l where "as = us @ x # vs"
    "zsl_path h (before score ele) (zsl_level zsl) (zsl_header zsl) 0 = Some path" "length path = zsl_level zsl"
    "\<forall>i < zsl_level zsl. goes_down (ht h) (zsl_header zsl # us) i (path ! i)"
    "nth_opt path 0 = Some (last (zsl_header zsl # us), length us)"
    "get_level h (last (zsl_header zsl # us)) 0 = Some l" "zl_forward l = Some x"
proof -
  obtain vs where v: "upper h (score, ele) as = x # vs" "lower h (score, ele) as @ x # vs = as" using upper_at [OF rep x] .
  define us where "us = lower h (score, ele) as"
  have rep': "zsl_rep h zsl (us @ x # vs)" using rep v(2) by (simp add: us_def)
  have fit: "fits h (before score ele) us (x # vs)" using rep_split(2) [OF rep, of "(score, ele)"] v(1) by (simp add: us_def)
  show thesis
  proof (rule rep_seek [OF rep' fit], goal_cases)
    case (1 path l)
    show ?case using that [of us vs path l] 1 v(2) by (simp add: us_def)
  qed
qed

lemma key_free: "a \<noteq> x \<Longrightarrow> key (h(x := None)) a = key h a"
  by (simp add: key_def node_def)

lemma zslUpdateScore_moved:
  assumes rep: "zsl_rep h zsl (us @ x # vs)" and x: "key h x = (curscore, ele)" and y: "h y = None" and rs: "zslRandomLevel rs = Some level"
    and bound: "length (us @ x # vs) < 4294967296" and upd: "length path = zsl_level zsl" "\<forall>i < zsl_level zsl. goes_down (ht h) (zsl_header zsl # us) i (path ! i)"
  obtains h' zsl' bs where
    "do { (h, zsl) \<leftarrow> zslDeleteNode x path zsl h; (h, zsl) \<leftarrow> zslInsert rs y junk newscore ele zsl h; h \<leftarrow> zslFreeNode x h; Some (h, zsl, y) } = Some (h', zsl', y)"
    "zsl_rep h' zsl' bs" "zsl_header zsl' = zsl_header zsl" "set bs = insert y (set (us @ vs))" "dom h' = insert y (dom h - {x})"
    "key h' y = (newscore, ele)" "\<forall>a \<in> set (us @ vs). key h' a = key h a"
proof -
  have lp: "zsl_level zsl \<le> length path" using upd(1) by simp
  from zslDeleteNode_rep [OF rep lp upd(2)] obtain h1 zsl1 where d: "zslDeleteNode x path zsl h = Some (h1, zsl1)" "zsl_rep h1 zsl1 (us @ vs)"
    "zsl_header zsl1 = zsl_header zsl" "same_nodes h h1" by blast
  have dom1: "dom h1 = dom h" and key1: "\<And>a. a \<in> dom h \<Longrightarrow> key h1 a = key h a" using d(4) by (simp_all add: same_nodes_def)
  have nodes: "zsl_nodes h (zsl_header zsl) (zsl_level zsl) (us @ x # vs)" using rep by (simp add: zsl_rep_def)
  have dom: "set (zsl_header zsl # us @ x # vs) \<subseteq> dom h" and dist: "x \<notin> set (zsl_header zsl # us @ vs)" using nodes by (auto simp: zsl_nodes_def)
  have "ele \<notin> snd ` key h ` set (us @ vs)"
  proof
    assume "ele \<in> snd ` key h ` set (us @ vs)"
    then obtain a where a: "a \<in> set (us @ vs)" "snd (key h a) = ele" by blast
    then have "a = x" using key_inj [OF rep, of a x] x by simp
    then show False using a(1) dist by simp
  qed
  moreover have "key h1 ` set (us @ vs) = key h ` set (us @ vs)" using key1 dom by (intro image_cong [OF refl]) (auto simp: subset_iff)
  ultimately have new: "ele \<notin> snd ` key h1 ` set (us @ vs)" by simp
  have y1: "h1 y = None" using y dom1 by (metis domIff)
  have len: "length (us @ vs) < 4294967296" using bound by simp
  from zslInsert_rep [OF d(2) y1 rs new len, of junk newscore] obtain h2 zsl2 bs where
    i: "zslInsert rs y junk newscore ele zsl1 h1 = Some (h2, zsl2)" "zsl_rep h2 zsl2 bs" "zsl_header zsl2 = zsl_header zsl1" "dom h2 = insert y (dom h1)"
      "key h2 y = (newscore, ele)" "\<forall>a \<in> set (us @ vs). key h2 a = key h1 a" and bs: "set bs = insert y (set (us @ vs))"
    using rep_split(1) [OF d(2), of "(newscore, ele)"] by (metis list.simps(15) set_append Un_insert_right)
  have ne: "y \<noteq> x" "y \<noteq> zsl_header zsl" using y dom by auto
  have free: "zslFreeNode x h2 = Some (h2(x := None))" using dom1 dom i(4) by (auto simp: zslFreeNode_def)
  show thesis
  proof (rule that)
    show "zsl_rep (h2(x := None)) zsl2 bs" by (rule rep_cong [OF _ i(2)]) (use bs dist ne i(3) d(3) in auto)
    show "dom (h2(x := None)) = insert y (dom h - {x})" using i(4) ne d(4) by (auto simp: same_nodes_def)
    show "\<forall>a \<in> set (us @ vs). key (h2(x := None)) a = key h a" 
    proof
      fix a
      assume a: "a \<in> set (us @ vs)"
      then have "a \<noteq> x" "a \<in> dom h" using dist dom by auto
      then show "key (h2(x := None)) a = key h a" using a i(6) key1 by (simp add: key_free)
    qed
    show "key (h2(x := None)) y = (newscore, ele)" using i(5) ne by (simp add: key_free)
  qed (use d(1,3) i(1,3) free bs in simp_all)
qed

lemma zslUpdateScore_rep:
  assumes rep: "zsl_rep h zsl as" and x: "x \<in> set as" "key h x = (curscore, ele)" and y: "h y = None" and rs: "zslRandomLevel rs = Some level"
    and bound: "length as < 4294967296"
  obtains h' zsl' z bs where "zslUpdateScore rs y junk curscore ele newscore zsl h = Some (h', zsl', z)"
    "zsl_rep h' zsl' bs" "zsl_header zsl' = zsl_header zsl" "z = x \<or> z = y" "set bs = insert z (set as - {x})" "dom h' = insert z (dom h - {x})"
    "key h' z = (newscore, ele)" "\<forall>a \<in> set as - {x}. key h' a = key h a"
proof -
  obtain us vs path l where p: "as = us @ x # vs" "zsl_path h (before curscore ele) (zsl_level zsl) (zsl_header zsl) 0 = Some path"
    "length path = zsl_level zsl" "\<forall>i < zsl_level zsl. goes_down (ht h) (zsl_header zsl # us) i (path ! i)"
    "nth_opt path 0 = Some (last (zsl_header zsl # us), length us)" "get_level h (last (zsl_header zsl # us)) 0 = Some l" "zl_forward l = Some x"
    by (rule seek_key [OF rep x])
  note rep' = rep [unfolded p(1)]
  obtain k where k: "get_level h x 0 = Some k" "zl_forward k = (if vs = [] then None else Some (hd vs))" by (rule bottom_link [OF rep'])
  define n where "n = node h x"
  have n: "h x = Some n" "zn_ele n = Some ele" "zn_score n = curscore" using rep_at [OF rep x(1)] x(2) by (simp_all add: n_def)
  have b: "zn_backward n = (if us = [] then None else Some (last us))" using rep' backs_at [of h "zsl_header zsl" us x vs] by (simp add: n_def zsl_rep_def)
  define left where "left \<longleftrightarrow> us = [] \<or> zn_score (node h (last us)) < newscore"
  define right where "right \<longleftrightarrow> vs = [] \<or> newscore < zn_score (node h (hd vs))"
  have L: "(case zn_backward n of None \<Rightarrow> Some True | Some b \<Rightarrow> do { m \<leftarrow> h b; Some (zn_score m < newscore) }) = Some left"
    using rep_at(1) [OF rep', of "last us"] unfolding b left_def by simp
  have R: "(case zl_forward k of None \<Rightarrow> Some True | Some f \<Rightarrow> do { m \<leftarrow> h f; Some (zn_score m > newscore) }) = Some right"
    using rep_at(1) [OF rep', of "hd vs"] unfolding k(2) right_def by simp
  have run: "zslUpdateScore rs y junk curscore ele newscore zsl h = (if left \<and> right then Some (h(x \<mapsto> n\<lparr>zn_score := newscore\<rparr>), zsl, x)
      else do { (h, zsl) \<leftarrow> zslDeleteNode x path zsl h; (h, zsl) \<leftarrow> zslInsert rs y junk newscore ele zsl h; h \<leftarrow> zslFreeNode x h; Some (h, zsl, y) })"
    unfolding zslUpdateScore_def p(2) bind.bind_lunit p(5) prod.case p(6) p(7) n k(1) L R by (simp add: text_cmp_eq)
  have split: "set as - {x} = set (us @ vs)" using rep' p(1) by (auto simp: zsl_rep_def zsl_nodes_def)
  show thesis
  proof (cases "left \<and> right")
    case True
    note lr = True [unfolded left_def right_def]
    have "zsl_rep (h(x \<mapsto> n\<lparr>zn_score := newscore\<rparr>)) zsl as" unfolding p(1) by (rule score_in_place [OF rep' n(1,2)]) (use lr in auto)
    moreover have "key (h(x \<mapsto> n\<lparr>zn_score := newscore\<rparr>)) x = (newscore, ele)" using n(2) by (simp add: key_def)
    moreover have "\<forall>a \<in> set as - {x}. key (h(x \<mapsto> n\<lparr>zn_score := newscore\<rparr>)) a = key h a" by (simp add: key_def)
    ultimately show thesis using that [of "h(x \<mapsto> n\<lparr>zn_score := newscore\<rparr>)" zsl x as] run True x(1) n(1) by auto
  next
    case False
    show thesis
    proof (rule zslUpdateScore_moved [OF rep' x(2) y rs bound [unfolded p(1)] p(3,4), of junk newscore], goal_cases)
      case (1 h' zsl' bs)
      show ?case by (rule that [of h' zsl' y bs]) (use run False 1 split in auto)
    qed
  qed
qed

section \<open>The sorted set as a map\<close>

text \<open>
  A state of the sorted set with the nodes in order: the skip list is well formed, the heap has no other nodes, and the
  dictionary leads from an element to its node.
\<close>

definition zset_rep :: "'s::linorder zheap \<Rightarrow> zset \<Rightarrow> nat list \<Rightarrow> bool" where
  "zset_rep h zs as \<longleftrightarrow> zsl_rep h (zs_zsl zs) as \<and> dom h = set (zsl_header (zs_zsl zs) # as) \<and>
     (\<forall>e a. zs_dict zs e = Some a \<longleftrightarrow> a \<in> set as \<and> snd (key h a) = e)"

definition zset_wf :: "'s::linorder zheap \<Rightarrow> zset \<Rightarrow> bool" where
  "zset_wf h zs \<longleftrightarrow> (\<exists>as. zset_rep h zs as)"

definition zset_abs :: "'s zheap \<Rightarrow> zset \<Rightarrow> string \<rightharpoonup> 's" where
  "zset_abs h zs = (\<lambda>e. map_option (\<lambda>a. zn_score (the (h a))) (zs_dict zs e))"

lemma zset_rep_dict:
  assumes "zset_rep h zs as" and "zs_dict zs e = Some a"
  shows "a \<in> set as" "key h a = (zn_score (node h a), e)" "h a = Some (node h a)" "zset_abs h zs e = Some (zn_score (node h a))"
proof -
  have rep: "zsl_rep h (zs_zsl zs) as" and a: "a \<in> set as" "snd (key h a) = e" using assms by (auto simp: zset_rep_def)
  show "a \<in> set as" by (rule a(1))
  show "key h a = (zn_score (node h a), e)" using a(2) rep_at(3) [OF rep a(1)] by (simp add: prod_eq_iff)
  show "h a = Some (node h a)" by (rule rep_at(1) [OF rep a(1)])
  then show "zset_abs h zs e = Some (zn_score (node h a))" using assms(2) by (simp add: zset_abs_def)
qed

lemma zset_rep_new:
  assumes "zset_rep h zs as" and "zs_dict zs e = None"
  shows "e \<notin> snd ` key h ` set as" "zset_abs h zs e = None"
proof -
  have "\<not> (a \<in> set as \<and> snd (key h a) = e)" for a using assms by (metis option.distinct(1) zset_rep_def)
  then show "e \<notin> snd ` key h ` set as" by blast
  show "zset_abs h zs e = None" using assms(2) by (simp add: zset_abs_def)
qed

text \<open>The map of a state, from the keys of its nodes.\<close>

lemma zset_abs_keys: "zset_rep h zs as \<Longrightarrow> zset_abs h zs e = Some s \<longleftrightarrow> (\<exists>a \<in> set as. key h a = (s, e))"
proof
  assume z: "zset_rep h zs as" and "zset_abs h zs e = Some s"
  then obtain a where a: "zs_dict zs e = Some a" "s = zn_score (the (h a))" by (auto simp: zset_abs_def)
  show "\<exists>a \<in> set as. key h a = (s, e)" using zset_rep_dict [OF z a(1)] a(2) by (intro bexI [of _ a]) auto
next
  assume z: "zset_rep h zs as" and "\<exists>a \<in> set as. key h a = (s, e)"
  then obtain a where a: "a \<in> set as" "key h a = (s, e)" by blast
  then have d: "zs_dict zs e = Some a" using z by (simp add: zset_rep_def)
  show "zset_abs h zs e = Some s" using zset_rep_dict [OF z d] a(2) by simp
qed

lemma zset_abs_eqI: "(\<And>e s. zset_abs h zs e = Some s \<longleftrightarrow> m e = Some s) \<Longrightarrow> zset_abs h zs = m"
  by (rule ext) (metis option.exhaust)

lemma zset_rep_insert:
  assumes z: "zset_rep h zs as" and rep: "zsl_rep h' zsl' bs" and hdr: "zsl_header zsl' = zsl_header (zs_zsl zs)"
    and bs: "set bs = insert y (set as - X)" and X: "\<forall>a \<in> set as. a \<in> X \<longleftrightarrow> snd (key h a) = ele" and dom: "dom h' = insert y (dom h - X)"
    and hX: "zsl_header (zs_zsl zs) \<notin> X" and ky: "key h' y = (s, ele)" and keys: "\<forall>a \<in> set as - X. key h' a = key h a"
  shows "zset_rep h' \<lparr>zs_dict = (zs_dict zs)(ele \<mapsto> y), zs_zsl = zsl'\<rparr> bs"
    and "zset_abs h' \<lparr>zs_dict = (zs_dict zs)(ele \<mapsto> y), zs_zsl = zsl'\<rparr> = (zset_abs h zs)(ele \<mapsto> s)"
proof -
  let ?zs = "\<lparr>zs_dict = (zs_dict zs)(ele \<mapsto> y), zs_zsl = zsl'\<rparr>"
  have old: "zs_dict zs e = Some a \<longleftrightarrow> a \<in> set as \<and> snd (key h a) = e" for e a using z by (simp add: zset_rep_def)
  have y: "a \<in> set bs \<Longrightarrow> snd (key h' a) = ele \<Longrightarrow> a = y" for a using bs X keys by auto
  have "zs_dict ?zs e = Some a \<longleftrightarrow> a \<in> set bs \<and> snd (key h' a) = e" for e a
  proof (cases "e = ele")
    case True
    then show ?thesis using y [of a] bs ky by auto
  next
    case False
    then have "a \<in> set bs \<and> snd (key h' a) = e \<longleftrightarrow> a \<in> set as - X \<and> snd (key h a) = e" using bs ky keys by auto
    then show ?thesis using False old X by auto
  qed
  moreover have "dom h' = set (zsl_header zsl' # bs)" using dom z bs hdr hX by (auto simp: zset_rep_def)
  ultimately show z': "zset_rep h' ?zs bs" using rep by (simp add: zset_rep_def)
  show "zset_abs h' ?zs = (zset_abs h zs)(ele \<mapsto> s)"
  proof (rule zset_abs_eqI)
    fix e t
    show "zset_abs h' ?zs e = Some t \<longleftrightarrow> ((zset_abs h zs)(ele \<mapsto> s)) e = Some t"
    proof (cases "e = ele")
      case True
      have "key h' a = (t, ele) \<Longrightarrow> a \<in> set bs \<Longrightarrow> t = s" for a using y [of a] ky by (metis fst_conv snd_conv)
      then have "(\<exists>a \<in> set bs. key h' a = (t, ele)) \<longleftrightarrow> t = s" using bs ky by blast
      then show ?thesis using True unfolding zset_abs_keys [OF z'] by auto
    next
      case False
      then have "(\<exists>a \<in> set bs. key h' a = (t, e)) \<longleftrightarrow> (\<exists>a \<in> set as - X. key h a = (t, e))" using bs ky keys by auto
      also have "\<dots> \<longleftrightarrow> (\<exists>a \<in> set as. key h a = (t, e))" using X False by (metis Diff_iff snd_conv)
      finally show ?thesis using False unfolding zset_abs_keys [OF z'] by (simp add: zset_abs_keys [OF z])
    qed
  qed
qed

lemma zset_rep_remove:
  assumes z: "zset_rep h zs as" and rep: "zsl_rep h' zsl' bs" and hdr: "zsl_header zsl' = zsl_header (zs_zsl zs)"
    and bs: "set bs = set as - X" and X: "X \<subseteq> set as" and dom: "dom h' = dom h - X" and keys: "\<forall>a \<in> set as - X. key h' a = key h a"
    and d: "\<forall>e. d e = (if e \<in> snd ` key h ` X then None else zs_dict zs e)"
  shows "zset_rep h' \<lparr>zs_dict = d, zs_zsl = zsl'\<rparr> bs"
    and "zset_abs h' \<lparr>zs_dict = d, zs_zsl = zsl'\<rparr> = zset_abs h zs |` (- (snd ` key h ` X))"
proof -
  let ?zs = "\<lparr>zs_dict = d, zs_zsl = zsl'\<rparr>"
  have zrep: "zsl_rep h (zs_zsl zs) as" and hdr_new: "zsl_header (zs_zsl zs) \<notin> set as" using z by (auto simp: zset_rep_def zsl_rep_def zsl_nodes_def)
  have old: "zs_dict zs e = Some a \<longleftrightarrow> a \<in> set as \<and> snd (key h a) = e" for e a using z by (simp add: zset_rep_def)
  have inX: "a \<in> X \<longleftrightarrow> snd (key h a) \<in> snd ` key h ` X" if a: "a \<in> set as" for a
    using key_inj [OF zrep a] X by (auto simp: image_iff subset_iff)
  have "zs_dict ?zs e = Some a \<longleftrightarrow> a \<in> set bs \<and> snd (key h' a) = e" for e a
  proof -
    have "d e = Some a \<longleftrightarrow> e \<notin> snd ` key h ` X \<and> a \<in> set as \<and> snd (key h a) = e" using d old by simp
    also have "\<dots> \<longleftrightarrow> a \<in> set as - X \<and> snd (key h a) = e" using inX [of a] by blast
    also have "\<dots> \<longleftrightarrow> a \<in> set bs \<and> snd (key h' a) = e" using bs keys by auto
    finally show ?thesis by simp
  qed
  moreover have "dom h' = set (zsl_header zsl' # bs)" using dom z bs hdr hdr_new X by (auto simp: zset_rep_def)
  ultimately show z': "zset_rep h' ?zs bs" using rep by (simp add: zset_rep_def)
  show "zset_abs h' ?zs = zset_abs h zs |` (- (snd ` key h ` X))"
  proof (rule zset_abs_eqI)
    fix e t
    have "(\<exists>a \<in> set bs. key h' a = (t, e)) \<longleftrightarrow> (\<exists>a \<in> set as - X. key h a = (t, e))" using bs keys by auto
    also have "\<dots> \<longleftrightarrow> e \<notin> snd ` key h ` X \<and> (\<exists>a \<in> set as. key h a = (t, e))" using inX by (metis Diff_iff snd_conv)
    finally show "zset_abs h' ?zs e = Some t \<longleftrightarrow> (zset_abs h zs |` (- (snd ` key h ` X))) e = Some t"
      unfolding zset_abs_keys [OF z'] by (simp add: restrict_map_def zset_abs_keys [OF z])
  qed
qed

section \<open>Adding, removing and looking up\<close>

text \<open>What \<^verbatim>\<open>zsetAdd\<close> and \<^verbatim>\<open>zsetDel\<close> do on the map of the set, and the flag and the score that the first reports.\<close>

definition zadd_spec ::
  "('s \<Rightarrow> 's \<Rightarrow> 's option) \<Rightarrow> 's::linorder option \<Rightarrow> string \<Rightarrow> zadd_in \<Rightarrow> (string \<rightharpoonup> 's) \<Rightarrow> (string \<rightharpoonup> 's) \<times> zadd_out \<times> 's option" where
  "zadd_spec add score ele flags m =
     (let keep = (\<lambda>out. (m, out, None));
          store = (\<lambda>s. (m(ele \<mapsto> s), if m ele = None then ZADD_OUT_ADDED else if m ele = Some s then ZADD_NONE else ZADD_OUT_UPDATED, Some s));
          new = (case (score, m ele) of (Some s, Some cur) \<Rightarrow> if za_incr flags then add s cur else Some s | _ \<Rightarrow> score);
          barred = (case (new, m ele) of
            (Some s, Some cur) \<Rightarrow> (za_lt flags \<and> \<not> s < cur) \<or> (za_gt flags \<and> \<not> s > cur)
          | _ \<Rightarrow> za_xx flags)
      in if score = None then keep ZADD_OUT_NAN
         else if m ele \<noteq> None \<and> za_nx flags then keep ZADD_OUT_NOP
         else case new of None \<Rightarrow> keep ZADD_OUT_NAN | Some s \<Rightarrow> if barred then keep ZADD_OUT_NOP else store s)"

lemma zset_rep_create:
  assumes "zslCreate new junk Map.empty = (h, zsl)"
  shows "zset_rep h \<lparr>zs_dict = Map.empty, zs_zsl = zsl\<rparr> []"
  using assms unfolding zslCreate_def zset_rep_def zsl_rep_def zsl_nodes_def zsl_top_def zsl_links_def zsl_backs_def zsl_order_def
  by (auto simp: Let_def ht_def node_def zslCreateNode_def ZSKIPLIST_MAXLEVEL_def Cons_eq_append_conv split: if_splits)

lemma zset_rep_header: "zset_rep h zs as \<Longrightarrow> zsl_header (zs_zsl zs) \<notin> set as"
  by (simp add: zset_rep_def zsl_rep_def zsl_nodes_def)

lemma zsetAdd_insert:
  assumes z: "zset_rep h zs as" and new: "h y = None" and rs: "zslRandomLevel rs = Some level" and bound: "length as < 4294967296"
    and e: "zs_dict zs ele = None"
  obtains h' zsl' bs where "zslInsert rs y junk s ele (zs_zsl zs) h = Some (h', zsl')"
    "zset_rep h' \<lparr>zs_dict = (zs_dict zs)(ele \<mapsto> y), zs_zsl = zsl'\<rparr> bs"
    "zset_abs h' \<lparr>zs_dict = (zs_dict zs)(ele \<mapsto> y), zs_zsl = zsl'\<rparr> = (zset_abs h zs)(ele \<mapsto> s)"
proof -
  have rep: "zsl_rep h (zs_zsl zs) as" using z by (simp add: zset_rep_def)
  note e = zset_rep_new [OF z e]
  let ?bs = "lower h (s, ele) as @ y # upper h (s, ele) as"
  from zslInsert_rep [OF rep new rs e(1) bound, of junk s] obtain h' zsl' where
    i: "zslInsert rs y junk s ele (zs_zsl zs) h = Some (h', zsl')" "zsl_rep h' zsl' ?bs" "zsl_header zsl' = zsl_header (zs_zsl zs)"
      "dom h' = insert y (dom h)" "key h' y = (s, ele)" "\<forall>a \<in> set as. key h' a = key h a" by blast
  have b: "set ?bs = insert y (set as - {})" using arg_cong [OF rep_split(1) [OF rep, of "(s, ele)"], of set] by simp
  have "zset_rep h' \<lparr>zs_dict = (zs_dict zs)(ele \<mapsto> y), zs_zsl = zsl'\<rparr> ?bs"
    "zset_abs h' \<lparr>zs_dict = (zs_dict zs)(ele \<mapsto> y), zs_zsl = zsl'\<rparr> = (zset_abs h zs)(ele \<mapsto> s)"
    by (rule zset_rep_insert [OF z i(2,3) b]; use e i in auto)+
  then show thesis by (rule that [OF i(1)])
qed

lemma zsetAdd_update:
  assumes z: "zset_rep h zs as" and new: "h y = None" and rs: "zslRandomLevel rs = Some level" and bound: "length as < 4294967296"
    and x: "zs_dict zs ele = Some x"
  obtains h' zsl' w bs where "zslUpdateScore rs y junk (zn_score (node h x)) ele s (zs_zsl zs) h = Some (h', zsl', w)"
    "zset_rep h' \<lparr>zs_dict = (zs_dict zs)(ele \<mapsto> w), zs_zsl = zsl'\<rparr> bs"
    "zset_abs h' \<lparr>zs_dict = (zs_dict zs)(ele \<mapsto> w), zs_zsl = zsl'\<rparr> = (zset_abs h zs)(ele \<mapsto> s)"
proof -
  have rep: "zsl_rep h (zs_zsl zs) as" using z by (simp add: zset_rep_def)
  note e = zset_rep_dict [OF z x]
  have X: "\<forall>a \<in> set as. a \<in> {x} \<longleftrightarrow> snd (key h a) = ele" 
  proof
    fix a
    assume a: "a \<in> set as"
    show "a \<in> {x} \<longleftrightarrow> snd (key h a) = ele" using key_inj [OF rep a e(1)] e(2) by (metis snd_conv singleton_iff)
  qed
  have hx: "zsl_header (zs_zsl zs) \<notin> {x}" using zset_rep_header [OF z] e(1) by auto
  show thesis
  proof (rule zslUpdateScore_rep [OF rep e(1,2) new rs bound, of junk s], goal_cases)
    case (1 h' zsl' w bs)
    note ins = zset_rep_insert [OF z 1(2,3,5) X 1(6) hx 1(7,8)]
    show ?case by (rule that [OF 1(1) ins])
  qed
qed

lemma zsetAdd_refines:
  assumes z: "zset_rep h zs as" and new: "h y = None" and rs: "zslRandomLevel rs = Some level" and bound: "length as < 4294967296"
  shows "\<exists>h' zs' out s bs. zsetAdd add rs y junk score ele flags zs h = Some (h', zs', out, s) \<and> zset_rep h' zs' bs \<and>
    (zset_abs h' zs', out, s) = zadd_spec add score ele flags (zset_abs h zs)"
proof (cases score)
  case None
  then show ?thesis using z by (auto simp: zsetAdd_def zadd_spec_def)
next
  case (Some s)
  show ?thesis
  proof (cases "zs_dict zs ele")
    case None
    note e = zset_rep_new [OF z None]
    obtain h' zsl' bs where i: "zslInsert rs y junk s ele (zs_zsl zs) h = Some (h', zsl')"
      "zset_rep h' \<lparr>zs_dict = (zs_dict zs)(ele \<mapsto> y), zs_zsl = zsl'\<rparr> bs"
      "zset_abs h' \<lparr>zs_dict = (zs_dict zs)(ele \<mapsto> y), zs_zsl = zsl'\<rparr> = (zset_abs h zs)(ele \<mapsto> s)" by (rule zsetAdd_insert [OF assms None])
    have "zsetAdd add rs y junk score ele flags zs h = (if za_xx flags then Some (h, zs, ZADD_OUT_NOP, None)
        else Some (h', \<lparr>zs_dict = (zs_dict zs)(ele \<mapsto> y), zs_zsl = zsl'\<rparr>, ZADD_OUT_ADDED, Some s))"
      using None Some i(1) by (simp add: zsetAdd_def)
    moreover have "zadd_spec add score ele flags (zset_abs h zs) = (if za_xx flags then (zset_abs h zs, ZADD_OUT_NOP, None)
        else ((zset_abs h zs)(ele \<mapsto> s), ZADD_OUT_ADDED, Some s))" using Some e(2) by (simp add: zadd_spec_def)
    ultimately show ?thesis using z i(2,3) by (cases "za_xx flags") auto
  next
    case found: (Some x)
    note e = zset_rep_dict [OF z found]
    let ?cur = "zn_score (node h x)" and ?new = "if za_incr flags then add s (zn_score (node h x)) else Some s"
    have code: "zsetAdd add rs y junk score ele flags zs h =
      (if za_nx flags then Some (h, zs, ZADD_OUT_NOP, None)
       else case ?new of None \<Rightarrow> Some (h, zs, ZADD_OUT_NAN, None)
       | Some t \<Rightarrow> if (za_lt flags \<and> t \<ge> ?cur) \<or> (za_gt flags \<and> t \<le> ?cur) then Some (h, zs, ZADD_OUT_NOP, None)
          else if t \<noteq> ?cur then do {
            (h, zsl, x) \<leftarrow> zslUpdateScore rs y junk ?cur ele t (zs_zsl zs) h;
            Some (h, zs\<lparr>zs_zsl := zsl, zs_dict := (zs_dict zs)(ele \<mapsto> x)\<rparr>, ZADD_OUT_UPDATED, Some t)
          } else Some (h, zs, ZADD_NONE, Some t))"
      unfolding zsetAdd_def Some found option.case e(3) bind.bind_lunit Let_def by (rule refl)
    have spec: "zadd_spec add score ele flags (zset_abs h zs) =
      (if za_nx flags then (zset_abs h zs, ZADD_OUT_NOP, None)
       else case ?new of None \<Rightarrow> (zset_abs h zs, ZADD_OUT_NAN, None)
       | Some t \<Rightarrow> if (za_lt flags \<and> t \<ge> ?cur) \<or> (za_gt flags \<and> t \<le> ?cur) then (zset_abs h zs, ZADD_OUT_NOP, None)
          else ((zset_abs h zs)(ele \<mapsto> t), if t \<noteq> ?cur then ZADD_OUT_UPDATED else ZADD_NONE, Some t))"
      unfolding zadd_spec_def Some e(4) Let_def by (cases ?new) (auto simp: not_less)
    show ?thesis
    proof (cases "za_nx flags \<or> ?new = None \<or> (za_lt flags \<and> the ?new \<ge> ?cur) \<or> (za_gt flags \<and> the ?new \<le> ?cur) \<or> the ?new = ?cur")
      case True
      obtain m out t where sp: "zadd_spec add score ele flags (zset_abs h zs) = (m, out, t)" by (rule prod_cases3)
      have "m = zset_abs h zs \<and> zsetAdd add rs y junk score ele flags zs h = Some (h, zs, out, t)"
        using sp True e(4) unfolding code spec by (cases ?new) (auto split: if_split_asm)
      then show ?thesis using z unfolding sp by blast
    next
      case False
      then obtain t where t: "?new = Some t" "t \<noteq> ?cur" by auto
      obtain h' zsl' w bs where i: "zslUpdateScore rs y junk ?cur ele t (zs_zsl zs) h = Some (h', zsl', w)"
        "zset_rep h' \<lparr>zs_dict = (zs_dict zs)(ele \<mapsto> w), zs_zsl = zsl'\<rparr> bs"
        "zset_abs h' \<lparr>zs_dict = (zs_dict zs)(ele \<mapsto> w), zs_zsl = zsl'\<rparr> = (zset_abs h zs)(ele \<mapsto> t)" by (rule zsetAdd_update [OF assms found])
      have "zsetAdd add rs y junk score ele flags zs h = Some (h', \<lparr>zs_dict = (zs_dict zs)(ele \<mapsto> w), zs_zsl = zsl'\<rparr>, ZADD_OUT_UPDATED, Some t)"
        using False i(1) t unfolding code t(1) by simp
      moreover have "zadd_spec add score ele flags (zset_abs h zs) = ((zset_abs h zs)(ele \<mapsto> t), ZADD_OUT_UPDATED, Some t)"
        using False t unfolding spec t(1) by simp
      ultimately show ?thesis using i(2,3) by auto
    qed
  qed
qed

lemma zsetDel_refines:
  assumes z: "zset_rep h zs as"
  shows "\<exists>h' zs' bs. zsetDel ele zs h = Some (h', zs', zset_abs h zs ele \<noteq> None) \<and> zset_rep h' zs' bs \<and>
    zset_abs h' zs' = (zset_abs h zs)(ele := None)"
proof (cases "zs_dict zs ele")
  case None
  then show ?thesis using z zset_rep_new(2) [OF z None] by (auto simp: zsetDel_def zsetRemoveFromSkiplist_def fun_upd_idem)
next
  case (Some x)
  have rep: "zsl_rep h (zs_zsl zs) as" using z by (simp add: zset_rep_def)
  note e = zset_rep_dict [OF z Some]
  from zslDelete_found [OF rep e(1,2), of False] obtain h' zsl' where
    d: "zslDelete False (zn_score (node h x)) ele (zs_zsl zs) h = Some (h', zsl', Some x)" "zsl_rep h' zsl' (filter (\<lambda>a. a \<noteq> x) as)"
      "zsl_header zsl' = zsl_header (zs_zsl zs)" "dom h' = dom h - {x}" "\<forall>a \<in> set as - {x}. key h' a = key h a" by auto
  have b: "set (filter (\<lambda>a. a \<noteq> x) as) = set as - {x}" "{x} \<subseteq> set as" using e(1) by auto
  have k: "\<forall>e. ((zs_dict zs)(ele := None)) e = (if e \<in> snd ` key h ` {x} then None else zs_dict zs e)" using e(2) by simp
  note r = zset_rep_remove [OF z d(2,3) b d(4,5) k]
  have "zset_abs h zs |` (- (snd ` key h ` {x})) = (zset_abs h zs)(ele := None)" using e(2) by (auto simp: restrict_map_def)
  note abs = r(2) [unfolded this]
  have run: "zsetDel ele zs h = Some (h', \<lparr>zs_dict = (zs_dict zs)(ele := None), zs_zsl = zsl'\<rparr>, zset_abs h zs ele \<noteq> None)"
    using Some e(3,4) d(1) by (simp add: zsetDel_def zsetRemoveFromSkiplist_def)
  show ?thesis by (intro exI conjI) (rule run, rule r(1), rule abs)
qed

lemma zsetScore_refines: "zset_rep h zs as \<Longrightarrow> zsetScore ele zs h = Some (zset_abs h zs ele)"
  by (cases "zs_dict zs ele") (auto simp: zsetScore_def zset_abs_def dest: zset_rep_dict(3))

lemma zset_keys_dom:
  assumes "zset_rep h zs as"
  shows "dom (zset_abs h zs) = snd ` key h ` set as" "inj_on (\<lambda>a. snd (key h a)) (set as)" "distinct as"
proof -
  have "e \<in> dom (zset_abs h zs) \<longleftrightarrow> (\<exists>a \<in> set as. snd (key h a) = e)" for e
    unfolding dom_def mem_Collect_eq by (metis zset_abs_keys [OF assms] not_Some_eq prod.collapse snd_conv)
  then have "dom (zset_abs h zs) = {e. \<exists>a \<in> set as. snd (key h a) = e}" by (simp add: set_eq_iff)
  then show "dom (zset_abs h zs) = snd ` key h ` set as" unfolding image_image by (simp add: image_def eq_commute)
  have "zsl_order h (zsl_header (zs_zsl zs)) as" "zsl_nodes h (zsl_header (zs_zsl zs)) (zsl_level (zs_zsl zs)) as"
    using assms by (simp_all add: zset_rep_def zsl_rep_def)
  then show "inj_on (\<lambda>a. snd (key h a)) (set as)" "distinct as"
    unfolding zsl_order_def zsl_nodes_def distinct_map comp_def by simp_all
qed

lemma zsetLength_refines:
  assumes "zset_rep h zs as"
  shows "zsetLength zs = card (dom (zset_abs h zs))" "zsetLength zs = length as" "finite (dom (zset_abs h zs))"
proof -
  note k = zset_keys_dom [OF assms]
  have "card (dom (zset_abs h zs)) = card (set as)" unfolding k(1) image_image by (rule card_image [OF k(2)])
  then show "zsetLength zs = card (dom (zset_abs h zs))" "zsetLength zs = length as" using assms k(3)
    by (simp_all add: zsetLength_def zset_rep_def zsl_rep_def distinct_card)
  show "finite (dom (zset_abs h zs))" unfolding k(1) by simp
qed

end
