(* ===== verification/Zset_Range.thy ===== *)
theory Zset_Range
  imports Zset_Proof
begin

text \<open>
  Ranges and ranks of sorted sets: the first and the last node of a range, the deletion of a range and the rank of an
  element, each against the list of the nodes in order.
\<close>

section \<open>Conditions on keys\<close>

definition tests :: "('s znode \<Rightarrow> bool option) \<Rightarrow> ('s \<times> string \<Rightarrow> bool) \<Rightarrow> bool" where
  "tests f P \<longleftrightarrow> (\<forall>n e. zn_ele n = Some e \<longrightarrow> f n = Some (P (zn_score n, e)))"

lemma tests_at:
  assumes "tests f P" and rep: "zsl_rep h zsl as" and a: "a \<in> set as"
  shows "f (node h a) = Some (P (key h a))"
proof -
  have "f (node h a) = Some (P (zn_score (node h a), snd (key h a)))" using assms(1) rep_at(2) [OF rep a] by (simp add: tests_def)
  then show ?thesis using rep_at(3) [OF rep a] by simp
qed

text \<open>
  A range of a list has three parts, where the lower condition \<open>G\<close> stays true and the upper condition \<open>L\<close> stays false once
  they are.
\<close>

definition monotone_on_list :: "('k \<Rightarrow> bool) \<Rightarrow> ('k \<Rightarrow> bool) \<Rightarrow> 'k list \<Rightarrow> bool" where
  "monotone_on_list G L ks \<longleftrightarrow> sorted_wrt (\<lambda>j k. (G j \<longrightarrow> G k) \<and> (L k \<longrightarrow> L j)) ks"

lemma split_when: "sorted_wrt (\<lambda>j k. P (f j) \<longrightarrow> P (f k)) as \<Longrightarrow> filter (\<lambda>a. \<not> P (f a)) as @ filter (\<lambda>a. P (f a)) as = as"
proof (induction as)
  case (Cons a as)
  show ?case
  proof (cases "P (f a)")
    case True
    then have "filter (\<lambda>a. \<not> P (f a)) as = []" using Cons.prems by (simp add: filter_empty_conv)
    then show ?thesis using True Cons by simp
  qed (use Cons in simp)
qed simp

lemma range_parts:
  assumes "monotone_on_list G L (map f as)"
  shows "filter (\<lambda>a. \<not> G (f a)) as @ filter (\<lambda>a. G (f a) \<and> L (f a)) as @ filter (\<lambda>a. G (f a) \<and> \<not> L (f a)) as = as"
    and "filter (\<lambda>a. L (f a)) as @ filter (\<lambda>a. \<not> L (f a)) as = as"
proof -
  have G: "sorted_wrt (\<lambda>j k. G (f j) \<longrightarrow> G (f k)) as" and L: "sorted_wrt (\<lambda>j k. \<not> L (f j) \<longrightarrow> \<not> L (f k)) as"
    using assms unfolding monotone_on_list_def sorted_wrt_map by (auto elim: sorted_wrt_mono_rel [rotated])
  show "filter (\<lambda>a. L (f a)) as @ filter (\<lambda>a. \<not> L (f a)) as = as" using split_when [of "\<lambda>k. \<not> L k" f as] L by simp
  have "sorted_wrt (\<lambda>j k. \<not> L (f j) \<longrightarrow> \<not> L (f k)) (filter (\<lambda>a. G (f a)) as)" using L by (rule sorted_wrt_filter)
  from split_when [of "\<lambda>k. \<not> L k" f, OF this]
  have "filter (\<lambda>a. G (f a) \<and> L (f a)) as @ filter (\<lambda>a. G (f a) \<and> \<not> L (f a)) as = filter (\<lambda>a. G (f a)) as" by (simp add: conj_commute)
  then show "filter (\<lambda>a. \<not> G (f a)) as @ filter (\<lambda>a. G (f a) \<and> L (f a)) as @ filter (\<lambda>a. G (f a) \<and> \<not> L (f a)) as = as"
    using split_when [of G f, OF G] by simp
qed

section \<open>The ends of a range\<close>

lemma in_range_ends:
  assumes rep: "zsl_rep h zsl as" and g: "tests gte G" and l: "tests lte L"
  shows "in_range_gen never gte lte zsl h = Some (\<not> never \<and> as \<noteq> [] \<and> G (key h (last as)) \<and> L (key h (hd as)))"
proof (cases "as = []")
  case True
  then show ?thesis using rep by (simp add: in_range_gen_def zsl_rep_def)
next
  case False
  then have m: "last as \<in> set as" "hd as \<in> set as" by simp_all
  have tail: "zsl_tail zsl = Some (last as)" using rep False by (simp add: zsl_rep_def)
  have fit: "fits h (\<lambda>_ _. Some False) [] as" by (simp add: fits_def)
  have rep': "zsl_rep h zsl ([] @ as)" using rep by simp
  obtain k where k: "get_level h (zsl_header zsl) 0 = Some k" "zl_forward k = Some (hd as)"
    by (rule rep_seek [OF rep' fit]) (use False in simp)
  show ?thesis
    unfolding in_range_gen_def tail option.case rep_at(1) [OF rep m(1)] rep_at(1) [OF rep m(2)] bind.bind_lunit
      tests_at [OF g rep m(1)] k tests_at [OF l rep m(2)] using False by simp
qed

lemma range_inside:
  assumes m: "monotone_on_list G L (map (key h) as)" and ne: "filter (\<lambda>a. G (key h a) \<and> L (key h a)) as \<noteq> []"
  shows "as \<noteq> [] \<and> G (key h (last as)) \<and> L (key h (hd as))"
proof -
  obtain a where a: "a \<in> set as" "G (key h a)" "L (key h a)" using ne by (auto simp: filter_empty_conv)
  have s: "sorted_wrt (\<lambda>j k. (G (key h j) \<longrightarrow> G (key h k)) \<and> (L (key h k) \<longrightarrow> L (key h j))) as"
    using m by (simp add: monotone_on_list_def sorted_wrt_map)
  have "L (key h (hd as))" using s a by (cases as) auto
  moreover have "G (key h (last as))" using s a by (cases as rule: rev_cases) (auto simp: sorted_wrt_append)
  ultimately show ?thesis using a(1) by auto
qed

lemma range_none:
  assumes "monotone_on_list G L (map (key h) as)" and "never \<Longrightarrow> \<forall>k. \<not> (G k \<and> L k)"
    and "\<not> (\<not> never \<and> as \<noteq> [] \<and> G (key h (last as)) \<and> L (key h (hd as)))"
  shows "filter (\<lambda>a. G (key h a) \<and> L (key h a)) as = []"
proof (cases never)
  case True
  then show ?thesis using assms(2) by (simp add: filter_empty_conv del: split_paired_All)
next
  case False
  then show ?thesis using range_inside [OF assms(1)] assms(3) by blast
qed

lemma first_in_range:
  assumes rep: "zsl_rep h zsl as" and g: "tests gte G" and l: "tests lte L" and m: "monotone_on_list G L (map (key h) as)"
    and never: "never \<Longrightarrow> \<forall>k. \<not> (G k \<and> L k)"
  shows "first_in_range_gen never gte lte zsl h =
    Some (let ms = filter (\<lambda>a. G (key h a) \<and> L (key h a)) as in if ms = [] then None else Some (hd ms))"
proof (cases "\<not> never \<and> as \<noteq> [] \<and> G (key h (last as)) \<and> L (key h (hd as))")
  case False
  then have "filter (\<lambda>a. G (key h a) \<and> L (key h a)) as = []" using range_none [OF m never] by blast
  then show ?thesis using False in_range_ends [OF rep g l, of never] by (simp add: first_in_range_gen_def)
next
  case True
  define us ms vs where "us = filter (\<lambda>a. \<not> G (key h a)) as" and "ms = filter (\<lambda>a. G (key h a) \<and> L (key h a)) as"
    and "vs = filter (\<lambda>a. G (key h a) \<and> \<not> L (key h a)) as"
  have split: "us @ ms @ vs = as" using range_parts(1) [OF m] by (simp add: us_def ms_def vs_def)
  have rep': "zsl_rep h zsl (us @ ms @ vs)" using rep split by simp
  have fit: "fits h (\<lambda>_ n. map_option Not (gte n)) us (ms @ vs)"
    by (rule fits_key [where P = "\<lambda>a. \<not> G (key h a)"]) (use tests_at [OF g rep] split in \<open>auto simp: us_def ms_def vs_def\<close>)
  obtain path k where p: "zsl_path h (\<lambda>_ n. map_option Not (gte n)) (zsl_level zsl) (zsl_header zsl) 0 = Some path"
    "nth_opt path 0 = Some (last (zsl_header zsl # us), length us)" "get_level h (last (zsl_header zsl # us)) 0 = Some k"
    "zl_forward k = (if ms @ vs = [] then None else Some (hd (ms @ vs)))" by (rule rep_seek [OF rep' fit])
  have "last as \<in> set (ms @ vs)" using True by (auto simp: ms_def vs_def)
  then have ne: "ms @ vs \<noteq> []" by auto
  have "hd (ms @ vs) \<in> set (ms @ vs)" using ne by (rule hd_in_set)
  then have at: "hd (ms @ vs) \<in> set as" using split by (metis Un_iff set_append)
  have "L (key h (hd (ms @ vs))) \<longleftrightarrow> ms \<noteq> []"
  proof (cases ms)
    case Nil
    then have "hd vs \<in> set vs" using ne by simp
    then show ?thesis using Nil by (simp add: vs_def)
  next
    case (Cons a as')
    then have "a \<in> set ms" by simp
    then show ?thesis using Cons by (simp add: ms_def)
  qed
  then have "first_in_range_gen never gte lte zsl h = Some (if ms = [] then None else Some (hd ms))"
    unfolding first_in_range_gen_def in_range_ends [OF rep g l] bind.bind_lunit p prod.case
    using True ne rep_at(1) [OF rep at] tests_at [OF l rep at] by (cases ms) auto
  then show ?thesis by (simp add: ms_def Let_def)
qed

lemma last_in_range:
  assumes rep: "zsl_rep h zsl as" and g: "tests gte G" and l: "tests lte L" and m: "monotone_on_list G L (map (key h) as)"
    and never: "never \<Longrightarrow> \<forall>k. \<not> (G k \<and> L k)"
  shows "last_in_range_gen never gte lte zsl h =
    Some (let ms = filter (\<lambda>a. G (key h a) \<and> L (key h a)) as in if ms = [] then None else Some (last ms))"
proof (cases "\<not> never \<and> as \<noteq> [] \<and> G (key h (last as)) \<and> L (key h (hd as))")
  case False
  then have "filter (\<lambda>a. G (key h a) \<and> L (key h a)) as = []" using range_none [OF m never] by blast
  then show ?thesis using False in_range_ends [OF rep g l, of never] by (simp add: last_in_range_gen_def)
next
  case True
  define us vs where "us = filter (\<lambda>a. L (key h a)) as" and "vs = filter (\<lambda>a. \<not> L (key h a)) as"
  have split: "us @ vs = as" using range_parts(2) [OF m] by (simp add: us_def vs_def)
  have rep': "zsl_rep h zsl (us @ vs)" using rep split by simp
  have fit: "fits h (\<lambda>_ n. lte n) us vs"
    by (rule fits_key [where P = "\<lambda>a. L (key h a)"]) (use tests_at [OF l rep] split in \<open>auto simp: us_def vs_def\<close>)
  obtain path k where p: "zsl_path h (\<lambda>_ n. lte n) (zsl_level zsl) (zsl_header zsl) 0 = Some path"
    "nth_opt path 0 = Some (last (zsl_header zsl # us), length us)" by (rule rep_seek [OF rep' fit])
  have "hd as \<in> set us" using True by (simp add: us_def)
  then have ne: "us \<noteq> []" by auto
  then have at: "last us \<in> set us" "last us \<in> set as" using split by (simp, metis Un_iff last_in_set set_append)
  have mus: "filter (\<lambda>a. G (key h a) \<and> L (key h a)) as = filter (\<lambda>a. G (key h a)) us" by (simp add: us_def conj_commute)
  have "G (key h (last us)) \<longleftrightarrow> filter (\<lambda>a. G (key h a)) us \<noteq> []"
  proof
    show "G (key h (last us)) \<Longrightarrow> filter (\<lambda>a. G (key h a)) us \<noteq> []" using at(1) by (auto simp: filter_empty_conv)
    have s: "sorted_wrt (\<lambda>j k. G (key h j) \<longrightarrow> G (key h k)) us" unfolding us_def
      by (rule sorted_wrt_filter) (use m in \<open>auto simp: monotone_on_list_def sorted_wrt_map elim: sorted_wrt_mono_rel [rotated]\<close>)
    then show "filter (\<lambda>a. G (key h a)) us \<noteq> [] \<Longrightarrow> G (key h (last us))"
      by (cases us rule: rev_cases) (auto simp: sorted_wrt_append filter_empty_conv)
  qed
  moreover have "G (key h (last us)) \<Longrightarrow> last (filter (\<lambda>a. G (key h a)) us) = last us" using ne by (cases us rule: rev_cases) auto
  ultimately have "last_in_range_gen never gte lte zsl h =
    Some (if filter (\<lambda>a. G (key h a)) us = [] then None else Some (last (filter (\<lambda>a. G (key h a)) us)))"
    unfolding last_in_range_gen_def in_range_ends [OF rep g l] bind.bind_lunit p prod.case
    using True ne rep_at(1) [OF rep at(2)] tests_at [OF g rep at(2)] by auto
  then show ?thesis by (simp add: mus Let_def)
qed

section \<open>Deleting a range\<close>

text \<open>
  The loop from the first node of \<open>ms\<close> deletes these nodes, if the condition holds of each of them with its rank and not of
  the node after them.
\<close>

lemma goes_down_cong:
  assumes "goes_down H us i ur" and same: "\<And>a. a \<in> set us \<Longrightarrow> H' a = H a"
  shows "goes_down H' us i ur"
proof -
  obtain xs ys where s: "us = xs @ fst ur # ys" "snd ur = length xs" "i < H (fst ur)" "\<forall>y \<in> set ys. H y \<le> i"
    using assms(1) by (auto simp: goes_down_def)
  have "fst ur \<in> set us" "\<forall>y \<in> set ys. y \<in> set us" using arg_cong [OF s(1), of set] by auto
  then show ?thesis using s same unfolding goes_down_def by metis
qed

lemma delete_loop_rep:
  assumes "zsl_rep h zsl (us @ ms @ vs)" and "zsl_level zsl \<le> length update"
    and "\<forall>i < zsl_level zsl. goes_down (ht h) (zsl_header zsl # us) i (update ! i)"
    and I: "\<And>r. tests (inside r) (I r)"
    and "\<forall>i < length ms. I (r + i) (key h (ms ! i))" and "vs \<noteq> [] \<Longrightarrow> \<not> I (r + length ms) (key h (hd vs))"
  shows "\<exists>h' zsl'. delete_loop inside update (if ms @ vs = [] then None else Some (hd (ms @ vs))) r removed dict zsl h =
      Some (h', zsl', (\<lambda>e. if e \<in> snd ` key h ` set ms then None else dict e), removed + length ms) \<and>
    zsl_rep h' zsl' (us @ vs) \<and> zsl_header zsl' = zsl_header zsl \<and> dom h' = dom h - set ms \<and> (\<forall>a \<in> set (us @ vs). key h' a = key h a)"
  using assms(1-3,5-)
proof (induction ms arbitrary: h zsl r removed dict)
  case Nil
  show ?case
  proof (cases vs)
    case Nil
    then show ?thesis using Nil.prems by (simp add: delete_loop.simps)
  next
    case (Cons v ws)
    have v: "v \<in> set (us @ [] @ vs)" using Cons by simp
    have "h v = Some (node h v)" "inside r (node h v) = Some False"
      using rep_at(1) [OF Nil.prems(1) v] tests_at [OF I Nil.prems(1) v, of r] Nil.prems(5) Cons by auto
    then show ?thesis using Nil.prems(1) Cons by (simp add: delete_loop.simps)
  qed
next
  case (Cons x ms)
  have rep: "zsl_rep h zsl (us @ x # ms @ vs)" using Cons.prems(1) by simp
  obtain l where l: "get_level h x 0 = Some l" "zl_forward l = (if ms @ vs = [] then None else Some (hd (ms @ vs)))" by (rule bottom_link [OF rep])
  have x: "x \<in> set (us @ x # ms @ vs)" by simp
  note n = rep_at(1,2) [OF rep x]
  have ins: "inside r (node h x) = Some True" using tests_at [OF I rep x, of r] Cons.prems(4) by (metis add.right_neutral length_greater_0_conv list.distinct(1) nth_Cons_0)
  from zslDeleteNode_rep [OF rep Cons.prems(2,3)] obtain h1 zsl1 where d: "zslDeleteNode x update zsl h = Some (h1, zsl1)"
    "zsl_rep h1 zsl1 (us @ ms @ vs)" "zsl_header zsl1 = zsl_header zsl" "same_nodes h h1" "zsl_level zsl1 \<le> zsl_level zsl" by blast
  define h2 where "h2 = h1(x := None)"
  have nodes: "zsl_nodes h (zsl_header zsl) (zsl_level zsl) (us @ x # ms @ vs)" using rep by (simp add: zsl_rep_def)
  then have dom: "set (zsl_header zsl # us @ x # ms @ vs) \<subseteq> dom h" and xn: "x \<notin> set (zsl_header zsl # us @ ms @ vs)" unfolding zsl_nodes_def by auto
  have rep2: "zsl_rep h2 zsl1 (us @ ms @ vs)" by (rule rep_cong [OF _ d(2)]) (use xn d(3) in \<open>auto simp: h2_def\<close>)
  have same: "key h2 a = key h a" "ht h2 a = ht h a" if a: "a \<in> set (zsl_header zsl # us @ ms @ vs)" for a
  proof -
    have "a \<noteq> x" "a \<in> dom h" using a xn dom by auto
    then show "key h2 a = key h a" "ht h2 a = ht h a" using d(4) by (simp_all add: h2_def key_free same_nodes_def ht_def node_def)
  qed
  have free: "zslFreeNode x h1 = Some h2" using d(4) n(1) by (auto simp: zslFreeNode_def h2_def same_nodes_def)
  have run: "delete_loop inside update (Some x) r removed dict zsl h =
    delete_loop inside update (if ms @ vs = [] then None else Some (hd (ms @ vs))) (r + 1) (removed + 1) (dict(snd (key h x) := None)) zsl1 h2"
    by (subst delete_loop.simps) (simp add: n ins l d(1) free)
  have down: "\<forall>i < zsl_level zsl1. goes_down (ht h2) (zsl_header zsl1 # us) i (update ! i)"
  proof (intro allI impI)
    fix i
    assume i: "i < zsl_level zsl1"
    show "goes_down (ht h2) (zsl_header zsl1 # us) i (update ! i)" unfolding d(3)
      by (rule goes_down_cong [where H = "ht h"]) (use Cons.prems(3) d(5) i same(2) in auto)
  qed
  have km: "\<forall>i < length ms. I (r + 1 + i) (key h2 (ms ! i))"
  proof (intro allI impI)
    fix i
    assume i: "i < length ms"
    then have "key h2 (ms ! i) = key h (ms ! i)" by (intro same) simp
    then show "I (r + 1 + i) (key h2 (ms ! i))" using Cons.prems(4) [rule_format, of "Suc i"] i by simp
  qed
  have kv: "\<not> I (r + 1 + length ms) (key h2 (hd vs))" if vs: "vs \<noteq> []"
  proof -
    have "key h2 (hd vs) = key h (hd vs)" using vs by (intro same) simp
    then show ?thesis using Cons.prems(5) [OF vs] by simp
  qed
  have "zsl_level zsl1 \<le> length update" using Cons.prems(2) d(5) by simp
  from Cons.IH [OF rep2 this down km kv, of "removed + 1" "dict(snd (key h x) := None)"] obtain h' zsl' where
    ih: "delete_loop inside update (if ms @ vs = [] then None else Some (hd (ms @ vs))) (r + 1) (removed + 1) (dict(snd (key h x) := None)) zsl1 h2 =
        Some (h', zsl', (\<lambda>e. if e \<in> snd ` key h2 ` set ms then None else (dict(snd (key h x) := None)) e), removed + 1 + length ms)"
      "zsl_rep h' zsl' (us @ vs)" "zsl_header zsl' = zsl_header zsl1" "dom h' = dom h2 - set ms" "\<forall>a \<in> set (us @ vs). key h' a = key h2 a" by blast
  have ks: "key h2 ` set ms = key h ` set ms" by (rule image_cong) (use same in auto)
  have "(\<lambda>e. if e \<in> snd ` key h2 ` set ms then None else (dict(snd (key h x) := None)) e) =
    (\<lambda>e. if e \<in> snd ` key h ` set (x # ms) then None else dict e)" unfolding ks by auto
  moreover have "dom h' = dom h - set (x # ms)" using ih(4) d(4) by (auto simp: h2_def same_nodes_def)
  moreover have "\<forall>a \<in> set (us @ vs). key h' a = key h a" using ih(5) same by auto
  ultimately show ?case using run ih(1-3) d(3) by (simp del: image_insert)
qed

lemma delete_range_rep:
  assumes z: "zset_rep h zs (us @ ms @ vs)" and fit: "fits h ahead us (ms @ vs)" and I: "\<And>r. tests (inside r) (I r)"
    and "\<forall>i < length ms. I (length us + 1 + i) (key h (ms ! i))" and "vs \<noteq> [] \<Longrightarrow> \<not> I (length us + 1 + length ms) (key h (hd vs))"
  obtains h' zsl' d where "delete_range_gen ahead inside (zs_dict zs) (zs_zsl zs) h = Some (h', zsl', d, length ms)"
    "zset_rep h' \<lparr>zs_dict = d, zs_zsl = zsl'\<rparr> (us @ vs)"
    "zset_abs h' \<lparr>zs_dict = d, zs_zsl = zsl'\<rparr> = zset_abs h zs |` (- (snd ` key h ` set ms))"
proof -
  let ?zsl = "zs_zsl zs"
  have rep: "zsl_rep h ?zsl (us @ ms @ vs)" using z by (simp add: zset_rep_def)
  obtain path l where p: "zsl_path h ahead (zsl_level ?zsl) (zsl_header ?zsl) 0 = Some path" "length path = zsl_level ?zsl"
    "\<forall>i < zsl_level ?zsl. goes_down (ht h) (zsl_header ?zsl # us) i (path ! i)" "nth_opt path 0 = Some (last (zsl_header ?zsl # us), length us)"
    "get_level h (last (zsl_header ?zsl # us)) 0 = Some l" "zl_forward l = (if ms @ vs = [] then None else Some (hd (ms @ vs)))"
    by (rule rep_seek [OF rep fit])
  have "zsl_level ?zsl \<le> length path" using p(2) by simp
  from delete_loop_rep [OF rep this p(3) I assms(4,5), of 0 "zs_dict zs"] obtain h' zsl' where
    d: "delete_loop inside path (if ms @ vs = [] then None else Some (hd (ms @ vs))) (length us + 1) 0 (zs_dict zs) ?zsl h =
      Some (h', zsl', (\<lambda>e. if e \<in> snd ` key h ` set ms then None else zs_dict zs e), 0 + length ms)"
      "zsl_rep h' zsl' (us @ vs)" "zsl_header zsl' = zsl_header ?zsl" "dom h' = dom h - set ms" "\<forall>a \<in> set (us @ vs). key h' a = key h a" by blast
  have run: "delete_range_gen ahead inside (zs_dict zs) ?zsl h = Some (h', zsl', (\<lambda>e. if e \<in> snd ` key h ` set ms then None else zs_dict zs e), length ms)"
    unfolding delete_range_gen_def p(1) bind.bind_lunit p(4) prod.case p(5,6) d(1) by simp
  have dist: "distinct (us @ ms @ vs)" using zset_keys_dom(3) [OF z] .
  have b: "set (us @ vs) = set (us @ ms @ vs) - set ms" "set ms \<subseteq> set (us @ ms @ vs)" using dist by auto
  note rm = zset_rep_remove [OF z d(2,3) b d(4), of "\<lambda>e. if e \<in> snd ` key h ` set ms then None else zs_dict zs e"]
  have keys: "\<forall>a \<in> set (us @ ms @ vs) - set ms. key h' a = key h a" unfolding b(1) [symmetric] by (rule d(5))
  show thesis by (rule that [OF run rm]) (use keys in \<open>simp_all del: set_append\<close>)
qed

section \<open>Ranges of the map\<close>

text \<open>The pairs of score and element of a map, and those of them in a range.\<close>

definition range_keys :: "(string \<rightharpoonup> 's) \<Rightarrow> ('s \<times> string \<Rightarrow> bool) \<Rightarrow> ('s \<times> string) set" where
  "range_keys m P = {k. m (snd k) = Some (fst k) \<and> P k}"

lemma range_keys_list: "zset_rep h zs as \<Longrightarrow> range_keys (zset_abs h zs) P = key h ` set (filter (\<lambda>a. P (key h a)) as)"
proof -
  assume z: "zset_rep h zs as"
  have "k \<in> range_keys (zset_abs h zs) P \<longleftrightarrow> (\<exists>a \<in> set as. key h a = k) \<and> P k" for k
    using zset_abs_keys [OF z, of "snd k" "fst k"] by (simp add: range_keys_def)
  then have "range_keys (zset_abs h zs) P = {k. (\<exists>a \<in> set as. key h a = k) \<and> P k}" by (simp add: set_eq_iff del: split_paired_All)
  also have "\<dots> = key h ` {a \<in> set as. P (key h a)}" by blast
  finally show ?thesis by simp
qed

lemma sorted_keys: "zset_rep h zs as \<Longrightarrow> sorted_wrt (<) (map (key h) as)"
  by (simp add: zset_rep_def zsl_rep_def zsl_order_def)

lemma sorted_ends:
  assumes "sorted_wrt (<) (map f ms)" and "ms \<noteq> []"
  shows "f (hd ms) = Min (f ` set ms)" "f (last ms) = Max (f ` set ms)"
proof -
  obtain a bs where a: "ms = a # bs" using assms(2) by (cases "ms") auto
  show "f (hd ms) = Min (f ` set ms)" unfolding a
    by (rule Min_eqI [symmetric]) (use assms(1) a in \<open>auto simp: less_imp_le\<close>)
  obtain b cs where b: "ms = cs @ [b]" using assms(2) by (cases "ms" rule: rev_cases) auto
  show "f (last ms) = Max (f ` set ms)" unfolding b
    by (rule Max_eqI [symmetric]) (use assms(1) b in \<open>auto simp: less_imp_le sorted_wrt_append\<close>)
qed

text \<open>The tests of the two kinds of ranges.\<close>

abbreviation score_min :: "'s::linorder zrangespec \<Rightarrow> 's \<times> string \<Rightarrow> bool" where
  "score_min spec k \<equiv> zslValueGteMin (fst k) spec"

abbreviation score_max :: "'s::linorder zrangespec \<Rightarrow> 's \<times> string \<Rightarrow> bool" where
  "score_max spec k \<equiv> zslValueLteMax (fst k) spec"

abbreviation lex_min :: "zlexrangespec \<Rightarrow> 's \<times> string \<Rightarrow> bool" where
  "lex_min spec k \<equiv> zslLexValueGteMin (snd k) spec"

abbreviation lex_max :: "zlexrangespec \<Rightarrow> 's \<times> string \<Rightarrow> bool" where
  "lex_max spec k \<equiv> zslLexValueLteMax (snd k) spec"

lemma tests_spec:
  "tests (\<lambda>n. Some (zslValueGteMin (zn_score n) spec)) (score_min spec)" "tests (\<lambda>n. Some (zslValueLteMax (zn_score n) spec)) (score_max spec)"
  "tests (\<lambda>n. map_option (\<lambda>e. zslLexValueGteMin e lspec) (zn_ele n)) (lex_min lspec)"
  "tests (\<lambda>n. map_option (\<lambda>e. zslLexValueLteMax e lspec) (zn_ele n)) (lex_max lspec)"
  by (simp_all add: tests_def)

lemma score_range_mono: "sorted_wrt (<) ks \<Longrightarrow> monotone_on_list (score_min spec) (score_max spec) ks"
  unfolding monotone_on_list_def
  by (erule sorted_wrt_mono_rel [rotated]) (auto simp: zslValueGteMin_def zslValueLteMax_def less_prod_def)

lemma empty_range_none: "empty_range spec \<Longrightarrow> \<forall>k. \<not> (score_min spec k \<and> score_max spec k)"
  by (auto simp: empty_range_def zslValueGteMin_def zslValueLteMax_def)

lemma text_cmp_greater: "0 < text_cmp a b \<longleftrightarrow> b < a" "0 \<le> text_cmp a b \<longleftrightarrow> b \<le> a"
  by (metis not_le text_cmp_le, metis not_less text_cmp_less)

lemma lex_value:
  "zslLexValueGteMin v spec \<longleftrightarrow> (case lx_min spec of Minstring \<Rightarrow> True | Maxstring \<Rightarrow> False | Lex w \<Rightarrow> if lx_minex spec then w < v else w \<le> v)"
  "zslLexValueLteMax v spec \<longleftrightarrow> (case lx_max spec of Minstring \<Rightarrow> False | Maxstring \<Rightarrow> True | Lex w \<Rightarrow> if lx_maxex spec then v < w else v \<le> w)"
  by (auto simp: zslLexValueGteMin_def zslLexValueLteMax_def text_cmp_less text_cmp_le text_cmp_greater split: lexbound.split)

lemma lex_range_mono:
  fixes ks :: "('s::linorder \<times> string) list"
  assumes "sorted_wrt (<) ks" and "\<forall>j \<in> set ks. \<forall>k \<in> set ks. fst j = fst k"
  shows "monotone_on_list (lex_min spec) (lex_max spec) ks"
  unfolding monotone_on_list_def
proof (rule sorted_wrt_mono_rel [OF _ assms(1)])
  fix j k :: "'s \<times> string"
  assume jk: "j \<in> set ks" "k \<in> set ks" "j < k"
  have "fst j = fst k" by (rule assms(2) [rule_format, OF jk(1,2)])
  then have "snd j < snd k" using jk(3) by (simp add: less_prod_def)
  then show "(lex_min spec j \<longrightarrow> lex_min spec k) \<and> (lex_max spec k \<longrightarrow> lex_max spec j)"
    by (auto simp: lex_value split: lexbound.splits)
qed

lemma empty_lex_range_none: "empty_lex_range spec \<Longrightarrow> \<forall>k. \<not> (lex_min spec k \<and> lex_max spec k)"
  by (cases "lx_min spec"; cases "lx_max spec") (auto simp: empty_lex_range_def lex_value Let_def text_cmp_greater text_cmp_eq split: if_splits)

text \<open>The ends of a range are the least and the greatest of its pairs; its deletion leaves the rest of the map.\<close>

lemma range_ends:
  assumes z: "zset_rep h zs as" and g: "tests gte G" and l: "tests lte L" and m: "monotone_on_list G L (map (key h) as)"
    and never: "never \<Longrightarrow> \<forall>k. \<not> (G k \<and> L k)"
  defines "S \<equiv> range_keys (zset_abs h zs) (\<lambda>k. G k \<and> L k)"
  shows "map_option (map_option (key h)) (first_in_range_gen never gte lte (zs_zsl zs) h) = Some (if S = {} then None else Some (Min S))"
    and "map_option (map_option (key h)) (last_in_range_gen never gte lte (zs_zsl zs) h) = Some (if S = {} then None else Some (Max S))"
proof -
  define ms where "ms = filter (\<lambda>a. G (key h a) \<and> L (key h a)) as"
  have rep: "zsl_rep h (zs_zsl zs) as" using z by (simp add: zset_rep_def)
  have S: "S = key h ` set ms" unfolding S_def ms_def by (rule range_keys_list [OF z])
  have "sorted_wrt (\<lambda>a b. key h a < key h b) as" using sorted_keys [OF z] by (simp add: sorted_wrt_map)
  then have sorted: "sorted_wrt (<) (map (key h) ms)" unfolding sorted_wrt_map ms_def by (rule sorted_wrt_filter)
  have ends: "key h (hd ms) = Min S" "key h (last ms) = Max S" if "ms \<noteq> []"
    unfolding S by (rule sorted_ends [OF sorted that])+
  have empty: "S = {} \<longleftrightarrow> ms = []" unfolding S by (simp only: image_is_empty set_empty)
  have "first_in_range_gen never gte lte (zs_zsl zs) h = Some (if ms = [] then None else Some (hd ms))"
    by (rule first_in_range [OF rep g l m, unfolded Let_def, folded ms_def]) (rule never)
  then show "map_option (map_option (key h)) (first_in_range_gen never gte lte (zs_zsl zs) h) = Some (if S = {} then None else Some (Min S))"
    unfolding empty by (simp add: ends)
  have "last_in_range_gen never gte lte (zs_zsl zs) h = Some (if ms = [] then None else Some (last ms))"
    by (rule last_in_range [OF rep g l m, unfolded Let_def, folded ms_def]) (rule never)
  then show "map_option (map_option (key h)) (last_in_range_gen never gte lte (zs_zsl zs) h) = Some (if S = {} then None else Some (Max S))"
    unfolding empty by (simp add: ends)
qed

lemma card_keys: "zset_rep h zs as \<Longrightarrow> set bs \<subseteq> set as \<Longrightarrow> distinct bs \<Longrightarrow> card (key h ` set bs) = length bs"
proof -
  assume z: "zset_rep h zs as" and bs: "set bs \<subseteq> set as" "distinct bs"
  have "inj_on (key h) (set bs)" using inj_on_subset [OF zset_keys_dom(2) [OF z] bs(1)] by (metis (no_types, lifting) inj_on_def)
  then show ?thesis using bs(2) by (simp add: card_image distinct_card)
qed

lemma delete_range_keys:
  assumes z: "zset_rep h zs as" and g: "tests gte G" and l: "tests lte L" and m: "monotone_on_list G L (map (key h) as)"
  defines "S \<equiv> range_keys (zset_abs h zs) (\<lambda>k. G k \<and> L k)"
  obtains h' zsl' d bs where "delete_range_gen (\<lambda>_ n. map_option Not (gte n)) (\<lambda>_. lte) (zs_dict zs) (zs_zsl zs) h = Some (h', zsl', d, card S)"
    "zset_rep h' \<lparr>zs_dict = d, zs_zsl = zsl'\<rparr> bs" "zset_abs h' \<lparr>zs_dict = d, zs_zsl = zsl'\<rparr> = zset_abs h zs |` (- (snd ` S))"
proof -
  define us ms vs where "us = filter (\<lambda>a. \<not> G (key h a)) as" and "ms = filter (\<lambda>a. G (key h a) \<and> L (key h a)) as"
    and "vs = filter (\<lambda>a. G (key h a) \<and> \<not> L (key h a)) as"
  have split: "us @ ms @ vs = as" using range_parts(1) [OF m] by (simp add: us_def ms_def vs_def)
  have rep: "zsl_rep h (zs_zsl zs) as" using z by (simp add: zset_rep_def)
  have z': "zset_rep h zs (us @ ms @ vs)" using z split by simp
  have fit: "fits h (\<lambda>_ n. map_option Not (gte n)) us (ms @ vs)"
    by (rule fits_key [where P = "\<lambda>a. \<not> G (key h a)"]) (use tests_at [OF g rep] split in \<open>auto simp: us_def ms_def vs_def\<close>)
  have inside: "\<forall>i < length ms. L (key h (ms ! i))" using nth_mem by (fastforce simp: ms_def)
  have outside: "vs \<noteq> [] \<Longrightarrow> \<not> L (key h (hd vs))" using hd_in_set by (fastforce simp: vs_def)
  have S: "S = key h ` set ms" unfolding S_def ms_def by (rule range_keys_list [OF z])
  have "distinct ms" "set ms \<subseteq> set as" using zset_keys_dom(3) [OF z] by (auto simp: ms_def)
  then have "card S = length ms" unfolding S using card_keys [OF z] by blast
  then show thesis using delete_range_rep [OF z' fit, of "\<lambda>_. lte" "\<lambda>_. L"] l inside outside that unfolding S by metis
qed

section \<open>Ranks\<close>

lemma up_to_key: "zn_ele (node h a) \<noteq> None \<Longrightarrow> up_to score ele r (node h a) = Some (key h a \<le> (score, ele))"
  by (auto simp: up_to_def key_def text_cmp_le)

lemma up_to_fits:
  assumes rep: "zsl_rep h zsl (us @ x # vs)" and x: "key h x = (score, ele)"
  shows "fits h (up_to score ele) (us @ [x]) vs"
proof (rule fits_key [where P = "\<lambda>a. key h a \<le> (score, ele)"])
  have order: "zsl_order h (zsl_header zsl) (us @ x # vs)" using rep by (simp add: zsl_rep_def)
  show "up_to score ele r (node h a) = Some (key h a \<le> (score, ele))" if a: "a \<in> set ((us @ [x]) @ vs)" for a r
    using order a by (intro up_to_key) (auto simp: zsl_order_def)
  show "\<forall>a \<in> set (us @ [x]). key h a \<le> (score, ele)" "\<forall>a \<in> set vs. \<not> key h a \<le> (score, ele)"
    unfolding x [symmetric] using order by (auto simp: zsl_order_def sorted_wrt_append not_le less_imp_le)
qed

lemma rank_loop_at:
  assumes rep: "zsl_rep h zsl (us @ x # vs)" and x: "key h x = (score, ele)"
  shows "0 < k \<Longrightarrow> k \<le> zsl_level zsl \<Longrightarrow> zsl_header zsl # us @ [x] = xs @ y # ys \<Longrightarrow> k \<le> ht h y \<Longrightarrow>
    rank_loop h score ele k y (length xs) = Some (length us + 1)"
proof (induction k arbitrary: xs y ys)
  case (Suc k)
  let ?hdr = "zsl_header zsl"
  have R: "zsl_nodes h ?hdr (zsl_level zsl) ((us @ [x]) @ vs)" "zsl_links h ?hdr (zsl_level zsl) ((us @ [x]) @ vs)"
    and order: "zsl_order h ?hdr (us @ x # vs)" using rep by (simp_all add: zsl_rep_def)
  have kl: "k < zsl_level zsl" "k < ht h y" using Suc.prems by simp_all
  obtain u r where ur: "zsl_walk h (up_to score ele) k y (length xs) = Some (u, r)" "goes_down (ht h) (?hdr # us @ [x]) k (u, r)"
    using walk_down [OF R up_to_fits [OF rep x] kl(1) Suc.prems(3) kl(2)] by (metis prod.exhaust)
  then obtain ps qs where s: "?hdr # us @ [x] = ps @ u # qs" "r = length ps" "k < ht h u" by (auto simp: goes_down_def)
  have u: "u \<in> set (?hdr # us @ [x])" using arg_cong [OF s(1), of set] by auto
  have hu: "h u = Some (node h u)" by (rule in_heap [OF R(1)]) (use u in auto)
  show ?case
  proof (cases "u = x")
    case True
    have "distinct (?hdr # us @ [x])" using R(1) by (simp add: zsl_nodes_def)
    then have "qs = []" using s(1) True by (cases qs rule: rev_cases) auto
    then have "length ps = length us + 1" using arg_cong [OF s(1), of length] by simp
    moreover have "zn_ele (node h u) = Some ele" using rep_at(2) [OF rep, of x] x True by simp
    ultimately show ?thesis using ur(1) hu s(2) by (simp add: text_cmp_eq)
  next
    case False
    have other: "\<not> (case zn_ele (node h u) of None \<Rightarrow> False | Some e \<Rightarrow> text_cmp e ele = 0)"
    proof (cases "u = ?hdr")
      case True
      then show ?thesis using order by (simp add: zsl_order_def)
    next
      case nh: False
      then have m: "u \<in> set (us @ x # vs)" using u by auto
      have "snd (key h u) \<noteq> ele" using key_inj [OF rep m, of x] False x by auto
      then show ?thesis using rep_at(2) [OF rep m] by (simp add: text_cmp_eq)
    qed
    have "0 < k"
    proof (rule ccontr)
      assume "\<not> 0 < k"
      then have "goes_down (ht h) (?hdr # us @ [x]) 0 (u, r)" using ur(2) by simp
      from goes_down_bottom(1) [OF this] R(1) False show False by (simp add: zsl_nodes_def)
    qed
    then have "rank_loop h score ele k u (length ps) = Some (length us + 1)" using Suc.IH [OF _ _ s(1)] Suc.prems(2) s(3) by simp
    then show ?thesis using ur(1) hu s(2) other by simp
  qed
qed simp

lemma zslGetRank_at:
  assumes rep: "zsl_rep h zsl (us @ x # vs)" and x: "key h x = (score, ele)"
  shows "zslGetRank score ele zsl h = Some (length us + 1)"
proof -
  have nodes: "zsl_nodes h (zsl_header zsl) (zsl_level zsl) (us @ x # vs)" using rep by (simp add: zsl_rep_def)
  then have "0 < zsl_level zsl" "zsl_level zsl \<le> ht h (zsl_header zsl)" by (simp_all add: zsl_nodes_def)
  from rank_loop_at [OF rep x this(1) order_refl _ this(2), of "[]"] show ?thesis by (simp add: zslGetRank_def)
qed

lemma by_rank_fits:
  assumes "length us = rank \<or> (vs = [] \<and> length us < rank)"
  shows "fits h (\<lambda>r _. Some (r \<le> rank)) us vs"
  unfolding fits_def
proof (intro allI impI)
  fix xs a ys
  assume s: "us @ vs = xs @ a # ys"
  have "length us + length vs = Suc (length xs + length ys)" using arg_cong [OF s, of length] by simp
  then show "Some (length xs + 1 \<le> rank) = Some (length xs < length us)" using assms by auto
qed

lemma by_rank_loop_at:
  assumes R: "zsl_nodes h hdr lev (us @ vs)" "zsl_links h hdr lev (us @ vs)" and us: "length us = rank \<or> (vs = [] \<and> length us < rank)"
  shows "k \<le> lev \<Longrightarrow> hdr # us = xs @ y # ys \<Longrightarrow> k \<le> ht h y \<Longrightarrow> 0 < k \<Longrightarrow>
      by_rank_loop h rank k y (length xs) = Some (if length us = rank then Some (last (hdr # us)) else None)"
proof (induction k arbitrary: xs y ys)
  case (Suc k)
  have kl: "k < lev" "k < ht h y" using Suc.prems by simp_all
  obtain u r where ur: "zsl_walk h (\<lambda>r _. Some (r \<le> rank)) k y (length xs) = Some (u, r)" "goes_down (ht h) (hdr # us) k (u, r)"
    using walk_down [OF R by_rank_fits [OF us] kl(1) Suc.prems(2) kl(2)] by (metis prod.exhaust)
  then obtain ps qs where s: "hdr # us = ps @ u # qs" "r = length ps" "k < ht h u" by (auto simp: goes_down_def)
  have len: "length us = length ps + length qs" using arg_cong [OF s(1), of length] by simp
  show ?case
  proof (cases "length ps = rank")
    case True
    then have "qs = []" using len us by auto
    then have "last (hdr # us) = u" "length us = rank" using s(1) True len by simp_all
    then show ?thesis using ur(1) s(2) True by simp
  next
    case False
    have "by_rank_loop h rank k u (length ps) = Some (if length us = rank then Some (last (hdr # us)) else None)"
    proof (cases "k = 0")
      case True
      then have "goes_down (ht h) (hdr # us) 0 (u, r)" using ur(2) by simp
      moreover have "\<forall>a \<in> set us. 1 \<le> ht h a" using R(1) by (simp add: zsl_nodes_def)
      ultimately have "r = length us" by (rule goes_down_bottom(2))
      then show ?thesis using True False s(2) by simp
    next
      case nz: False
      then show ?thesis using Suc.IH [OF _ s(1)] kl(1) s(3) by simp
    qed
    then show ?thesis using ur(1) s(2) False by simp
  qed
qed simp

lemma zslGetElementByRank_at:
  assumes rep: "zsl_rep h zsl as"
  shows "zslGetElementByRank rank zsl h = Some (if rank \<le> length as then Some ((zsl_header zsl # as) ! rank) else None)"
proof -
  have "zsl_nodes h (zsl_header zsl) (zsl_level zsl) (take rank as @ drop rank as)" "zsl_links h (zsl_header zsl) (zsl_level zsl) (take rank as @ drop rank as)"
    using rep by (simp_all add: zsl_rep_def)
  moreover have "0 < zsl_level zsl" "zsl_level zsl \<le> ht h (zsl_header zsl)" using rep by (simp_all add: zsl_rep_def zsl_nodes_def)
  moreover have "length (take rank as) = rank \<or> (drop rank as = [] \<and> length (take rank as) < rank)" by auto
  ultimately have "zslGetElementByRank rank zsl h = Some (if length (take rank as) = rank then Some (last (zsl_header zsl # take rank as)) else None)"
    unfolding zslGetElementByRank_def using by_rank_loop_at [of h "zsl_header zsl" "zsl_level zsl" "take rank as" "drop rank as" rank "zsl_level zsl" "[]"] by simp
  moreover have "last (zsl_header zsl # take rank as) = (zsl_header zsl # as) ! rank" if "rank \<le> length as"
    using that by (cases rank) (auto simp: last_conv_nth min_def)
  ultimately show ?thesis by (auto simp: min_def)
qed

text \<open>The rank of a pair in a map: the number of smaller pairs.\<close>

definition rank_of :: "(string \<rightharpoonup> 's::linorder) \<Rightarrow> 's \<times> string \<Rightarrow> nat" where
  "rank_of m k = card (range_keys m (\<lambda>j. j < k))"

lemma sorted_filter_less:
  "sorted_wrt (<) (map f (us @ x # vs)) \<Longrightarrow> filter (\<lambda>a. f a < f x) (us @ x # vs) = us \<and> filter (\<lambda>a. f x < f a) (us @ x # vs) = vs"
  for f :: "'a \<Rightarrow> 'b::linorder"
  by (auto simp: sorted_wrt_append filter_id_conv filter_empty_conv dest: less_not_sym)

lemma rank_of_at:
  assumes z: "zset_rep h zs (us @ x # vs)"
  shows "rank_of (zset_abs h zs) (key h x) = length us" "card (range_keys (zset_abs h zs) (\<lambda>j. key h x < j)) = length vs"
proof -
  note f = sorted_filter_less [OF sorted_keys [OF z]]
  have d: "distinct us" "distinct vs" "set us \<subseteq> set (us @ x # vs)" "set vs \<subseteq> set (us @ x # vs)" using zset_keys_dom(3) [OF z] by auto
  show "rank_of (zset_abs h zs) (key h x) = length us" unfolding rank_of_def range_keys_list [OF z] f [THEN conjunct1] by (rule card_keys [OF z d(3,1)])
  show "card (range_keys (zset_abs h zs) (\<lambda>j. key h x < j)) = length vs" unfolding range_keys_list [OF z] f [THEN conjunct2] by (rule card_keys [OF z d(4,2)])
qed

lemma zsetRank_at:
  assumes z: "zset_rep h zs as"
  shows "zsetRank ele reverse zs h = Some (case zset_abs h zs ele of None \<Rightarrow> - 1
    | Some s \<Rightarrow> if reverse then int (card (range_keys (zset_abs h zs) (\<lambda>j. (s, ele) < j))) else int (rank_of (zset_abs h zs) (s, ele)))"
proof (cases "zs_dict zs ele")
  case None
  then show ?thesis using zset_rep_new(2) [OF z None] by (simp add: zsetRank_def)
next
  case (Some x)
  note e = zset_rep_dict [OF z Some]
  obtain us vs where as: "as = us @ x # vs" using e(1) by (meson split_list)
  have rep: "zsl_rep h (zs_zsl zs) (us @ x # vs)" using z as by (simp add: zset_rep_def)
  have len: "zsetLength zs = length us + 1 + length vs" using zsetLength_refines(2) [OF z] as by simp
  show ?thesis unfolding zsetRank_def Some option.case e(3) bind.bind_lunit zslGetRank_at [OF rep e(2)] e(4) e(2) [symmetric]
      rank_of_at [OF z [unfolded as]] len by simp
qed

lemma by_rank_key:
  assumes z: "zset_rep h zs as" and k: "zset_abs h zs ele = Some s"
  shows "zslGetElementByRank (rank_of (zset_abs h zs) (s, ele) + 1) (zs_zsl zs) h = Some (zs_dict zs ele)"
proof -
  obtain x where x: "zs_dict zs ele = Some x" "s = zn_score (node h x)" using k zset_rep_dict(4) [OF z] by (auto simp: zset_abs_def)
  note e = zset_rep_dict [OF z x(1)]
  obtain us vs where as: "as = us @ x # vs" using e(1) by (meson split_list)
  have rep: "zsl_rep h (zs_zsl zs) (us @ x # vs)" using z as by (simp add: zset_rep_def)
  have "rank_of (zset_abs h zs) (s, ele) = length us" using rank_of_at(1) [OF z [unfolded as]] e(2) x(2) by simp
  then show ?thesis unfolding zslGetElementByRank_at [OF rep] x(1) by simp
qed

text \<open>The ranks of a range, counted from one as in the arguments of \<^verbatim>\<open>zslDeleteRangeByRank\<close>.\<close>

lemma range_rank_keys:
  assumes z: "zset_rep h zs as"
  shows "range_keys (zset_abs h zs) (\<lambda>k. first \<le> rank_of (zset_abs h zs) k + 1 \<and> rank_of (zset_abs h zs) k + 1 \<le> until) =
    key h ` set (drop (first - 1) (take until as))"
proof -
  have pos: "rank_of (zset_abs h zs) (key h (as ! i)) = i" if i: "i < length as" for i
    using rank_of_at(1) [of h zs "take i as" "as ! i" "drop (Suc i) as"] z i by (simp add: id_take_nth_drop [symmetric])
  have "a \<in> set as \<and> first \<le> rank_of (zset_abs h zs) (key h a) + 1 \<and> rank_of (zset_abs h zs) (key h a) + 1 \<le> until \<longleftrightarrow>
    a \<in> set (drop (first - 1) (take until as))" for a
  proof
    assume "a \<in> set as \<and> first \<le> rank_of (zset_abs h zs) (key h a) + 1 \<and> rank_of (zset_abs h zs) (key h a) + 1 \<le> until"
    then obtain i where "i < length as" "a = as ! i" "first - 1 \<le> i" "i < until" using pos by (fastforce simp: in_set_conv_nth)
    then show "a \<in> set (drop (first - 1) (take until as))" unfolding in_set_conv_nth by (intro exI [of _ "i - (first - 1)"]) auto
  next
    assume "a \<in> set (drop (first - 1) (take until as))"
    then obtain j where "j < min until (length as) - (first - 1)" "a = drop (first - 1) (take until as) ! j" by (auto simp: in_set_conv_nth min.commute)
    moreover from this(1) have "first - 1 \<le> length (take until as)" "first - 1 + j < until" by auto
    ultimately have j: "j < min until (length as) - (first - 1)" "a = as ! (first - 1 + j)" by simp_all
    have i: "first - 1 + j < length as" "first - 1 + j < until" using j(1) by auto
    show "a \<in> set as \<and> first \<le> rank_of (zset_abs h zs) (key h a) + 1 \<and> rank_of (zset_abs h zs) (key h a) + 1 \<le> until"
      using i unfolding j(2) pos [OF i(1)] by auto
  qed
  then have "{a \<in> set as. first \<le> rank_of (zset_abs h zs) (key h a) + 1 \<and> rank_of (zset_abs h zs) (key h a) + 1 \<le> until} =
    set (drop (first - 1) (take until as))" by blast
  then show ?thesis unfolding range_keys_list [OF z] set_filter by simp
qed

lemma delete_range_ranks:
  fixes first until :: nat
  assumes z: "zset_rep h zs as"
  defines "S \<equiv> range_keys (zset_abs h zs) (\<lambda>k. first \<le> rank_of (zset_abs h zs) k + 1 \<and> rank_of (zset_abs h zs) k + 1 \<le> until)"
  obtains h' zsl' d bs where "zslDeleteRangeByRank first until (zs_dict zs) (zs_zsl zs) h = Some (h', zsl', d, card S)"
    "zset_rep h' \<lparr>zs_dict = d, zs_zsl = zsl'\<rparr> bs" "zset_abs h' \<lparr>zs_dict = d, zs_zsl = zsl'\<rparr> = zset_abs h zs |` (- (snd ` S))"
proof -
  define us ms vs where "us = take (first - 1) as" and "ms = drop (first - 1) (take until as)" and "vs = drop (max (first - 1) until) as"
  have split: "us @ ms @ vs = as"
  proof (cases "first - 1 \<le> until")
    case True
    then have "us @ ms = take until as" unfolding us_def ms_def by (metis append_take_drop_id min.absorb1 take_take)
    then show ?thesis using True unfolding vs_def by (metis append.assoc append_take_drop_id max.absorb2)
  next
    case False
    then show ?thesis by (simp add: us_def ms_def vs_def max_def)
  qed
  have z': "zset_rep h zs (us @ ms @ vs)" using z split by simp
  have fit: "fits h (\<lambda>r _. Some (r < first)) us (ms @ vs)"
    unfolding fits_def split
  proof (intro allI impI)
    fix xs a ys
    assume "as = xs @ a # ys"
    then show "Some (length xs + 1 < first) = Some (length xs < length us)" by (auto simp: us_def)
  qed
  have I: "tests (\<lambda>_. Some (r \<le> until)) (\<lambda>_. r \<le> until)" for r by (simp add: tests_def)
  have inside: "\<forall>i < length ms. length us + 1 + i \<le> until" by (auto simp: us_def ms_def)
  have outside: "\<not> length us + 1 + length ms \<le> until" if ne: "vs \<noteq> []"
  proof -
    have "\<not> length as \<le> max (first - 1) until" using ne by (simp add: vs_def)
    then have "first - 1 < length as" "until < length as" by linarith+
    then show ?thesis by (auto simp: us_def ms_def)
  qed
  have S: "S = key h ` set ms" unfolding S_def ms_def by (rule range_rank_keys [OF z])
  have "distinct ms" "set ms \<subseteq> set as" using zset_keys_dom(3) [OF z] by (auto simp: ms_def dest: in_set_dropD in_set_takeD)
  then have "card S = length ms" unfolding S using card_keys [OF z] by blast
  then show thesis using delete_range_rep [OF z' fit, of "\<lambda>r _. Some (r \<le> until)" "\<lambda>r _. r \<le> until"] I inside outside that
    unfolding S zslDeleteRangeByRank_def by metis
qed

end
