(* ===== verification/Zset_Session.thy ===== *)
theory Zset_Session
  imports Zset_Range "HOL-Library.Code_Target_Nat"
begin

text \<open>
  Sessions of operations on a sorted set. Any sequence of additions, removals, removals of ranges and lookups, from the
  empty set on, answers like a finite map from elements to scores, and every state on the way is well formed.
\<close>

section \<open>Simulations\<close>

fun run_steps :: "('o \<Rightarrow> 'c \<Rightarrow> ('c \<times> 'r) option) \<Rightarrow> 'o list \<Rightarrow> 'c \<Rightarrow> ('c \<times> 'r list) option" where
  "run_steps step [] c = Some (c, [])"
| "run_steps step (x # xs) c = do { (c, r) \<leftarrow> step x c; (c, rs) \<leftarrow> run_steps step xs c; Some (c, r # rs) }"

fun run_spec :: "('o \<Rightarrow> 'a \<Rightarrow> 'a \<times> 'r) \<Rightarrow> 'o list \<Rightarrow> 'a \<Rightarrow> 'a \<times> 'r list" where
  "run_spec spec [] a = (a, [])"
| "run_spec spec (x # xs) a = (let (a, r) = spec x a; (a, rs) = run_spec spec xs a in (a, r # rs))"

text \<open>Each operation is allowed in the state in which it is called.\<close>

fun run_ok :: "('o \<Rightarrow> 'c \<Rightarrow> ('c \<times> 'r) option) \<Rightarrow> ('o \<Rightarrow> 'c \<Rightarrow> bool) \<Rightarrow> 'o list \<Rightarrow> 'c \<Rightarrow> bool" where
  "run_ok step ok [] c = True"
| "run_ok step ok (x # xs) c = (ok x c \<and> (case step x c of None \<Rightarrow> True | Some (c, r) \<Rightarrow> run_ok step ok xs c))"

locale simulation =
  fixes step :: "'o \<Rightarrow> 'c \<Rightarrow> ('c \<times> 'r) option" and spec :: "'o \<Rightarrow> 'a \<Rightarrow> 'a \<times> 'r"
    and inv :: "'c \<Rightarrow> bool" and ok :: "'o \<Rightarrow> 'c \<Rightarrow> bool" and abs :: "'c \<Rightarrow> 'a"
  assumes forward: "inv c \<Longrightarrow> ok x c \<Longrightarrow> \<exists>c' r. step x c = Some (c', r) \<and> inv c' \<and> spec x (abs c) = (abs c', r)"
begin

lemma run_refines:
  "inv c \<Longrightarrow> run_ok step ok xs c \<Longrightarrow> \<exists>c' rs. run_steps step xs c = Some (c', rs) \<and> inv c' \<and> run_spec spec xs (abs c) = (abs c', rs)"
proof (induction xs arbitrary: c)
  case (Cons x xs)
  obtain c1 r where s: "step x c = Some (c1, r)" "inv c1" "spec x (abs c) = (abs c1, r)" using forward [OF Cons.prems(1), of x] Cons.prems(2) by auto
  then obtain c' rs where "run_steps step xs c1 = Some (c', rs)" "inv c'" "run_spec spec xs (abs c1) = (abs c', rs)"
    using Cons.IH [of c1] Cons.prems(2) by auto
  then show ?case using s by auto
qed simp

end

section \<open>Operations on a sorted set\<close>

datatype 's zop =
  Zadd "nat list" nat "nat option \<times> (nat \<Rightarrow> zlevel)" "'s option" string zadd_in
| Zrem string
| ZremByScore "'s zrangespec"
| ZremByLex zlexrangespec
| ZremByRank nat nat
| Zscore string
| Zcard

datatype 's zreply = Stored zadd_out "'s option" | Removed nat | Score "'s option" | Card nat

definition put_range :: "('s zheap \<times> zskiplist \<times> (string \<rightharpoonup> nat) \<times> nat) option \<Rightarrow> (('s zheap \<times> zset) \<times> 's zreply) option" where
  "put_range r = do { (h, zsl, d, n) \<leftarrow> r; Some ((h, \<lparr>zs_dict = d, zs_zsl = zsl\<rparr>), Removed n) }"

fun zset_step :: "('s \<Rightarrow> 's \<Rightarrow> 's option) \<Rightarrow> 's::linorder zop \<Rightarrow> 's zheap \<times> zset \<Rightarrow> (('s zheap \<times> zset) \<times> 's zreply) option" where
  "zset_step add (Zadd rs new junk score ele flags) (h, zs) =
     do { (h, zs, out, s) \<leftarrow> zsetAdd add rs new junk score ele flags zs h; Some ((h, zs), Stored out s) }"
| "zset_step add (Zrem ele) (h, zs) = do { (h, zs, b) \<leftarrow> zsetDel ele zs h; Some ((h, zs), Removed (if b then 1 else 0)) }"
| "zset_step add (ZremByScore spec) (h, zs) = put_range (zslDeleteRangeByScore spec (zs_dict zs) (zs_zsl zs) h)"
| "zset_step add (ZremByLex spec) (h, zs) = put_range (zslDeleteRangeByLex spec (zs_dict zs) (zs_zsl zs) h)"
| "zset_step add (ZremByRank first until) (h, zs) = put_range (zslDeleteRangeByRank first until (zs_dict zs) (zs_zsl zs) h)"
| "zset_step add (Zscore ele) (h, zs) = do { s \<leftarrow> zsetScore ele zs h; Some ((h, zs), Score s) }"
| "zset_step add Zcard (h, zs) = Some ((h, zs), Card (zsetLength zs))"

text \<open>The same operations on a finite map.\<close>

definition drop_keys :: "('s \<times> string) set \<Rightarrow> (string \<rightharpoonup> 's) \<Rightarrow> (string \<rightharpoonup> 's) \<times> 's zreply" where
  "drop_keys S m = (m |` (- (snd ` S)), Removed (card S))"

fun zset_spec :: "('s \<Rightarrow> 's \<Rightarrow> 's option) \<Rightarrow> 's::linorder zop \<Rightarrow> (string \<rightharpoonup> 's) \<Rightarrow> (string \<rightharpoonup> 's) \<times> 's zreply" where
  "zset_spec add (Zadd rs new junk score ele flags) m = (let (m, out, s) = zadd_spec add score ele flags m in (m, Stored out s))"
| "zset_spec add (Zrem ele) m = drop_keys (range_keys m (\<lambda>k. snd k = ele)) m"
| "zset_spec add (ZremByScore spec) m = drop_keys (range_keys m (\<lambda>k. zslValueGteMin (fst k) spec \<and> zslValueLteMax (fst k) spec)) m"
| "zset_spec add (ZremByLex spec) m = drop_keys (range_keys m (\<lambda>k. zslLexValueGteMin (snd k) spec \<and> zslLexValueLteMax (snd k) spec)) m"
| "zset_spec add (ZremByRank first until) m = drop_keys (range_keys m (\<lambda>k. first \<le> rank_of m k + 1 \<and> rank_of m k + 1 \<le> until)) m"
| "zset_spec add (Zscore ele) m = (m, Score (m ele))"
| "zset_spec add Zcard m = (m, Card (card (dom m)))"

text \<open>
  What the callers and the environment provide: a new node is at a free address, the random numbers end the loop that
  draws its level, the ranks fit their 32 bits, and a set that is used by a lexicographic range has one score.
\<close>

fun nodes_from :: "'s zheap \<Rightarrow> nat option \<Rightarrow> nat \<Rightarrow> nat list" where
  "nodes_from h p 0 = []"
| "nodes_from h p (Suc n) = (case p of None \<Rightarrow> [] | Some x \<Rightarrow> x # nodes_from h (Option.bind (get_level h x 0) zl_forward) n)"

definition zset_nodes :: "'s zheap \<Rightarrow> zset \<Rightarrow> nat list" where
  "zset_nodes h zs = nodes_from h (Option.bind (get_level h (zsl_header (zs_zsl zs)) 0) zl_forward) (zsl_length (zs_zsl zs))"

definition one_score :: "'s zheap \<Rightarrow> zset \<Rightarrow> bool" where
  "one_score h zs \<longleftrightarrow> (\<forall>a \<in> set (zset_nodes h zs). zn_score (the (h a)) = zn_score (the (h (hd (zset_nodes h zs)))))"

fun zset_ok :: "'s zop \<Rightarrow> 's zheap \<times> zset \<Rightarrow> bool" where
  "zset_ok (Zadd rs new junk score ele flags) (h, zs) \<longleftrightarrow> h new = None \<and> zslRandomLevel rs \<noteq> None \<and> zsetLength zs < 4294967296"
| "zset_ok (ZremByLex spec) (h, zs) \<longleftrightarrow> one_score h zs"
| "zset_ok _ _ \<longleftrightarrow> True"

section \<open>The operations refine those on the map\<close>

lemma nodes_from_rep: "zsl_rep h zsl (us @ vs) \<Longrightarrow> nodes_from h (if vs = [] then None else Some (hd vs)) (length vs) = vs"
proof (induction vs arbitrary: us)
  case (Cons v vs)
  obtain l where "get_level h v 0 = Some l" "zl_forward l = (if vs = [] then None else Some (hd vs))" by (rule bottom_link [OF Cons.prems])
  moreover have "zsl_rep h zsl ((us @ [v]) @ vs)" using Cons.prems by simp
  ultimately show ?case using Cons.IH [of "us @ [v]"] by simp
qed simp

lemma zset_nodes_rep:
  assumes "zset_rep h zs as"
  shows "zset_nodes h zs = as"
proof -
  have rep: "zsl_rep h (zs_zsl zs) ([] @ as)" using assms by (simp add: zset_rep_def)
  have fit: "fits h (\<lambda>_ _. Some False) [] as" by (simp add: fits_def)
  obtain l where "get_level h (zsl_header (zs_zsl zs)) 0 = Some l" "zl_forward l = (if as = [] then None else Some (hd as))"
    by (rule rep_seek [OF rep fit]) simp
  then show ?thesis using nodes_from_rep [OF rep] rep by (simp add: zset_nodes_def zsl_rep_def)
qed

lemma one_score_keys:
  assumes "zset_rep h zs as" and "one_score h zs"
  shows "\<forall>j \<in> set (map (key h) as). \<forall>k \<in> set (map (key h) as). fst j = fst k"
  using assms(2) unfolding one_score_def zset_nodes_rep [OF assms(1)] by (auto simp: key_def node_def)

definition state_abs :: "'s zheap \<times> zset \<Rightarrow> string \<rightharpoonup> 's" where
  "state_abs = (\<lambda>(h, zs). zset_abs h zs)"

definition state_wf :: "'s::linorder zheap \<times> zset \<Rightarrow> bool" where
  "state_wf = (\<lambda>(h, zs). zset_wf h zs)"

lemma zrem_spec: "drop_keys (range_keys m (\<lambda>k. snd k = ele)) m = (m(ele := None), Removed (if m ele \<noteq> None then 1 else 0))"
proof (cases "m ele")
  case None
  then have e: "range_keys m (\<lambda>k. snd k = ele) = {}" by (auto simp: range_keys_def)
  show ?thesis unfolding drop_keys_def e using None by (simp add: fun_upd_idem restrict_map_def)
next
  case (Some s)
  then have e: "range_keys m (\<lambda>k. snd k = ele) = {(s, ele)}" by (auto simp: range_keys_def)
  show ?thesis unfolding drop_keys_def e using Some by (auto simp: restrict_map_def)
qed

lemma range_step:
  assumes "R = Some (h', zsl', d, card S)" and "zset_rep h' \<lparr>zs_dict = d, zs_zsl = zsl'\<rparr> bs"
    and "zset_abs h' \<lparr>zs_dict = d, zs_zsl = zsl'\<rparr> = m |` (- (snd ` S))"
  shows "\<exists>c' r. put_range R = Some (c', r) \<and> state_wf c' \<and> drop_keys S m = (state_abs c', r)"
  using assms by (auto simp: put_range_def state_wf_def zset_wf_def drop_keys_def state_abs_def)

lemma zset_forward:
  assumes "state_wf c" and ok: "zset_ok x c"
  shows "\<exists>c' r. zset_step add x c = Some (c', r) \<and> state_wf c' \<and> zset_spec add x (state_abs c) = (state_abs c', r)"
proof -
  obtain h zs where c: "c = (h, zs)" by fastforce
  obtain as where z: "zset_rep h zs as" using assms(1) c by (auto simp: state_wf_def zset_wf_def)
  have sorted: "sorted_wrt (<) (map (key h) as)" by (rule sorted_keys [OF z])
  show ?thesis
  proof (cases x)
    case (Zadd rs new junk score ele flags)
    obtain level where ok': "h new = None" "zslRandomLevel rs = Some level" "length as < 4294967296"
      using ok c zsetLength_refines(2) [OF z] by (auto simp: Zadd)
    obtain h' zs' out s bs where a: "zsetAdd add rs new junk score ele flags zs h = Some (h', zs', out, s)" "zset_rep h' zs' bs"
      "zadd_spec add score ele flags (zset_abs h zs) = (zset_abs h' zs', out, s)" using zsetAdd_refines [OF z ok', of add junk score ele flags] by metis
    then show ?thesis unfolding Zadd c by (auto simp: state_wf_def zset_wf_def state_abs_def)
  next
    case (Zrem ele)
    obtain h' zs' bs where "zsetDel ele zs h = Some (h', zs', zset_abs h zs ele \<noteq> None)" "zset_rep h' zs' bs"
      "zset_abs h' zs' = (zset_abs h zs)(ele := None)" using zsetDel_refines [OF z, of ele] by metis
    then show ?thesis unfolding Zrem c zset_spec.simps zrem_spec by (auto simp: state_wf_def zset_wf_def state_abs_def)
  next
    case (ZremByScore spec)
    note keys = delete_range_keys [OF z tests_spec(1,2) score_range_mono [OF sorted], of spec]
    show ?thesis unfolding ZremByScore c zset_step.simps zset_spec.simps state_abs_def prod.case zslDeleteRangeByScore_def
      by (rule keys; rule range_step [unfolded state_abs_def]) (simp_all add: option.map)
  next
    case (ZremByLex spec)
    have one: "one_score h zs" using ok c by (simp add: ZremByLex)
    note keys = delete_range_keys [OF z tests_spec(3,4) lex_range_mono [OF sorted one_score_keys [OF z one]], of spec]
    show ?thesis unfolding ZremByLex c zset_step.simps zset_spec.simps state_abs_def prod.case zslDeleteRangeByLex_def
      by (rule keys; rule range_step [unfolded state_abs_def]) (simp_all add: option.map_comp comp_def)
  next
    case (ZremByRank first until)
    show ?thesis unfolding ZremByRank c zset_step.simps zset_spec.simps state_abs_def prod.case
      by (rule delete_range_ranks [OF z, of first until]; rule range_step [unfolded state_abs_def]) simp_all
  next
    case (Zscore ele)
    then show ?thesis using zsetScore_refines [OF z, of ele] assms(1) c by (simp add: state_abs_def)
  next
    case Zcard
    then show ?thesis using zsetLength_refines(1) [OF z] assms(1) c by (simp add: state_abs_def)
  qed
qed

interpretation sorted_set: simulation "zset_step add" "zset_spec add" state_wf zset_ok state_abs for add :: "'s::linorder \<Rightarrow> 's \<Rightarrow> 's option"
  by unfold_locales (rule zset_forward)

text \<open>The states that a new sorted set can reach.\<close>

inductive zset_reach :: "('s \<Rightarrow> 's \<Rightarrow> 's option) \<Rightarrow> 's::{linorder,zero} zheap \<times> zset \<Rightarrow> bool" for add where
  created: "zslCreate new junk Map.empty = (h, zsl) \<Longrightarrow> zset_reach add (h, \<lparr>zs_dict = Map.empty, zs_zsl = zsl\<rparr>)"
| stepped: "zset_reach add c \<Longrightarrow> zset_ok x c \<Longrightarrow> zset_step add x c = Some (c', r) \<Longrightarrow> zset_reach add c'"

lemma created_wf: "zslCreate new junk Map.empty = (h, zsl) \<Longrightarrow> state_wf (h, \<lparr>zs_dict = Map.empty, zs_zsl = zsl\<rparr>)"
  unfolding state_wf_def zset_wf_def prod.case by (rule exI, rule zset_rep_create)

lemma zset_reach_wf: "zset_reach add c \<Longrightarrow> state_wf c"
proof (induction rule: zset_reach.induct)
  case (stepped c x c' r)
  then show ?case using zset_forward [OF stepped.IH stepped.hyps(2), of add] by auto
qed (rule created_wf)

lemma zset_reach_run:
  "zset_reach add c \<Longrightarrow> run_ok (zset_step add) zset_ok xs c \<Longrightarrow> run_steps (zset_step add) xs c = Some (c', rs) \<Longrightarrow> zset_reach add c'"
proof (induction xs arbitrary: c rs)
  case (Cons x xs)
  then obtain c1 r rs' where s: "zset_step add x c = Some (c1, r)" "run_steps (zset_step add) xs c1 = Some (c', rs')" by (auto simp: bind_eq_Some_conv)
  have "zset_reach add c1" by (rule zset_reach.stepped [OF Cons.prems(1) _ s(1)]) (use Cons.prems(2) in simp)
  then show ?case using Cons.IH [OF _ _ s(2)] Cons.prems(2) s(1) by simp
qed simp

lemma zset_wf_nodes: "zset_wf h zs \<longleftrightarrow> zset_rep h zs (zset_nodes h zs)"
  using zset_nodes_rep by (auto simp: zset_wf_def)

section \<open>A sample set\<close>

declare zsl_walk.simps [code] delete_loop.simps [code]

definition sample_junk :: "nat option \<times> (nat \<Rightarrow> zlevel)" where
  "sample_junk = (Some 77, \<lambda>i. \<lparr>zl_forward = Some 99, zl_span = i\<rparr>)"

definition sample_add :: "int \<Rightarrow> int \<Rightarrow> int option" where
  "sample_add a b = Some (a + b)"

abbreviation plain_flags :: zadd_in where
  "plain_flags \<equiv> \<lparr>za_incr = False, za_nx = False, za_xx = False, za_gt = False, za_lt = False\<rparr>"

definition sample_ops :: "int zop list" where
  "sample_ops = [Zadd [0, 65535] 1 sample_junk (Some 3) ''a'' plain_flags, Zadd [65535] 2 sample_junk (Some 1) ''b'' plain_flags,
     Zadd [0, 0, 65535] 3 sample_junk (Some 2) ''c'' plain_flags, Zadd [65535] 4 sample_junk (Some 5) ''b'' (plain_flags\<lparr>za_incr := True\<rparr>),
     Zadd [65535] 5 sample_junk (Some 9) ''d'' plain_flags, Zadd [0, 65535] 6 sample_junk (Some 4) ''d'' (plain_flags\<lparr>za_gt := True\<rparr>),
     Zrem ''a'', Zadd [65535] 7 sample_junk (Some 9) ''e'' plain_flags, ZremByScore \<lparr>zr_min = 2, zr_max = 6, zr_minex = True, zr_maxex = False\<rparr>,
     Zscore ''c'', Zcard]"

definition sample_start :: "int zheap \<times> zset" where
  "sample_start = (let (h, zsl) = zslCreate 0 sample_junk Map.empty in (h, \<lparr>zs_dict = Map.empty, zs_zsl = zsl\<rparr>))"

definition sample_set :: "int zheap \<times> zset" where
  "sample_set = fst (the (run_steps (zset_step sample_add) sample_ops sample_start))"

lemma sample_ok: "run_ok (zset_step sample_add) zset_ok sample_ops sample_start"
  by code_simp

lemma sample_start_created:
  obtains h zsl where "zslCreate 0 sample_junk Map.empty = (h, zsl)" "sample_start = (h, \<lparr>zs_dict = Map.empty, zs_zsl = zsl\<rparr>)"
proof -
  obtain h zsl where c: "(zslCreate 0 sample_junk Map.empty :: int zheap \<times> zskiplist) = (h, zsl)" by fastforce
  then show thesis using that [OF c] by (simp add: sample_start_def)
qed

lemma sample_start_wf: "state_wf sample_start"
proof -
  obtain h zsl where c: "zslCreate 0 sample_junk Map.empty = (h, zsl)" and s: "sample_start = (h, \<lparr>zs_dict = Map.empty, zs_zsl = zsl\<rparr>)"
    by (rule sample_start_created)
  show ?thesis unfolding s by (rule created_wf [OF c])
qed

lemma sample_set_wf: "state_wf sample_set"
  using sorted_set.run_refines [OF sample_start_wf sample_ok] by (auto simp: sample_set_def)

text \<open>A set with one score, for lexicographic ranges.\<close>

definition sample_lex_ops :: "int zop list" where
  "sample_lex_ops = [Zadd [0, 65535] 1 sample_junk (Some 1) ''ba'' plain_flags, Zadd [65535] 2 sample_junk (Some 1) ''a'' plain_flags,
     Zadd [65535] 3 sample_junk (Some 1) ''b'' plain_flags]"

definition sample_lex :: "int zheap \<times> zset" where
  "sample_lex = fst (the (run_steps (zset_step sample_add) sample_lex_ops sample_start))"

lemma sample_lex_wf: "zset_wf (fst sample_lex) (snd sample_lex)"
proof -
  have "run_ok (zset_step sample_add) zset_ok sample_lex_ops sample_start" by code_simp
  then have "state_wf sample_lex" using sorted_set.run_refines [OF sample_start_wf, of sample_add sample_lex_ops] by (auto simp: sample_lex_def)
  then show ?thesis by (simp add: state_wf_def split_beta)
qed

lemma sample_set_nodes: "zset_nodes (fst sample_set) (snd sample_set) = [3, 5, 7]"
  by code_simp

section \<open>Properties\<close>

text \<open>
  C3. A sorted set answers like a finite map from elements to scores. Every sequence of calls of \<^verbatim>\<open>zsetAdd\<close> with any flags,
  \<^verbatim>\<open>zsetDel\<close>, the three functions that delete a range, \<^verbatim>\<open>zsetScore\<close> and \<^verbatim>\<open>zsetLength\<close> on a new set runs without a failed assertion
  or an invalid access, gives the replies of the same operations on the map, and ends with the map as contents.
\<close>

theorem zset_session_correct:
  assumes "zslCreate new junk Map.empty = (h, zsl)" and "run_ok (zset_step add) zset_ok xs (h, \<lparr>zs_dict = Map.empty, zs_zsl = zsl\<rparr>)"
  shows "\<exists>c rs. run_steps (zset_step add) xs (h, \<lparr>zs_dict = Map.empty, zs_zsl = zsl\<rparr>) = Some (c, rs) \<and>
    run_spec (zset_spec add) xs Map.empty = (state_abs c, rs)"
proof -
  have "state_abs (h, \<lparr>zs_dict = Map.empty, zs_zsl = zsl\<rparr>) = Map.empty" by (auto simp: state_abs_def zset_abs_def)
  then show ?thesis using sorted_set.run_refines [OF created_wf [OF assms(1)] assms(2)] by metis
qed

theorem zset_session_correct_witness:
  "run_ok (zset_step sample_add) zset_ok sample_ops sample_start \<and>
   (\<exists>c rs. run_steps (zset_step sample_add) sample_ops sample_start = Some (c, rs) \<and>
      run_spec (zset_spec sample_add) sample_ops Map.empty = (state_abs c, rs))"
proof -
  obtain h zsl where c: "zslCreate 0 sample_junk Map.empty = (h, zsl)" and s: "sample_start = (h, \<lparr>zs_dict = Map.empty, zs_zsl = zsl\<rparr>)"
    by (rule sample_start_created)
  show ?thesis using zset_session_correct [OF c, of sample_add sample_ops] sample_ok unfolding s by blast
qed

text \<open>
  C7. Well-formedness and progress. In every state that a new sorted set reaches, the nodes on the lowest level are strictly
  increasing in score and element, every link of every level leads to the next node that is high enough and has the distance
  as its span, the backward pointers and the tail agree, the dictionary leads exactly to these nodes, no node is leaked, and every
  operation that is called as it should be returns.
\<close>

theorem zset_states_typed:
  assumes "zset_reach add (h, zs)"
  shows "zset_rep h zs (zset_nodes h zs) \<and> (\<forall>x. zset_ok x (h, zs) \<longrightarrow> zset_step add x (h, zs) \<noteq> None)"
proof -
  have wf: "state_wf (h, zs)" by (rule zset_reach_wf [OF assms])
  then have "zset_step add x (h, zs) \<noteq> None" if "zset_ok x (h, zs)" for x using zset_forward [OF wf that, of add] by auto
  then show ?thesis using wf by (auto simp: state_wf_def zset_wf_nodes)
qed

lemma sample_reach: "zset_reach sample_add (fst sample_set, snd sample_set)"
proof -
  obtain h zsl where c: "zslCreate 0 sample_junk Map.empty = (h, zsl)" and s: "sample_start = (h, \<lparr>zs_dict = Map.empty, zs_zsl = zsl\<rparr>)"
    by (rule sample_start_created)
  have start: "zset_reach sample_add sample_start" unfolding s by (rule zset_reach.created [OF c])
  obtain c' rs where "run_steps (zset_step sample_add) sample_ops sample_start = Some (c', rs)"
    using sorted_set.run_refines [OF sample_start_wf sample_ok] by blast
  then show ?thesis using zset_reach_run [OF start sample_ok] by (simp add: sample_set_def)
qed

theorem zset_states_typed_witness:
  "zset_reach sample_add (fst sample_set, snd sample_set) \<and> zset_rep (fst sample_set) (snd sample_set) [3, 5, 7] \<and>
   zset_step sample_add (ZremByRank 1 2) (fst sample_set, snd sample_set) \<noteq> None"
proof -
  have "zset_ok (ZremByRank 1 2 :: int zop) (fst sample_set, snd sample_set)" by simp
  then show ?thesis using zset_states_typed [OF sample_reach] sample_reach sample_set_nodes by metis
qed

text \<open>
  C12. The rank of an element is the number of pairs of score and element that are smaller, or greater for a reversed rank, and
  -1 if there is no such element; the search by rank finds the node of the element.
\<close>

theorem zset_rank_correct:
  assumes "zset_wf h zs"
  shows "case zset_abs h zs ele of
      None \<Rightarrow> zsetRank ele reverse zs h = Some (- 1)
    | Some s \<Rightarrow> let n = card {k. zset_abs h zs (snd k) = Some (fst k) \<and> k < (s, ele)}; m = card {k. zset_abs h zs (snd k) = Some (fst k) \<and> (s, ele) < k} in
        zsetRank ele reverse zs h = Some (if reverse then int m else int n) \<and> zslGetElementByRank (n + 1) (zs_zsl zs) h = Some (zs_dict zs ele)"
proof -
  obtain as where z: "zset_rep h zs as" using assms by (auto simp: zset_wf_def)
  show ?thesis using zsetRank_at [OF z, of ele reverse] by_rank_key [OF z, of ele]
    by (cases "zset_abs h zs ele") (simp_all add: rank_of_def range_keys_def Let_def)
qed

theorem zset_rank_correct_witness:
  "zset_wf (fst sample_set) (snd sample_set) \<and> zset_abs (fst sample_set) (snd sample_set) ''d'' = Some 9 \<and>
   zsetRank ''d'' False (snd sample_set) (fst sample_set) = Some 1 \<and>
   card {k. zset_abs (fst sample_set) (snd sample_set) (snd k) = Some (fst k) \<and> k < (9, ''d'')} = 1"
proof -
  have wf: "zset_wf (fst sample_set) (snd sample_set)" using sample_set_wf by (simp add: state_wf_def split_beta)
  have v: "zset_abs (fst sample_set) (snd sample_set) ''d'' = Some 9" by code_simp
  have r: "zsetRank ''d'' False (snd sample_set) (fst sample_set) = Some 1" by code_simp
  show ?thesis using zset_rank_correct [OF wf, of "''d''" False] wf v r by (simp add: Let_def)
qed

text \<open>
  C15. The first and the last node of a range of scores are the least and the greatest pair of score and element in the range, and
  none if the range has no elements; the same holds of a lexicographic range if the set has one score.
\<close>

theorem zset_range_ends:
  assumes "zset_wf h zs"
  shows "(let S = {k. zset_abs h zs (snd k) = Some (fst k) \<and> zslValueGteMin (fst k) spec \<and> zslValueLteMax (fst k) spec} in
       map_option (map_option (key h)) (zslFirstInRange spec (zs_zsl zs) h) = Some (if S = {} then None else Some (Min S)) \<and>
       map_option (map_option (key h)) (zslLastInRange spec (zs_zsl zs) h) = Some (if S = {} then None else Some (Max S))) \<and>
    (one_score h zs \<longrightarrow>
     (let S = {k. zset_abs h zs (snd k) = Some (fst k) \<and> zslLexValueGteMin (snd k) lspec \<and> zslLexValueLteMax (snd k) lspec} in
       map_option (map_option (key h)) (zslFirstInLexRange lspec (zs_zsl zs) h) = Some (if S = {} then None else Some (Min S)) \<and>
       map_option (map_option (key h)) (zslLastInLexRange lspec (zs_zsl zs) h) = Some (if S = {} then None else Some (Max S))))"
proof -
  obtain as where z: "zset_rep h zs as" using assms by (auto simp: zset_wf_def)
  note sorted = sorted_keys [OF z]
  have score: "map_option (map_option (key h)) (zslFirstInRange spec (zs_zsl zs) h) =
      Some (let S = range_keys (zset_abs h zs) (\<lambda>k. score_min spec k \<and> score_max spec k) in if S = {} then None else Some (Min S))"
    "map_option (map_option (key h)) (zslLastInRange spec (zs_zsl zs) h) =
      Some (let S = range_keys (zset_abs h zs) (\<lambda>k. score_min spec k \<and> score_max spec k) in if S = {} then None else Some (Max S))"
    unfolding zslFirstInRange_def zslLastInRange_def Let_def
    by (rule range_ends [OF z tests_spec(1,2) score_range_mono [OF sorted]], erule empty_range_none)+
  have lex: "map_option (map_option (key h)) (zslFirstInLexRange lspec (zs_zsl zs) h) =
      Some (let S = range_keys (zset_abs h zs) (\<lambda>k. lex_min lspec k \<and> lex_max lspec k) in if S = {} then None else Some (Min S))"
    "map_option (map_option (key h)) (zslLastInLexRange lspec (zs_zsl zs) h) =
      Some (let S = range_keys (zset_abs h zs) (\<lambda>k. lex_min lspec k \<and> lex_max lspec k) in if S = {} then None else Some (Max S))"
    if one: "one_score h zs"
    unfolding zslFirstInLexRange_def zslLastInLexRange_def Let_def
    by (rule range_ends [OF z tests_spec(3,4) lex_range_mono [OF sorted one_score_keys [OF z one]]], erule empty_lex_range_none)+
  show ?thesis using score lex unfolding range_keys_def Let_def by blast
qed

theorem zset_range_ends_witness:
  "let h = fst sample_lex; zs = snd sample_lex; spec = \<lparr>zr_min = 1, zr_max = 3, zr_minex = False, zr_maxex = True\<rparr>;
     lspec = \<lparr>lx_min = Lex ''b'', lx_max = Maxstring, lx_minex = False, lx_maxex = True\<rparr> in
   zset_wf h zs \<and> one_score h zs \<and>
   Min {k. zset_abs h zs (snd k) = Some (fst k) \<and> zslValueGteMin (fst k) spec \<and> zslValueLteMax (fst k) spec} = (1, ''a'') \<and>
   Max {k. zset_abs h zs (snd k) = Some (fst k) \<and> zslValueGteMin (fst k) spec \<and> zslValueLteMax (fst k) spec} = (1, ''ba'') \<and>
   Min {k. zset_abs h zs (snd k) = Some (fst k) \<and> zslLexValueGteMin (snd k) lspec \<and> zslLexValueLteMax (snd k) lspec} = (1, ''b'') \<and>
   map_option (map_option (key h)) (zslFirstInLexRange lspec (zs_zsl zs) h) = Some (Some (1, ''b''))"
proof -
  let ?h = "fst sample_lex" and ?zs = "snd sample_lex"
  let ?spec = "\<lparr>zr_min = 1, zr_max = 3, zr_minex = False, zr_maxex = True\<rparr> :: int zrangespec"
  let ?lspec = "\<lparr>lx_min = Lex ''b'', lx_max = Maxstring, lx_minex = False, lx_maxex = True\<rparr>"
  have one: "one_score ?h ?zs" by code_simp
  have f: "map_option (map_option (key ?h)) (zslFirstInRange ?spec (zs_zsl ?zs) ?h) = Some (Some (1, ''a''))" by code_simp
  have l: "map_option (map_option (key ?h)) (zslLastInRange ?spec (zs_zsl ?zs) ?h) = Some (Some (1, ''ba''))" by code_simp
  have x: "map_option (map_option (key ?h)) (zslFirstInLexRange ?lspec (zs_zsl ?zs) ?h) = Some (Some (1, ''b''))" by code_simp
  show ?thesis using zset_range_ends [OF sample_lex_wf, of ?spec ?lspec] sample_lex_wf one f l x by (simp add: Let_def split: if_splits)
qed

end
