(* ===== verification/Spec2Isabelle.thy ===== *)
theory Spec2Isabelle
  imports Intset Util Sds_Args Adlist Dict_Map Dict_Scan Bitfield_Proof Multi_Proof Zset_Session
begin

text \<open>
  A verification of the core of the Redis server, version 6.2, whose sources are in \<^verbatim>\<open>src/redis/src\<close>. File names below are
  relative to this directory; a definition has the name of the C function that it translates, and \<open>priv_\<close> stands for a leading
  underscore. The program is a key-value store with one thread that executes commands: \<^verbatim>\<open>processCommand\<close> checks a request, \<^verbatim>\<open>call\<close>
  runs it on the key space and propagates it to the replicas and the append-only file. The key space consists of dictionaries,
  whose values are dynamic strings, sets of integers, bitmaps, sorted sets and others.

  \<^bold>\<open>Conventions.\<close> A C integer is an \<open>int\<close> or a \<open>nat\<close> with the conversions of the source written out where a value may leave its type, or a
  word where it is used bitwise. A buffer is a list of bytes, linked structures are heaps, that is maps from addresses to nodes. What
  would be undefined behaviour, a failed assertion or a panic is the result \<open>None\<close>; a theorem that an operation is \<open>Some\<close> says
  that none of these happens. The address that an allocation returns, the contents of uninitialised memory, random numbers, the
  clock and the callbacks of a generic structure are arguments.

  \<^bold>\<open>Prelude.\<close> \<open>Redis_Prelude\<close> has bytes, buffers, the memory functions, integers in little-endian order, and the collections of
  rewrite rules.

  \<^bold>\<open>Integer sets\<close> (\<^verbatim>\<open>intset.c\<close>; \<open>Intset\<close>). Every operation on the packed buffer, byte by byte. The operations keep the invariant (one of
  three widths, exact size, strictly increasing), insert and remove one value, and the deep integrity check accepts exactly the
  buffers with the invariant.

  \<^bold>\<open>Conversions and matching\<close> (\<^verbatim>\<open>util.c\<close>; \<open>Util\<close>). \<open>ll2string\<close> and \<open>string2ll\<close> are inverse to each other on all 64-bit integers;
  \<open>stringmatchlen\<close> agrees with a matcher on parsed patterns.

  \<^bold>\<open>Dynamic strings\<close> (\<^verbatim>\<open>sds.c\<close>, \<^verbatim>\<open>sds.h\<close>; \<open>Sds\<close>, \<open>Sds_Text\<close>, \<open>Sds_Args\<close>). Headers of five sizes and the buffer behind them, with
  growing, shrinking, trimming and ranges. The routines that only append (quoting, joining, formatting, templates) are proved over the
  locale \<open>string_buffer\<close>, interpreted by \<open>sdscatlen\<close>. Quoting is inverted by the argument parser, joining by splitting.

  \<^bold>\<open>Linked lists\<close> (\<^verbatim>\<open>adlist.c\<close>; \<open>Adlist\<close>). Every operation over a heap of nodes implements the one on sequences, and a failing
  duplication releases what it allocated.

  \<^bold>\<open>Dictionaries\<close> (\<^verbatim>\<open>dict.c\<close>; \<open>Dict\<close>, \<open>Dict_Map\<close>, \<open>Dict_Scan\<close>). Two tables with chains and incremental rehashing. The locales
  \<open>keyed_store\<close> and \<open>maintained_store\<close> state what the server relies on; the dictionary interprets them, so that any
  interleaving of updates, lookups, rehashing and resizing answers like a finite map. Rehashing terminates, iterators visit
  each entry once, and the stateless cursor of \<open>dictScan\<close> returns every key that is present throughout, whatever happens to
  the tables between the calls.

  \<^bold>\<open>Bitmaps\<close> (\<^verbatim>\<open>bitops.c\<close>; \<open>Bitops\<close>, \<open>Bitpos\<close>, \<open>Bitfield\<close>, \<open>Bitops_Commands\<close>, \<open>Bitop_Proof\<close>, \<open>Bitfield_Proof\<close>). The optimised
  population count, bit search and word-wise combination equal their definitions bit by bit; fields are written within their
  bounds in each overflow mode; no command leaves the string it works on.

  \<^bold>\<open>Key space and transactions\<close> (\<^verbatim>\<open>db.c\<close>, \<^verbatim>\<open>expire.c\<close>, \<^verbatim>\<open>evict.c\<close>, \<^verbatim>\<open>t_string.c\<close>, \<^verbatim>\<open>multi.c\<close>, \<^verbatim>\<open>server.c\<close>; \<open>Keyspace\<close>, \<open>Multi\<close>,
  \<open>Keyspace_Proof\<close>, \<open>Multi_Proof\<close>). The server with its databases, clients and propagated stream as a record, and requests,
  expirations, evictions and disconnections as events. A transaction runs only if every watched key is as it was when it was
  watched; it is executed as a whole or not at all and propagated as one block; no assertion fails in any run.

  \<^bold>\<open>Sorted sets\<close> (\<^verbatim>\<open>t_zset.c\<close>; \<open>Skiplist\<close>, \<open>Skiplist_Proof\<close>, \<open>Skiplist_Delete\<close>, \<open>Zset_Proof\<close>, \<open>Zset_Range\<close>, \<open>Zset_Session\<close>). The
  skip list over a heap of nodes, with the span of every link, and the dictionary from elements to nodes. The loops over the levels
  are instances of the locale \<open>level_loop\<close>. \<open>zsl_rep\<close> relates the heap to the sorted sequence of nodes; insertion, deletion
  and updates of a score keep it. The locale \<open>simulation\<close> lifts the step by step refinement to sessions: any sequence of operations on
  a new set answers like a finite map from elements to scores. Ranks are positions in the order, and the ends of a range are
  its least and greatest pair.

  \<^bold>\<open>Bounds and fuel.\<close> No loop has fuel. Loops over heaps are partial functions whose results are proved to be defined; the others are
  structural or have a measure. The ranks that \<open>zslInsert\<close> stores have 32 bits, so that the theorems on sorted sets
  assume fewer than \<open>2 ^ 32\<close> elements; the theorems on strings and dictionaries state the sizes that fit their length fields
  where they matter.

  \<^bold>\<open>Parameters.\<close> The hash function and the callbacks of a dictionary, the allocator of strings, the access control list, the state of
  memory, disk and replicas that \<^verbatim>\<open>processCommand\<close> asks for, and the sum of two scores, which is \<open>None\<close> where it is not a number.
  Scores are of any linearly ordered type.

  \<^bold>\<open>Not modelled.\<close> Networking, the event loop, persistence, replication, cluster, sentinel, modules, scripting, access control and
  configuration are input and output or protocols with other processes; what the modelled code needs of them are the parameters
  above. The packed encodings (ziplist, listpack, quicklist), the radix tree, streams, hashes, lists, the set commands,
  HyperLogLog and geographic commands are data types of their own that no modelled function calls, except that a
  small sorted set is stored as a ziplist: of the functions on sorted sets the branch for skip lists is modelled. Floating-point
  conversions are the C library's. The command line tools, the bundled libraries under \<^verbatim>\<open>src/redis/deps\<close> and the PHP scripts
  and packages beside the server are separate programs.
\<close>

end
